(* ===== verification/Ant_Prelude.thy ===== *)
theory Ant_Prelude
  imports Main "HOL-Library.Word"
begin

unbundle bit_operations_syntax

text \<open>
  The shared base of the development: names for the C integer types, the
  collections that carry the component proofs, the error values of the runtime,
  the memory environment that stands for the allocator, and the lemmas on words
  and lists that several components use.
\<close>

section \<open>Machine types\<close>

type_synonym u8 = "8 word"
type_synonym u16 = "16 word"
type_synonym u32 = "32 word"
type_synonym u64 = "64 word"
type_synonym bytes = "8 word list"

text \<open>Lemma collections: bounds of words read as numbers, and values of limb arrays.\<close>

named_theorems word_bounds
named_theorems limb_simps
named_theorems byte_simps

section \<open>Errors and the memory environment\<close>

text \<open>
  The failures the modelled functions report through \<^verbatim>\<open>js_mkerr\<close>, \<^verbatim>\<open>js_mkerr_typed\<close>
  or a null result, one constructor per message of the source. The last three are not
  reported by the code but mark undefined behaviour in C, and the theorems say where it
  can and cannot happen: \<open>BufferOverrun\<close> a write past the end of a buffer, \<open>NotABigint\<close>
  an error value used as a BigInt, \<open>ConversionUndefined\<close> a floating-point number out of
  the range of the integer type it is converted to.
\<close>

datatype js_error =
    Oom
  | DivisionByZero
  | CannotConvertStringToBigInt
  | ExponentMustBePositive
  | InvalidBits
  | NoUnsignedRightShift
  | UriMalformed
  | InvalidRadix
  | NotFinite
  | NotAnInteger
  | CannotConvertToBigInt
  | BufferOverrun
  | NotABigint
  | ConversionUndefined
  | TwoArgumentsRequired

text \<open>
  What the allocator answers: whether a request of that many bytes succeeds, and
  whether pushing a temporary root on the collector's root stack succeeds.
\<close>

record mem_env =
  alloc_ok :: "nat \<Rightarrow> bool"
  push_root_ok :: bool

definition ample_memory :: "mem_env \<Rightarrow> bool" where
  "ample_memory m \<longleftrightarrow> (\<forall>n. alloc_ok m n) \<and> push_root_ok m"

definition full_mem :: mem_env where
  "full_mem = \<lparr>alloc_ok = (\<lambda>_. True), push_root_ok = True\<rparr>"

lemma ample_full_mem [simp]: "ample_memory full_mem"
  by (simp add: ample_memory_def full_mem_def)

lemma ample_memoryD [simp]:
  "ample_memory m \<Longrightarrow> alloc_ok m n" "ample_memory m \<Longrightarrow> push_root_ok m"
  by (simp_all add: ample_memory_def)

text \<open>\<^verbatim>\<open>SIZE_MAX\<close> of a 64-bit target, and the overflow-checked size arithmetic.\<close>

definition size_max :: nat where
  "size_max = 2 ^ 64 - 1"

definition checked_add_size :: "nat \<Rightarrow> nat \<Rightarrow> nat option" where
  "checked_add_size a b = (if a > size_max - b then None else Some (a + b))"

definition checked_mul_size :: "nat \<Rightarrow> nat \<Rightarrow> nat option" where
  "checked_mul_size a b = (if a \<noteq> 0 \<and> b > size_max div a then None else Some (a * b))"

definition bind_err :: "'e + 'a \<Rightarrow> ('a \<Rightarrow> 'e + 'b) \<Rightarrow> 'e + 'b" where
  "bind_err x f = (case x of Inl e \<Rightarrow> Inl e | Inr a \<Rightarrow> f a)"

lemma bind_err_simps [simp]:
  "bind_err (Inl e) f = Inl e" "bind_err (Inr a) f = f a"
  by (simp_all add: bind_err_def)

lemma bind_err_Inr_iff: "bind_err x f = Inr b \<longleftrightarrow> (\<exists>a. x = Inr a \<and> f a = Inr b)"
  by (cases x) auto

section \<open>Words as numbers\<close>

text \<open>
  The radix of a limb. It is kept folded in the proofs: the simplifier would expand the
  numeral and arithmetic on it would dominate every limb lemma.
\<close>

definition base32 :: nat where
  "base32 = 2 ^ 32"

lemma base32_pos [simp]:
  "0 < base32" "base32 \<noteq> 0" "1 < base32" "Suc 0 < base32" "Suc 0 \<le> base32"
  by (simp_all add: base32_def)

lemma unat_u8_bound [word_bounds]: "unat (x :: u8) < 256"
  using unsigned_less [of x, where ?'a = nat] by simp

lemma unat_u16_bound [word_bounds]: "unat (x :: u16) < 65536"
  using unsigned_less [of x, where ?'a = nat] by simp

lemma unat_u32_bound [word_bounds]: "unat (x :: u32) < base32"
  using unsigned_less [of x, where ?'a = nat] by (simp add: base32_def)

lemma unat_u64_bound [word_bounds]: "unat (x :: u64) < base32 * base32"
  using unsigned_less [of x, where ?'a = nat] by (simp add: base32_def)

lemma base32_sq: "base32 * base32 = 2 ^ 64"
  by (simp add: base32_def)

lemma unat_ucast_u64_u32 [simp]: "unat (ucast (x :: u64) :: u32) = unat x mod base32"
  by (simp add: unsigned_ucast_eq take_bit_eq_mod base32_def)

lemma unat_ucast_u32_u64 [simp]: "unat (ucast (x :: u32) :: u64) = unat x"
proof -
  have "unat x < 2 ^ 64"
    using unsigned_less [of x, where ?'a = nat] by simp
  then show ?thesis
    by (simp add: unsigned_ucast_eq take_bit_eq_mod)
qed

lemma unat_drop_bit_u64: "unat (drop_bit n (x :: u64)) = unat x div 2 ^ n"
proof -
  have "take_bit 64 (unat x) = unat x"
    using unsigned_less [of x, where ?'a = nat] by (simp add: take_bit_nat_eq_self)
  then show ?thesis
    by (simp add: unsigned_drop_bit_eq drop_bit_eq_div [where ?'a = nat])
qed

lemma unat_drop_bit_u32: "unat (drop_bit n (x :: u32)) = unat x div 2 ^ n"
proof -
  have "take_bit 32 (unat x) = unat x"
    using unsigned_less [of x, where ?'a = nat] by (simp add: take_bit_nat_eq_self)
  then show ?thesis
    by (simp add: unsigned_drop_bit_eq drop_bit_eq_div [where ?'a = nat])
qed

lemma unat_high_u64 [simp]: "unat (drop_bit 32 (x :: u64)) = unat x div base32"
  by (simp add: unat_drop_bit_u64 base32_def)

lemma unat_add_u64: "unat (x :: u64) + unat y < base32 * base32 \<Longrightarrow> unat (x + y) = unat x + unat y"
  by (simp add: unat_word_ariths base32_sq)

lemma unat_add3_u64:
  assumes "unat (x :: u64) + unat y + unat z < base32 * base32"
  shows "unat (x + y + z) = unat x + unat y + unat z"
proof -
  have "unat (x + y) = unat x + unat y"
    using assms by (intro unat_add_u64) linarith
  with assms show ?thesis
    by (simp add: unat_add_u64)
qed

lemma unat_mult_u64: "unat (x :: u64) * unat y < base32 * base32 \<Longrightarrow> unat (x * y) = unat x * unat y"
  by (simp add: unat_word_ariths base32_sq)

lemma unat_sub_u64: "y \<le> x \<Longrightarrow> unat ((x :: u64) - y) = unat x - unat y"
  by (rule unat_sub)

lemma unat_base32_u64: "unat (0x100000000 :: u64) = base32"
  by (simp add: base32_def)

lemma base32_le_u64: "(0x100000000 :: u64) \<le> x \<longleftrightarrow> base32 \<le> unat x"
  unfolding word_le_nat_alt unat_base32_u64 ..

lemma less_base32_u64: "x < (0x100000000 :: u64) \<longleftrightarrow> unat x < base32"
  unfolding word_less_nat_alt unat_base32_u64 ..

text \<open>Joining a high and a low half: \<^verbatim>\<open>(hi << 32) | lo\<close>.\<close>

lemma low_and_mask_u64 [simp]: "unat ((x :: u64) AND 0xFFFFFFFF) = unat x mod base32"
proof -
  have "x AND 0xFFFFFFFF = take_bit 32 x"
    by (simp add: take_bit_eq_mask mask_eq_exp_minus_1)
  then show ?thesis
    by (simp add: unsigned_take_bit_eq [where ?'a = nat] take_bit_eq_mod [where ?'a = nat]
        base32_def del: take_bit_word_eq_self)
qed

text \<open>Bits below \<open>s\<close> and bits shifted up by \<open>s\<close> never meet.\<close>

lemma unat_push_or:
  fixes h c :: "'a :: len word"
  assumes "unat h * 2 ^ s < 2 ^ LENGTH('a)" and "unat c < 2 ^ s"
  shows "unat (push_bit s h OR c) = unat h * 2 ^ s + unat c"
proof -
  have "unat (take_bit s c) = unat c"
    using assms(2) by (simp add: unsigned_take_bit_eq take_bit_nat_eq_self)
  then have c: "take_bit s c = c"
    by (simp add: word_unat_eq_iff)
  have "push_bit s h AND take_bit s c = 0"
    by (rule bit_eqI) (auto simp: bit_simps)
  then have eq: "push_bit s h OR c = push_bit s h + c"
    unfolding c by (rule disjunctive_add_eq_or [symmetric])
  have push: "unat (push_bit s h) = unat h * 2 ^ s"
    using assms(1) by (simp add: unsigned_push_bit_eq push_bit_eq_mult [where ?'a = nat]
        take_bit_nat_eq_self)
  have "unat h * 2 ^ s + unat c < 2 ^ LENGTH('a)"
  proof (cases "unat h = 0")
    case True
    then show ?thesis
      using unsigned_less [of c, where ?'a = nat] by simp
  next
    case False
    then have "(2 :: nat) ^ s \<le> unat h * 2 ^ s" by simp
    then have "(2 :: nat) ^ s < 2 ^ LENGTH('a)"
      using assms(1) by linarith
    then have "s \<le> LENGTH('a)" by simp
    then have pow: "(2 :: nat) ^ LENGTH('a) = 2 ^ (LENGTH('a) - s) * 2 ^ s"
      by (simp flip: power_add)
    then have "unat h < 2 ^ (LENGTH('a) - s)"
      using assms(1) by simp
    then have "Suc (unat h) * 2 ^ s \<le> 2 ^ LENGTH('a)"
      unfolding pow by (intro mult_le_mono1) simp
    with assms(2) show ?thesis by simp
  qed
  then show ?thesis
    by (simp add: eq unat_word_ariths push)
qed

lemma unat_push32_or:
  assumes "unat (h :: u64) < base32"
  shows "unat (push_bit 32 h OR (ucast (l :: u32) :: u64)) = unat h * base32 + unat l"
  using unat_push_or [of h 32 "ucast l"] assms unat_u32_bound [of l]
  by (simp add: base32_def)

lemma unat_mask_and:
  fixes x :: "'a :: len word"
  shows "unat (x AND mask n) = unat x mod 2 ^ n"
  by (simp add: unsigned_take_bit_eq take_bit_eq_mod [where ?'a = nat] flip: take_bit_eq_mask)

lemma unat_not_u32: "unat (NOT (x :: u32)) = base32 - 1 - unat x"
proof -
  have "NOT x = - 1 - x"
    by (simp add: not_eq_complement)
  moreover have "unat (- 1 - x) = unat (- 1 :: u32) - unat x"
    by (rule unat_sub) simp
  moreover have "unat (- 1 :: u32) = base32 - 1"
    by (simp add: unsigned_minus_1_eq_mask mask_eq_exp_minus_1 base32_def)
  ultimately show ?thesis by simp
qed

text \<open>Dropping blanks from both ends of a text.\<close>

lemma trim_blanks:
  assumes "\<forall>c \<in> set pre. P c" and "\<forall>c \<in> set post. P c" and "t \<noteq> [] \<Longrightarrow> \<not> P (hd t) \<and> \<not> P (last t)"
  shows "rev (dropWhile P (rev (dropWhile P (pre @ t @ post)))) = t"
proof (cases "t = []")
  case True
  then have "dropWhile P (pre @ t @ post) = []" unfolding dropWhile_eq_Nil_conv using assms(1,2) by auto
  then show ?thesis by (simp only: True dropWhile.simps rev.simps)
next
  case False
  then have t: "\<not> P (hd t)" "\<not> P (last t)" using assms(3) by blast+
  have "dropWhile P (pre @ t @ post) = t @ post"
    using assms(1) t(1) False by (cases t) (auto simp: dropWhile_append)
  moreover have "dropWhile P (rev post @ rev t) = rev t"
    using assms(2) t(2) False by (cases "rev t") (auto simp: dropWhile_append hd_rev [symmetric])
  ultimately show ?thesis by simp
qed

end
