(* ===== verification/Bigint_Limbs.thy ===== *)
theory Bigint_Limbs
  imports Ant_Prelude
begin

text \<open>
  The magnitude arithmetic of \<^verbatim>\<open>src/modules/bigint.c\<close>: little-endian arrays of 32-bit
  limbs, added, subtracted, multiplied, shifted and divided by a single limb with
  64-bit intermediates. An array with its length is a list of words; a loop over
  indices is a function of the number of iterations done, so that its invariant is
  an induction on that number. \<open>limbs_val\<close> reads an array as a natural number.
\<close>

section \<open>Arrays of limbs and their value\<close>

type_synonym limbs = "u32 list"

text \<open>Reading past the length gives zero: \<^verbatim>\<open>i < alen ? a[i] : 0\<close>.\<close>

definition limb_at :: "limbs \<Rightarrow> nat \<Rightarrow> u32" where
  "limb_at a i = (if i < length a then a ! i else 0)"

primrec limbs_val :: "limbs \<Rightarrow> nat" where
  "limbs_val [] = 0"
| "limbs_val (x # xs) = unat x + base32 * limbs_val xs"

lemma limbs_val_append [limb_simps]:
  "limbs_val (xs @ ys) = limbs_val xs + base32 ^ length xs * limbs_val ys"
  by (induction xs) (simp_all add: algebra_simps)

lemma limbs_val_snoc: "limbs_val (xs @ [x]) = limbs_val xs + base32 ^ length xs * unat x"
  by (simp add: limbs_val_append)

lemma limbs_val_replicate_0 [simp]: "limbs_val (replicate n 0) = 0"
  by (induction n) simp_all

lemma limbs_val_bound: "limbs_val xs < base32 ^ length xs"
proof (induction xs)
  case Nil
  then show ?case by simp
next
  case (Cons x xs)
  have "limbs_val (x # xs) < base32 + base32 * limbs_val xs"
    using unat_u32_bound [of x] by simp
  also have "\<dots> = base32 * (limbs_val xs + 1)"
    by (simp add: algebra_simps)
  also have "\<dots> \<le> base32 * base32 ^ length xs"
    using Cons.IH by (intro mult_le_mono2) simp
  finally show ?case by simp
qed

lemma limbs_val_take_Suc [limb_simps]:
  "limbs_val (take (Suc i) a) = limbs_val (take i a) + base32 ^ i * unat (limb_at a i)"
proof (cases "i < length a")
  case True
  then show ?thesis
    by (simp add: take_Suc_conv_app_nth limbs_val_append limb_at_def)
next
  case False
  then show ?thesis
    by (simp add: limb_at_def)
qed

lemma limbs_val_eq_0_iff: "limbs_val xs = 0 \<longleftrightarrow> (\<forall>x \<in> set xs. x = 0)"
  by (induction xs) (auto simp: unat_eq_zero)

lemma limbs_val_split: "limbs_val xs = limbs_val (take n xs) + base32 ^ min n (length xs) * limbs_val (drop n xs)"
  using limbs_val_append [of "take n xs" "drop n xs"] by (simp add: min.commute)

section \<open>Normalisation\<close>

text \<open>\<^verbatim>\<open>bigint_normalize_limbs\<close>: drop leading zero limbs, keeping at least one.\<close>

fun bigint_normalize_limbs :: "limbs \<Rightarrow> nat \<Rightarrow> nat" where
  "bigint_normalize_limbs limbs count =
     (if count > 1 \<and> limbs ! (count - 1) = 0 then bigint_normalize_limbs limbs (count - 1)
      else count)"

declare bigint_normalize_limbs.simps [simp del]

definition limbs_is_zero :: "limbs \<Rightarrow> nat \<Rightarrow> bool" where
  "limbs_is_zero limbs count \<longleftrightarrow> count = 1 \<and> limbs ! 0 = 0"

lemma normalize_le: "bigint_normalize_limbs xs n \<le> n"
proof (induction xs n rule: bigint_normalize_limbs.induct)
  case (1 xs n)
  then show ?case
    by (subst bigint_normalize_limbs.simps) auto
qed

lemma normalize_pos: "0 < n \<Longrightarrow> 0 < bigint_normalize_limbs xs n"
proof (induction xs n rule: bigint_normalize_limbs.induct)
  case (1 xs n)
  then show ?case
    by (subst bigint_normalize_limbs.simps) auto
qed

lemma normalize_val:
  "n \<le> length xs \<Longrightarrow> limbs_val (take (bigint_normalize_limbs xs n) xs) = limbs_val (take n xs)"
proof (induction xs n rule: bigint_normalize_limbs.induct)
  case (1 xs n)
  show ?case
  proof (cases "n > 1 \<and> xs ! (n - 1) = 0")
    case True
    then have "limbs_val (take n xs) = limbs_val (take (n - 1) xs)"
      using limbs_val_take_Suc [of "n - 1" xs] by (simp add: limb_at_def)
    with True "1.IH" "1.prems" show ?thesis
      by (subst bigint_normalize_limbs.simps) simp
  next
    case False
    then show ?thesis
      by (subst bigint_normalize_limbs.simps) auto
  qed
qed

lemma normalize_top:
  "1 < bigint_normalize_limbs xs n \<Longrightarrow> xs ! (bigint_normalize_limbs xs n - 1) \<noteq> 0"
proof (induction xs n rule: bigint_normalize_limbs.induct)
  case (1 xs n)
  show ?case
  proof (cases "n > 1 \<and> xs ! (n - 1) = 0")
    case True
    then have "bigint_normalize_limbs xs n = bigint_normalize_limbs xs (n - 1)"
      by (subst bigint_normalize_limbs.simps) simp
    with True 1 show ?thesis by simp
  next
    case False
    then have "bigint_normalize_limbs xs n = n"
      by (subst bigint_normalize_limbs.simps) auto
    with False 1 show ?thesis by auto
  qed
qed

text \<open>A normalised array: not empty, and no leading zero limb unless it is the only one.\<close>

definition limbs_norm :: "limbs \<Rightarrow> bool" where
  "limbs_norm xs \<longleftrightarrow> xs \<noteq> [] \<and> (1 < length xs \<longrightarrow> last xs \<noteq> 0)"

lemma limbs_norm_take_normalize:
  assumes "0 < n" "n \<le> length xs"
  shows "limbs_norm (take (bigint_normalize_limbs xs n) xs)"
proof -
  let ?c = "bigint_normalize_limbs xs n"
  have c: "0 < ?c" "?c \<le> length xs"
    using assms normalize_pos normalize_le [of xs n] by auto
  then have ne: "take ?c xs \<noteq> []" by auto
  moreover from c ne have "last (take ?c xs) = xs ! (?c - 1)"
    by (subst last_conv_nth) (simp_all add: min_def)
  ultimately show ?thesis
    using c normalize_top [of xs n] by (auto simp: limbs_norm_def)
qed

lemma normalize_idem:
  assumes "limbs_norm xs"
  shows "bigint_normalize_limbs xs (length xs) = length xs"
proof -
  have "\<not> (length xs > 1 \<and> xs ! (length xs - 1) = 0)"
    using assms by (auto simp: limbs_norm_def last_conv_nth)
  then show ?thesis
    by (subst bigint_normalize_limbs.simps) auto
qed

lemma limbs_norm_lower: "limbs_norm xs \<Longrightarrow> 1 < length xs \<Longrightarrow> base32 ^ (length xs - 1) \<le> limbs_val xs"
proof -
  assume norm: "limbs_norm xs" and len: "1 < length xs"
  then obtain ys y where xs: "xs = ys @ [y]"
    by (metis append_butlast_last_id list.size(3) not_one_less_zero)
  with norm len have "y \<noteq> 0" by (auto simp: limbs_norm_def)
  then have "1 \<le> unat y"
    by (simp add: Suc_le_eq unat_gt_0)
  then have "base32 ^ length ys * 1 \<le> base32 ^ length ys * unat y"
    by (rule mult_le_mono2)
  then have "base32 ^ length ys \<le> limbs_val ys + base32 ^ length ys * unat y"
    by linarith
  with xs show ?thesis by (simp add: limbs_val_append)
qed

lemma limbs_norm_zero_iff: "limbs_norm xs \<Longrightarrow> limbs_val xs = 0 \<longleftrightarrow> xs = [0]"
proof
  assume n: "limbs_norm xs" and z: "limbs_val xs = 0"
  have "\<not> 1 < length xs"
    using limbs_norm_lower [OF n] z by auto
  with n have "length xs = 1"
    by (cases xs) (auto simp: limbs_norm_def)
  with z show "xs = [0]"
    by (cases xs) (auto simp: unat_eq_zero)
qed simp

lemma limbs_val_inj:
  assumes "length xs = length ys" "limbs_val xs = limbs_val ys"
  shows "xs = ys"
  using assms
proof (induction xs ys rule: list_induct2)
  case Nil
  then show ?case by simp
next
  case (Cons x xs y ys)
  have low: "limbs_val (z # zs) mod base32 = unat z" for z zs
    using unat_u32_bound [of z] by simp
  have "unat x = unat y"
    using low [of x xs] low [of y ys] Cons.prems by metis
  with Cons show ?case by (simp add: word_unat_eq_iff)
qed

lemma limbs_norm_inj:
  assumes "limbs_norm xs" "limbs_norm ys" "limbs_val xs = limbs_val ys"
  shows "xs = ys"
proof -
  have bound: "length a \<le> length b"
    if "limbs_norm a" "limbs_norm b" "limbs_val a = limbs_val b" for a b
  proof (rule ccontr)
    assume "\<not> length a \<le> length b"
    moreover from that(2) have "0 < length b" by (simp add: limbs_norm_def)
    ultimately have "1 < length a" "length b \<le> length a - 1" by linarith+
    then have "base32 ^ length b \<le> base32 ^ (length a - 1)"
      by (intro power_increasing) auto
    also have "\<dots> \<le> limbs_val a"
      using limbs_norm_lower that \<open>1 < length a\<close> by blast
    finally show False
      using limbs_val_bound [of b] that(3) by simp
  qed
  then have "length xs = length ys"
    using assms by (metis le_antisym)
  then show ?thesis
    using assms(3) by (rule limbs_val_inj)
qed

section \<open>Comparison\<close>

primrec cmp_limbs_from :: "limbs \<Rightarrow> limbs \<Rightarrow> nat \<Rightarrow> int" where
  "cmp_limbs_from a b 0 = 0"
| "cmp_limbs_from a b (Suc i) =
     (if a ! i \<noteq> b ! i then (if a ! i > b ! i then 1 else - 1) else cmp_limbs_from a b i)"

definition bigint_cmp_abs_limbs :: "limbs \<Rightarrow> limbs \<Rightarrow> int" where
  "bigint_cmp_abs_limbs a b =
     (let alen = bigint_normalize_limbs a (length a);
          blen = bigint_normalize_limbs b (length b)
      in if alen \<noteq> blen then (if alen > blen then 1 else - 1)
         else cmp_limbs_from a b alen)"

text \<open>One more significant limb decides; equal ones are scaled away.\<close>

lemma scaled_less:
  fixes u v :: nat
  assumes "u < p" "x < y"
  shows "u + p * x < v + p * y"
proof -
  have "u + p * x < p * Suc x" using assms by simp
  also have "\<dots> \<le> p * y" using assms by (intro mult_le_mono2) simp
  finally show ?thesis by simp
qed

lemma cmp_limbs_from_val:
  "i \<le> length a \<Longrightarrow> i \<le> length b \<Longrightarrow>
   cmp_limbs_from a b i = sgn (int (limbs_val (take i a)) - int (limbs_val (take i b)))"
proof (induction i)
  case 0
  then show ?case by simp
next
  case (Suc i)
  let ?u = "limbs_val (take i a)" and ?v = "limbs_val (take i b)"
  have ub: "?u < base32 ^ i" "?v < base32 ^ i"
    using limbs_val_bound [of "take i a"] limbs_val_bound [of "take i b"] Suc.prems
    by (simp_all add: min_def)
  have va: "limbs_val (take (Suc i) a) = ?u + base32 ^ i * unat (a ! i)"
    and vb: "limbs_val (take (Suc i) b) = ?v + base32 ^ i * unat (b ! i)"
    using Suc.prems by (simp_all add: limbs_val_take_Suc limb_at_def)
  consider "a ! i = b ! i" | "unat (a ! i) < unat (b ! i)" | "unat (b ! i) < unat (a ! i)"
    by (metis linorder_neqE_nat word_unat_eq_iff)
  then show ?case
  proof cases
    case 1
    with Suc va vb show ?thesis by simp
  next
    case 2
    then have "limbs_val (take (Suc i) a) < limbs_val (take (Suc i) b)"
      using scaled_less [OF ub(1) 2] va vb by simp
    with 2 show ?thesis
      by (auto simp: word_less_nat_alt)
  next
    case 3
    then have "limbs_val (take (Suc i) b) < limbs_val (take (Suc i) a)"
      using scaled_less [OF ub(2) 3] va vb by simp
    with 3 show ?thesis
      by (auto simp: word_less_nat_alt)
  qed
qed

lemma normalized_length_less:
  assumes "a \<noteq> []" "b \<noteq> []"
    and "bigint_normalize_limbs a (length a) < bigint_normalize_limbs b (length b)"
  shows "limbs_val a < limbs_val b"
proof -
  let ?a = "take (bigint_normalize_limbs a (length a)) a"
  let ?b = "take (bigint_normalize_limbs b (length b)) b"
  have la: "length ?a = bigint_normalize_limbs a (length a)"
    and lb: "length ?b = bigint_normalize_limbs b (length b)"
    using normalize_le [of a "length a"] normalize_le [of b "length b"] by simp_all
  have pos: "0 < bigint_normalize_limbs a (length a)"
    using assms(1) by (simp add: normalize_pos)
  have nb: "limbs_norm ?b"
    using assms(2) by (intro limbs_norm_take_normalize) simp_all
  have gt: "1 < length ?b"
    using pos assms(3) lb by linarith
  have "limbs_val a = limbs_val ?a"
    by (simp add: normalize_val)
  also have "\<dots> < base32 ^ length ?a"
    by (rule limbs_val_bound)
  also have "\<dots> \<le> base32 ^ (length ?b - 1)"
    using assms(3) la lb by (intro power_increasing) simp_all
  also have "\<dots> \<le> limbs_val ?b"
    using nb gt by (rule limbs_norm_lower)
  also have "\<dots> = limbs_val b"
    by (simp add: normalize_val)
  finally show ?thesis .
qed

lemma bigint_cmp_abs_limbs_sgn:
  assumes "a \<noteq> []" "b \<noteq> []"
  shows "bigint_cmp_abs_limbs a b = sgn (int (limbs_val a) - int (limbs_val b))"
proof -
  let ?na = "bigint_normalize_limbs a (length a)"
  let ?nb = "bigint_normalize_limbs b (length b)"
  consider "?na < ?nb" | "?nb < ?na" | "?na = ?nb" by linarith
  then show ?thesis
  proof cases
    case 1
    with normalized_length_less [OF assms 1] show ?thesis
      by (simp add: bigint_cmp_abs_limbs_def)
  next
    case 2
    with normalized_length_less [OF assms(2,1) 2] show ?thesis
      by (simp add: bigint_cmp_abs_limbs_def)
  next
    case 3
    with cmp_limbs_from_val [of ?na a b] normalize_le [of a "length a"] normalize_le [of b "length b"]
    show ?thesis
      by (simp add: bigint_cmp_abs_limbs_def Let_def normalize_val)
        (metis normalize_val order_refl take_all)
  qed
qed

section \<open>Addition and subtraction\<close>

text \<open>The loop of \<^verbatim>\<open>bigint_add_abs_limbs\<close> after \<open>i\<close> iterations: limbs written, carry.\<close>

primrec add_limbs_loop :: "limbs \<Rightarrow> limbs \<Rightarrow> nat \<Rightarrow> limbs \<times> u64" where
  "add_limbs_loop a b 0 = ([], 0)"
| "add_limbs_loop a b (Suc i) =
     (case add_limbs_loop a b i of (result, carry) \<Rightarrow>
       let da = ucast (limb_at a i);
           db = ucast (limb_at b i);
           sum = da + db + carry
       in (result @ [ucast sum], drop_bit 32 sum))"

text \<open>The buffer written (one limb longer than the longer operand) and the length returned.\<close>

definition bigint_add_abs_limbs :: "limbs \<Rightarrow> limbs \<Rightarrow> limbs \<times> nat" where
  "bigint_add_abs_limbs a b =
     (let maxlen = (if length a > length b then length a else length b)
      in case add_limbs_loop a b maxlen of (result, carry) \<Rightarrow>
           (result @ [ucast carry], maxlen + (if carry \<noteq> 0 then 1 else 0)))"

lemma add_limbs_loop_inv:
  "add_limbs_loop a b i = (r, c) \<Longrightarrow>
   length r = i \<and> unat c \<le> 1 \<and>
   limbs_val r + base32 ^ i * unat c = limbs_val (take i a) + limbs_val (take i b)"
proof (induction i arbitrary: r c)
  case 0
  then show ?case by simp
next
  case (Suc i)
  obtain r0 c0 where st: "add_limbs_loop a b i = (r0, c0)"
    by (cases "add_limbs_loop a b i")
  note IH = Suc.IH [OF st]
  define x y where "x = limb_at a i" and "y = limb_at b i"
  define s :: u64 where "s = ucast x + ucast y + c0"
  have bx: "unat x < base32" and yx: "unat y < base32"
    by (simp_all add: unat_u32_bound)
  have lt: "unat x + unat y + unat c0 < 2 * base32"
    using bx yx IH by linarith
  have "2 * base32 \<le> base32 * base32"
    by (simp add: base32_def)
  with lt have "unat x + unat y + unat c0 < base32 * base32"
    by (rule less_le_trans)
  then have s: "unat s = unat x + unat y + unat c0"
    unfolding s_def by (subst unat_add3_u64) simp_all
  have r: "r = r0 @ [ucast s]" and c: "c = drop_bit 32 s"
    using Suc.prems st by (auto simp: Let_def s_def x_def y_def)
  have "unat s = unat s mod base32 + base32 * (unat s div base32)"
    by simp
  then have "base32 ^ i * unat s =
      base32 ^ i * (unat s mod base32) + base32 ^ Suc i * (unat s div base32)"
    by (metis add_mult_distrib2 mult.assoc mult.commute power_Suc)
  moreover have "unat s div base32 \<le> 1"
    using lt s less_mult_imp_div_less [of "unat s" 2 base32] by simp
  ultimately show ?case
    using IH r c s
    by (simp add: limbs_val_snoc limbs_val_take_Suc x_def y_def algebra_simps)
qed

lemma bigint_add_abs_limbs_val:
  assumes "bigint_add_abs_limbs a b = (r, n)"
  shows "limbs_val (take n r) = limbs_val a + limbs_val b"
    and "n \<le> length r" and "length r = max (length a) (length b) + 1"
    and "max (length a) (length b) \<le> n"
proof -
  define m where "m = max (length a) (length b)"
  have le: "length a \<le> m" "length b \<le> m"
    by (simp_all add: m_def)
  obtain r0 c where st: "add_limbs_loop a b m = (r0, c)"
    by (cases "add_limbs_loop a b m")
  have inv: "length r0 = m" "unat c \<le> 1"
      "limbs_val r0 + base32 ^ m * unat c = limbs_val a + limbs_val b"
    using add_limbs_loop_inv [OF st] le by simp_all
  have "(if length a > length b then length a else length b) = m"
    by (simp add: m_def max_def)
  then have r: "r = r0 @ [ucast c]" and n: "n = m + (if c \<noteq> 0 then 1 else 0)"
    using assms st by (simp_all add: bigint_add_abs_limbs_def Let_def)
  show "n \<le> length r" "length r = max (length a) (length b) + 1" "max (length a) (length b) \<le> n"
    using inv r n unfolding m_def [symmetric] by simp_all
  have "unat c mod base32 = unat c"
    using inv(2) by (metis base32_pos(3) le_less_trans mod_less)
  then show "limbs_val (take n r) = limbs_val a + limbs_val b"
    using inv r n by (cases "c = 0") (simp_all add: limbs_val_snoc)
qed

text \<open>The loop of \<^verbatim>\<open>bigint_sub_abs_limbs\<close> after \<open>i\<close> iterations: limbs written, borrow.\<close>

primrec sub_limbs_loop :: "limbs \<Rightarrow> limbs \<Rightarrow> nat \<Rightarrow> limbs \<times> u64" where
  "sub_limbs_loop a b 0 = ([], 0)"
| "sub_limbs_loop a b (Suc i) =
     (case sub_limbs_loop a b i of (result, borrow) \<Rightarrow>
       let da = ucast (a ! i);
           db = ucast (limb_at b i);
           subtrahend = db + borrow
       in if da < subtrahend then (result @ [ucast (0x100000000 + da - subtrahend)], 1)
          else (result @ [ucast (da - subtrahend)], 0))"

definition bigint_sub_abs_limbs :: "limbs \<Rightarrow> limbs \<Rightarrow> limbs \<times> nat" where
  "bigint_sub_abs_limbs a b = (fst (sub_limbs_loop a b (length a)), length a)"

lemma limbs_val_take_eq:
  assumes "limbs_val b < base32 ^ n"
  shows "limbs_val (take n b) = limbs_val b"
proof (cases "n < length b")
  case True
  then have sp: "limbs_val b = limbs_val (take n b) + base32 ^ n * limbs_val (drop n b)"
    using limbs_val_split [of b n] by simp
  have "limbs_val (drop n b) = 0"
  proof (rule ccontr)
    assume "limbs_val (drop n b) \<noteq> 0"
    then have "base32 ^ n * 1 \<le> base32 ^ n * limbs_val (drop n b)"
      by (intro mult_le_mono2) simp
    with sp assms show False by linarith
  qed
  with sp show ?thesis by simp
qed simp

lemma sub_limb_step:
  fixes da db bo :: u64
  assumes "unat da < base32" "unat db < base32" "unat bo \<le> 1"
  shows "da < db + bo \<Longrightarrow>
      unat (ucast (0x100000000 + da - (db + bo)) :: u32) + unat db + unat bo = unat da + base32"
    and "\<not> da < db + bo \<Longrightarrow>
      unat (ucast (da - (db + bo)) :: u32) + unat db + unat bo = unat da"
proof -
  have small: "2 * base32 \<le> base32 * base32"
    by (simp add: base32_def)
  have "unat db + unat bo < base32 * base32"
    using assms small by linarith
  then have s: "unat (db + bo) = unat db + unat bo"
    by (rule unat_add_u64)
  have "base32 + unat da < base32 * base32"
    using assms(1) small by linarith
  then have t: "unat (0x100000000 + da) = base32 + unat da"
    using unat_add_u64 [of "0x100000000" da] by (simp only: unat_base32_u64)
  show "unat (ucast (0x100000000 + da - (db + bo)) :: u32) + unat db + unat bo = unat da + base32"
    if "da < db + bo"
  proof -
    have lt: "unat da < unat db + unat bo"
      using that s by (simp add: word_less_nat_alt)
    have "db + bo \<le> 0x100000000 + da"
      using assms s t by (simp add: word_le_nat_alt)
    then have "unat (0x100000000 + da - (db + bo)) = base32 + unat da - (unat db + unat bo)"
      using s t by (simp add: unat_sub_u64)
    with lt assms show ?thesis by simp
  qed
  show "unat (ucast (da - (db + bo)) :: u32) + unat db + unat bo = unat da"
    if "\<not> da < db + bo"
  proof -
    from that have "unat (da - (db + bo)) = unat da - (unat db + unat bo)"
      using s by (simp add: unat_sub_u64)
    moreover have "unat db + unat bo \<le> unat da"
      using that s by (simp add: word_less_nat_alt)
    ultimately show ?thesis using assms by simp
  qed
qed

lemma sub_limbs_loop_inv:
  "i \<le> length a \<Longrightarrow> sub_limbs_loop a b i = (r, c) \<Longrightarrow>
   length r = i \<and> unat c \<le> 1 \<and>
   limbs_val r + limbs_val (take i b) = limbs_val (take i a) + base32 ^ i * unat c"
proof (induction i arbitrary: r c)
  case 0
  then show ?case by simp
next
  case (Suc i)
  obtain r0 c0 where st: "sub_limbs_loop a b i = (r0, c0)"
    by (cases "sub_limbs_loop a b i")
  have len: "length r0 = i" and c0: "unat c0 \<le> 1"
    and val: "limbs_val r0 + limbs_val (take i b) = limbs_val (take i a) + base32 ^ i * unat c0"
    using Suc.IH [OF _ st] Suc.prems(1) by simp_all
  define x :: u32 where "x = last r"
  have r: "r = r0 @ [x]" and c: "unat c \<le> 1"
    and step: "unat x + unat (limb_at b i) + unat c0 = unat (a ! i) + base32 * unat c"
    using Suc.prems(2) st c0 sub_limb_step [of "ucast (a ! i)" "ucast (limb_at b i)" c0]
    by (auto simp: Let_def x_def unat_u32_bound split: if_splits)
  have ai: "limb_at a i = a ! i"
    using Suc.prems(1) by (simp add: limb_at_def)
  have "base32 ^ i * unat x + base32 ^ i * unat (limb_at b i) + base32 ^ i * unat c0
      = base32 ^ i * unat (a ! i) + base32 ^ Suc i * unat c"
    using arg_cong [OF step, of "\<lambda>t. base32 ^ i * t"] by (simp add: algebra_simps)
  with val len r c ai show ?case
    by (simp add: limbs_val_snoc limbs_val_take_Suc)
qed

lemma bigint_sub_abs_limbs_val:
  assumes "bigint_sub_abs_limbs a b = (r, n)" and "limbs_val b \<le> limbs_val a"
  shows "limbs_val (take n r) = limbs_val a - limbs_val b"
    and "n = length a" and "length r = length a"
proof -
  obtain c where st: "sub_limbs_loop a b (length a) = (r, c)" and n: "n = length a"
    using assms(1) by (cases "sub_limbs_loop a b (length a)") (simp add: bigint_sub_abs_limbs_def)
  have inv: "length r = length a"
      "limbs_val r + limbs_val (take (length a) b) = limbs_val a + base32 ^ length a * unat c"
    using sub_limbs_loop_inv [OF _ st] by simp_all
  have b: "limbs_val (take (length a) b) = limbs_val b"
    using assms(2) limbs_val_bound [of a] by (intro limbs_val_take_eq) simp
  have "limbs_val r < base32 ^ length a"
    using limbs_val_bound [of r] inv(1) by simp
  then have "unat c = 0"
  proof -
    have False if "unat c \<noteq> 0"
    proof -
      have "base32 ^ length a * 1 \<le> base32 ^ length a * unat c"
        using that by (intro mult_le_mono2) simp
      with inv b assms(2) \<open>limbs_val r < base32 ^ length a\<close> show False by linarith
    qed
    then show ?thesis by blast
  qed
  with inv b n show "limbs_val (take n r) = limbs_val a - limbs_val b"
    "n = length a" "length r = length a"
    by simp_all
qed

text \<open>
  \<^verbatim>\<open>bigint_add_u32_inplace\<close>: ripple a carry through the first \<open>count\<close> limbs; a carry out
  of the top is stored only when the buffer has room.
\<close>

function add_u32_loop :: "limbs \<Rightarrow> nat \<Rightarrow> nat \<Rightarrow> u64 \<Rightarrow> limbs \<times> u64" where
  "add_u32_loop result count i carry =
     (if carry \<noteq> 0 \<and> i < count then
        (let sum = ucast (result ! i) + carry
         in add_u32_loop (result[i := ucast sum]) count (i + 1) (drop_bit 32 sum))
      else (result, carry))"
  by pat_completeness auto
termination
  by (relation "measure (\<lambda>(r, n, i, c). n - i)") auto

declare add_u32_loop.simps [simp del]

definition bigint_add_u32_inplace :: "limbs \<Rightarrow> nat \<Rightarrow> nat \<Rightarrow> u32 \<Rightarrow> limbs \<times> nat" where
  "bigint_add_u32_inplace result count capacity value =
     (case add_u32_loop result count 0 (ucast value) of (result, carry) \<Rightarrow>
        (case (if carry \<noteq> 0 \<and> count < capacity
               then (take count result @ ucast carry # drop (count + 1) result, count + 1)
               else (result, count)) of
           (result, count) \<Rightarrow> (result, bigint_normalize_limbs result count)))"

lemma limbs_val_update:
  "k < length r \<Longrightarrow>
   limbs_val (r[k := x]) + base32 ^ k * unat (r ! k) = limbs_val r + base32 ^ k * unat x"
proof (induction r arbitrary: k)
  case Nil
  then show ?case by simp
next
  case (Cons y r)
  show ?case
  proof (cases k)
    case 0
    then show ?thesis by simp
  next
    case (Suc j)
    then have "base32 * (limbs_val (r[j := x]) + base32 ^ j * unat (r ! j))
        = base32 * (limbs_val r + base32 ^ j * unat x)"
      using Cons by simp
    with Suc show ?thesis by (simp add: algebra_simps)
  qed
qed

lemma carry_split:
  "base32 ^ i * n = base32 ^ i * (n mod base32) + base32 ^ Suc i * (n div base32)"
  by (metis add.commute add_mult_distrib2 div_mult_mod_eq mult.assoc mult.commute power_Suc)

lemma add_u32_loop_inv:
  "add_u32_loop r n i c = (r', c') \<Longrightarrow> i \<le> n \<Longrightarrow> n \<le> length r \<Longrightarrow> unat c < base32 \<Longrightarrow>
   length r' = length r \<and> unat c' < base32 \<and>
   limbs_val (take n r') + base32 ^ n * unat c' = limbs_val (take n r) + base32 ^ i * unat c"
proof (induction r n i c arbitrary: r' c' rule: add_u32_loop.induct)
  case (1 r n i c)
  show ?case
  proof (cases "c \<noteq> 0 \<and> i < n")
    case True
    define s :: u64 where "s = ucast (r ! i) + c"
    have "2 * base32 \<le> base32 * base32"
      by (simp add: base32_def)
    then have "unat (r ! i) + unat c < base32 * base32"
      using "1.prems"(4) unat_u32_bound [of "r ! i"] by linarith
    then have s: "unat s = unat (r ! i) + unat c"
      unfolding s_def by (simp add: unat_add_u64)
    have "unat s < 2 * base32"
      using s "1.prems"(4) unat_u32_bound [of "r ! i"] by linarith
    then have d: "unat s div base32 < base32"
      using less_mult_imp_div_less [of "unat s" 2 base32] by (simp add: base32_def)
    have rec: "add_u32_loop (r[i := ucast s]) n (i + 1) (drop_bit 32 s) = (r', c')"
      using "1.prems"(1) True by (subst (asm) add_u32_loop.simps) (simp add: s_def Let_def)
    have IH: "length r' = length r" "unat c' < base32"
      "limbs_val (take n r') + base32 ^ n * unat c'
         = limbs_val (take n (r[i := ucast s])) + base32 ^ Suc i * (unat s div base32)"
      using "1.IH" [OF True s_def rec] True "1.prems" d by simp_all
    have "limbs_val (take n (r[i := ucast s])) + base32 ^ i * unat (r ! i)
        = limbs_val (take n r) + base32 ^ i * (unat s mod base32)"
      using limbs_val_update [of i "take n r" "ucast s"] True "1.prems"
      by (simp add: take_update_swap)
    with IH s carry_split [of i "unat s"] show ?thesis
      by (simp add: algebra_simps)
  next
    case False
    then have "r' = r" "c' = c"
      using "1.prems"(1) by (subst (asm) add_u32_loop.simps, simp)+
    moreover from False "1.prems"(2) have "c = 0 \<or> i = n" by auto
    ultimately show ?thesis using "1.prems" by auto
  qed
qed

lemma bigint_add_u32_inplace_length:
  assumes "bigint_add_u32_inplace r n cap v = (r', n')" "n \<le> length r"
  shows "length r' \<le> max (length r) (n + 1)"
proof -
  obtain r1 c where st: "add_u32_loop r n 0 (ucast v) = (r1, c)"
    by (cases "add_u32_loop r n 0 (ucast v)")
  have "length r1 = length r"
    using add_u32_loop_inv [OF st] assms(2) by (simp add: unat_u32_bound)
  with assms st show ?thesis
    by (auto simp: bigint_add_u32_inplace_def split: if_splits)
qed

lemma bigint_add_u32_inplace_val:
  assumes "bigint_add_u32_inplace r n cap v = (r', n')"
    and "0 < n" "n \<le> length r" "n < cap"
  shows "limbs_val (take n' r') = limbs_val (take n r) + unat v"
    and "limbs_norm (take n' r')" and "n' \<le> length r'" and "0 < n'"
proof -
  obtain r1 c where st: "add_u32_loop r n 0 (ucast v) = (r1, c)"
    by (cases "add_u32_loop r n 0 (ucast v)")
  have inv: "length r1 = length r" "unat c < base32"
      "limbs_val (take n r1) + base32 ^ n * unat c = limbs_val (take n r) + unat v"
    using add_u32_loop_inv [OF st] assms(3) by (simp_all add: unat_u32_bound)
  define r2 where "r2 = (if c \<noteq> 0 then take n r1 @ ucast c # drop (n + 1) r1 else r1)"
  define m where "m = (if c \<noteq> 0 then n + 1 else n)"
  have res: "r' = r2" "n' = bigint_normalize_limbs r2 m"
    using assms(1,4) st by (auto simp: bigint_add_u32_inplace_def r2_def m_def split: if_splits)
  have m: "0 < m" "m \<le> length r2"
    using assms(2,3) inv(1) by (auto simp: m_def r2_def)
  have "limbs_val (take m r2) = limbs_val (take n r) + unat v"
    using inv assms(3) by (auto simp: m_def r2_def limbs_val_append)
  with m res show "limbs_val (take n' r') = limbs_val (take n r) + unat v"
    by (simp add: normalize_val)
  show "limbs_norm (take n' r')"
    using m res by (simp add: limbs_norm_take_normalize)
  show "n' \<le> length r'" "0 < n'"
    using m res normalize_le [of r2 m] normalize_pos [of m r2] by simp_all
qed

section \<open>Multiplication\<close>

text \<open>
  The inner loop of \<^verbatim>\<open>bigint_mul_abs_limbs\<close> after \<open>j\<close> iterations, for the limb \<open>ai\<close> of the
  left operand at position \<open>i\<close>: the result array and the carry.
\<close>

primrec mul_row_loop :: "u32 \<Rightarrow> limbs \<Rightarrow> nat \<Rightarrow> limbs \<Rightarrow> nat \<Rightarrow> limbs \<times> u64" where
  "mul_row_loop ai b i result 0 = (result, 0)"
| "mul_row_loop ai b i result (Suc j) =
     (case mul_row_loop ai b i result j of (result, carry) \<Rightarrow>
       let prod = ucast ai * ucast (b ! j);
           lo = ucast (result ! (i + j)) + (prod AND 0xFFFFFFFF) + (carry AND 0xFFFFFFFF)
       in (result[i + j := ucast lo], drop_bit 32 prod + drop_bit 32 carry + drop_bit 32 lo))"

text \<open>
  The propagation loop \<^verbatim>\<open>while (carry != 0)\<close>. The source has no bound on \<open>k\<close>: a write past
  the buffer is \<open>None\<close>.
\<close>

function mul_carry_loop :: "limbs \<Rightarrow> nat \<Rightarrow> u64 \<Rightarrow> limbs option" where
  "mul_carry_loop result k carry =
     (if carry = 0 then Some result
      else if k < length result then
        (let cur = ucast (result ! k) + (carry AND 0xFFFFFFFF)
         in mul_carry_loop (result[k := ucast cur]) (k + 1) (drop_bit 32 carry + drop_bit 32 cur))
      else None)"
  by pat_completeness auto
termination
  by (relation "measure (\<lambda>(r, k, c). length r - k)") auto

declare mul_carry_loop.simps [simp del]

text \<open>The outer loop after \<open>i\<close> rows.\<close>

primrec mul_limbs_loop :: "limbs \<Rightarrow> limbs \<Rightarrow> limbs \<Rightarrow> nat \<Rightarrow> limbs option" where
  "mul_limbs_loop a b result 0 = Some result"
| "mul_limbs_loop a b result (Suc i) =
     (case mul_limbs_loop a b result i of
        None \<Rightarrow> None
      | Some result \<Rightarrow>
          (case mul_row_loop (a ! i) b i result (length b) of
             (result, carry) \<Rightarrow> mul_carry_loop result (i + length b) carry))"

definition bigint_mul_abs_limbs :: "limbs \<Rightarrow> limbs \<Rightarrow> (limbs \<times> nat) option" where
  "bigint_mul_abs_limbs a b =
     (if length a = 1 \<and> length b = 1 then
        (let product = (ucast (a ! 0) :: u64) * ucast (b ! 0);
             result = [ucast product, ucast (drop_bit 32 product)]
         in Some (result, if result ! 1 = 0 then 1 else 2))
      else
        (let capacity = length a + length b + 1
         in case mul_limbs_loop a b (replicate capacity 0) (length a) of
              None \<Rightarrow> None
            | Some result \<Rightarrow> Some (result, capacity)))"

lemma limb_product_bound:
  assumes "x < base32" "y < base32" "u < base32" "v < base32"
  shows "x * y + u + v < base32 * base32"
proof -
  have "x * y \<le> (base32 - 1) * (base32 - 1)"
    using assms by (intro mult_le_mono) linarith+
  moreover have "(base32 - 1) * (base32 - 1) + (base32 - 1) + (base32 - 1) < base32 * base32"
    by (simp add: base32_def)
  ultimately show ?thesis using assms by linarith
qed

lemma mul_step:
  fixes x y u :: u32 and c :: u64
  assumes "unat c < base32"
  defines "pr \<equiv> (ucast x :: u64) * ucast y"
  defines "lo \<equiv> ucast u + (pr AND 0xFFFFFFFF) + (c AND 0xFFFFFFFF)"
  defines "c' \<equiv> drop_bit 32 pr + drop_bit 32 c + drop_bit 32 lo"
  shows "unat (ucast lo :: u32) + base32 * unat c' = unat u + unat x * unat y + unat c"
    and "unat c' < base32"
proof -
  have bnd: "unat x * unat y + unat u + unat c < base32 * base32"
    using limb_product_bound assms(1) by (simp add: unat_u32_bound)
  then have pr: "unat pr = unat x * unat y"
    unfolding pr_def by (subst unat_mult_u64) simp_all
  have three: "3 * base32 \<le> base32 * base32"
    by (simp add: base32_def)
  have cm: "unat c mod base32 = unat c" "unat c div base32 = 0"
    using assms(1) by simp_all
  have "unat u + unat pr mod base32 + unat c < base32 * base32"
    using assms(1) unat_u32_bound [of u] mod_less_divisor [OF base32_pos(1), of "unat pr"] three
    by linarith
  then have lo: "unat lo = unat u + unat pr mod base32 + unat c"
    unfolding lo_def by (subst unat_add3_u64) (simp_all add: cm)
  let ?t = "unat u + unat x * unat y + unat c"
  have eq: "unat lo + base32 * (unat pr div base32) = ?t"
    using lo pr div_mult_mod_eq [of "unat pr" base32] by (simp add: algebra_simps)
  have dv: "unat pr div base32 + unat lo div base32 = ?t div base32"
    unfolding eq [symmetric] by simp
  have t: "?t div base32 < base32"
    using bnd by (intro less_mult_imp_div_less) simp
  have c': "unat c' = ?t div base32"
  proof -
    have "unat pr div base32 + 0 + unat lo div base32 < base32 * base32"
      using dv t three by linarith
    then show ?thesis
      unfolding c'_def using dv cm by (subst unat_add3_u64) simp_all
  qed
  with t show "unat c' < base32" by simp
  have "unat lo mod base32 = ?t mod base32"
    unfolding eq [symmetric] by simp
  then show "unat (ucast lo :: u32) + base32 * unat c' = ?t"
    using c' by simp
qed

lemma mul_row_loop_inv:
  assumes "j \<le> length b" "i + length b \<le> length r0"
    and "mul_row_loop x b i r0 j = (r, c)"
  shows "length r = length r0 \<and> unat c < base32 \<and>
     limbs_val r + base32 ^ (i + j) * unat c
       = limbs_val r0 + base32 ^ i * (unat x * limbs_val (take j b)) \<and>
     (\<forall>k. i + j \<le> k \<longrightarrow> r ! k = r0 ! k)"
  using assms(1,3)
proof (induction j arbitrary: r c)
  case 0
  then show ?case by simp
next
  case (Suc j)
  obtain r1 c1 where st: "mul_row_loop x b i r0 j = (r1, c1)"
    by (cases "mul_row_loop x b i r0 j")
  have IH: "length r1 = length r0" "unat c1 < base32"
      "limbs_val r1 + base32 ^ (i + j) * unat c1
         = limbs_val r0 + base32 ^ i * (unat x * limbs_val (take j b))"
      "\<forall>k. i + j \<le> k \<longrightarrow> r1 ! k = r0 ! k"
    using Suc.IH [OF _ st] Suc.prems(1) by simp_all
  define y where "y = b ! j"
  have nx: "j < length b" "i + j < length r1"
    using Suc.prems(1) assms(2) IH(1) by simp_all
  define p lo where "p = (ucast x :: u64) * ucast y"
    and "lo = ucast (r1 ! (i + j)) + (p AND 0xFFFFFFFF) + (c1 AND 0xFFFFFFFF)"
  define l :: u32 where "l = ucast lo"
  have r: "r = r1[i + j := l]" and c_eq: "c = drop_bit 32 p + drop_bit 32 c1 + drop_bit 32 lo"
    using Suc.prems(2) st by (auto simp: Let_def y_def p_def lo_def l_def)
  have c: "unat c < base32"
    and step: "unat l + base32 * unat c = unat (r1 ! (i + j)) + unat x * unat y + unat c1"
    unfolding c_eq l_def lo_def p_def
    by (rule mul_step [OF IH(2)])+
  have upd: "limbs_val r + base32 ^ (i + j) * unat (r1 ! (i + j))
      = limbs_val r1 + base32 ^ (i + j) * unat l"
    unfolding r using nx(2) by (rule limbs_val_update)
  have tk: "limbs_val (take (Suc j) b) = limbs_val (take j b) + base32 ^ j * unat y"
    using nx(1) by (simp add: limbs_val_take_Suc limb_at_def y_def)
  have "base32 ^ (i + j) * unat l + base32 ^ (i + Suc j) * unat c
      = base32 ^ (i + j) * unat (r1 ! (i + j)) + base32 ^ (i + j) * (unat x * unat y)
        + base32 ^ (i + j) * unat c1"
    using arg_cong [OF step, of "\<lambda>t. base32 ^ (i + j) * t"] by (simp add: algebra_simps)
  then have "limbs_val r + base32 ^ (i + Suc j) * unat c
      = limbs_val r0 + base32 ^ i * (unat x * limbs_val (take (Suc j) b))"
    using upd IH(3) tk by (simp add: algebra_simps power_add)
  with IH r c show ?case by simp
qed

text \<open>A value below \<open>base32 ^ n\<close> has only zero limbs from position \<open>n\<close> on.\<close>

lemma limb_zero_above:
  assumes "limbs_val r < base32 ^ n" "n \<le> k" "k < length r"
  shows "r ! k = 0"
proof -
  have "limbs_val r = limbs_val (take n r) + base32 ^ n * limbs_val (drop n r)"
    using limbs_val_split [of r n] assms(2,3) by simp
  moreover have "limbs_val (take n r) = limbs_val r"
    using assms(1) by (rule limbs_val_take_eq)
  ultimately have "limbs_val (drop n r) = 0" by simp
  moreover have "r ! k \<in> set (drop n r)"
    using assms(2,3) nth_mem [of "k - n" "drop n r"] by simp
  ultimately show ?thesis
    by (auto simp: limbs_val_eq_0_iff)
qed

lemma mul_carry_loop_zero:
  assumes "k < length r" "r ! k = 0" "unat c < base32"
  shows "mul_carry_loop r k c = Some (if c = 0 then r else r[k := ucast c])"
proof (cases "c = 0")
  case True
  then show ?thesis by (simp add: mul_carry_loop.simps)
next
  case False
  have low: "c AND 0xFFFFFFFF = c" and high: "drop_bit 32 c = 0"
    using assms(3) by (simp_all add: word_unat_eq_iff del: drop_bit_eq_div)
  show ?thesis
    using assms(1,2) False
    by (simp add: mul_carry_loop.simps [of r k c] low high Let_def mul_carry_loop.simps [of _ _ 0])
qed

lemma mul_limbs_loop_inv:
  assumes "i \<le> length a" "cap = length a + length b + 1"
  shows "\<exists>r. mul_limbs_loop a b (replicate cap 0) i = Some r \<and> length r = cap \<and>
     limbs_val r = limbs_val (take i a) * limbs_val b"
  using assms(1)
proof (induction i)
  case 0
  then show ?case by simp
next
  case (Suc i)
  then obtain r0 where st: "mul_limbs_loop a b (replicate cap 0) i = Some r0"
    and len: "length r0 = cap" and val: "limbs_val r0 = limbs_val (take i a) * limbs_val b"
    by auto
  obtain r c where row: "mul_row_loop (a ! i) b i r0 (length b) = (r, c)"
    by (cases "mul_row_loop (a ! i) b i r0 (length b)")
  let ?k = "i + length b"
  have inv: "length r = cap" "unat c < base32"
      "limbs_val r + base32 ^ ?k * unat c = limbs_val r0 + base32 ^ i * (unat (a ! i) * limbs_val b)"
      "r ! ?k = r0 ! ?k"
    using mul_row_loop_inv [OF _ _ row] Suc.prems assms(2) len by simp_all
  have k: "?k < length r0"
    using Suc.prems assms(2) len by simp
  have "limbs_val (take i a) < base32 ^ i"
    using limbs_val_bound [of "take i a"] Suc.prems by (simp add: min_def)
  then have "limbs_val r0 < base32 ^ ?k"
    using val limbs_val_bound [of b] by (simp add: power_add mult_strict_mono')
  then have zero: "r ! ?k = 0"
    using limb_zero_above [of r0 ?k ?k] k inv(4) by simp
  have out: "mul_carry_loop r ?k c = Some (if c = 0 then r else r[?k := ucast c])"
    using k inv(1,2) len zero by (intro mul_carry_loop_zero) simp_all
  have "limbs_val (if c = 0 then r else r[?k := ucast c]) = limbs_val r + base32 ^ ?k * unat c"
    using limbs_val_update [of ?k r "ucast c"] k len inv(1,2) zero by simp
  also have "\<dots> = limbs_val (take (Suc i) a) * limbs_val b"
    using inv(3) val Suc.prems
    by (simp add: limbs_val_take_Suc limb_at_def algebra_simps)
  finally show ?case
    using st row out inv(1) by simp
qed

theorem bigint_mul_abs_limbs_val:
  "\<exists>r n. bigint_mul_abs_limbs a b = Some (r, n) \<and> n \<le> length r \<and>
     length r \<le> length a + length b + 1 \<and> (a \<noteq> [] \<longrightarrow> b \<noteq> [] \<longrightarrow> 0 < n) \<and>
     limbs_val (take n r) = limbs_val a * limbs_val b"
proof (cases "length a = 1 \<and> length b = 1")
  case True
  then obtain x y where ab: "a = [x]" "b = [y]"
    by (metis One_nat_def length_0_conv length_Suc_conv)
  define p :: u64 where "p = ucast x * ucast y"
  have "unat x * unat y < base32 * base32"
    using limb_product_bound [of "unat x" "unat y" 0 0] by (simp add: unat_u32_bound)
  then have p: "unat p = unat x * unat y"
    unfolding p_def by (subst unat_mult_u64) simp_all
  have "unat p div base32 < base32"
    using unat_u64_bound [of p] by (rule less_mult_imp_div_less)
  define h :: u32 where "h = ucast (drop_bit 32 p)"
  have h: "unat h = unat p div base32"
    using \<open>unat p div base32 < base32\<close> by (simp add: h_def)
  have "limbs_val [ucast p, h] = unat x * unat y"
    using p h div_mult_mod_eq [of "unat p" base32] by (simp add: algebra_simps)
  moreover have "bigint_mul_abs_limbs a b = Some ([ucast p, h], if h = 0 then 1 else 2)"
    using ab by (simp add: bigint_mul_abs_limbs_def Let_def p_def h_def)
  ultimately show ?thesis
    using ab by (cases "h = 0") (simp_all del: unat_ucast_u64_u32)
next
  case False
  then show ?thesis
    using mul_limbs_loop_inv [OF order_refl refl, of a b]
    by (auto simp: bigint_mul_abs_limbs_def Let_def)
qed

end
