(* ===== verification/Bigint_Shift.thy ===== *)
theory Bigint_Shift
  imports Bigint_Limbs
begin

unbundle bit_operations_syntax

text \<open>
  The remaining magnitude routines of \<^verbatim>\<open>src/modules/bigint.c\<close>: shifts, division by one
  limb, bit length, and the two's complement views used by the bitwise operators.
\<close>

section \<open>Splitting a value at a limb boundary\<close>

lemma limbs_val_less: "length xs \<le> n \<Longrightarrow> limbs_val xs < base32 ^ n"
  using limbs_val_bound [of xs] power_increasing [of "length xs" n base32]
  by (simp add: less_le_trans)

lemma limbs_val_div: "limbs_val (drop n xs) = limbs_val xs div base32 ^ n"
proof (cases "n < length xs")
  case True
  have "limbs_val (take n xs) < base32 ^ n"
    using limbs_val_bound [of "take n xs"] True by simp
  moreover have "limbs_val xs = limbs_val (take n xs) + base32 ^ n * limbs_val (drop n xs)"
    using limbs_val_split [of xs n] True by simp
  ultimately show ?thesis by simp
next
  case False
  then have "limbs_val xs < base32 ^ n"
    by (intro limbs_val_less) simp
  with False show ?thesis by simp
qed

lemma limbs_val_mod: "limbs_val (take n xs) = limbs_val xs mod base32 ^ n"
proof (cases "n < length xs")
  case True
  have "limbs_val (take n xs) < base32 ^ n"
    using limbs_val_bound [of "take n xs"] True by simp
  moreover have "limbs_val xs = limbs_val (take n xs) + base32 ^ n * limbs_val (drop n xs)"
    using limbs_val_split [of xs n] True by simp
  ultimately show ?thesis by simp
next
  case False
  then have "limbs_val xs < base32 ^ n"
    by (intro limbs_val_less) simp
  with False show ?thesis by simp
qed

lemma limbs_val_top:
  assumes "0 < length xs"
  shows "limbs_val xs = limbs_val (take (length xs - 1) xs) + base32 ^ (length xs - 1) * unat (xs ! (length xs - 1))"
proof -
  have "length xs - 1 < length xs" "Suc (length xs - 1) = length xs" using assms by simp_all
  then show ?thesis using limbs_val_take_Suc [of "length xs - 1" xs] by (simp add: limb_at_def)
qed

lemma base32_power: "base32 ^ n = 2 ^ (32 * n)"
  by (simp add: base32_def power_mult)

lemma base32_split: "s \<le> 32 \<Longrightarrow> base32 = 2 ^ s * 2 ^ (32 - s)"
  by (simp add: base32_def flip: power_add)

section \<open>Left shift\<close>

text \<open>A shift count split as \<^verbatim>\<open>shift >> 5\<close> and \<^verbatim>\<open>shift & 31\<close>.\<close>

definition shift_limbs :: "u64 \<Rightarrow> nat" where
  "shift_limbs shift = unat (drop_bit 5 shift)"

definition shift_bits :: "u64 \<Rightarrow> nat" where
  "shift_bits shift = unat (shift AND 31)"

lemma shift_bits_less: "shift_bits s < 32"
  and shift_decompose: "unat s = 32 * shift_limbs s + shift_bits s"
proof -
  have b: "shift_bits s = unat s mod 32"
    using unat_mask_and [of s 5] by (simp add: shift_bits_def mask_eq_exp_minus_1)
  then show "shift_bits s < 32" by simp
  show "unat s = 32 * shift_limbs s + shift_bits s"
    by (simp add: b shift_limbs_def unat_drop_bit_u64)
qed

primrec shl_limbs_loop :: "limbs \<Rightarrow> nat \<Rightarrow> nat \<Rightarrow> limbs \<times> u32" where
  "shl_limbs_loop limbs bit_shift 0 = ([], 0)"
| "shl_limbs_loop limbs bit_shift (Suc i) =
     (case shl_limbs_loop limbs bit_shift i of (out, carry) \<Rightarrow>
       let cur = push_bit bit_shift (ucast (limbs ! i) :: u64) OR ucast carry
       in (out @ [ucast cur], ucast (drop_bit 32 cur)))"

definition bigint_shift_left_abs :: "limbs \<Rightarrow> u64 \<Rightarrow> limbs \<times> nat" where
  "bigint_shift_left_abs limbs shift =
     (let limb_shift = shift_limbs shift;
          bit_shift = shift_bits shift;
          count = length limbs
      in if bit_shift = 0 then
           (let out = replicate limb_shift 0 @ limbs @ [0]
            in (out, bigint_normalize_limbs out (count + limb_shift)))
         else
           (case shl_limbs_loop limbs bit_shift count of (res, carry) \<Rightarrow>
             let out = replicate limb_shift 0 @ res @ [carry]
             in (out, bigint_normalize_limbs out (count + limb_shift + 1))))"

lemma shl_step:
  fixes x c :: u32
  assumes "s < 32" "unat c < 2 ^ s"
  defines "cur \<equiv> push_bit s (ucast x :: u64) OR ucast c"
  shows "unat cur = unat x * 2 ^ s + unat c"
    and "unat (ucast (drop_bit 32 cur) :: u32) = unat cur div base32"
    and "unat cur div base32 < 2 ^ s"
proof -
  have B: "base32 * 2 ^ s \<le> 2 ^ 64"
    using power_increasing [of "32 + s" 64 "2 :: nat"] assms(1) by (simp add: base32_def power_add)
  have "unat x * 2 ^ s < base32 * 2 ^ s"
    using unat_u32_bound [of x] by simp
  with B have x: "unat x * 2 ^ s < 2 ^ 64" by linarith
  then show cur: "unat cur = unat x * 2 ^ s + unat c"
    unfolding cur_def using assms(2) by (subst unat_push_or) simp_all
  have "unat cur < 2 ^ s * base32"
  proof -
    have "unat cur < Suc (unat x) * 2 ^ s"
      using cur assms(2) by simp
    also have "\<dots> \<le> base32 * 2 ^ s"
      using unat_u32_bound [of x] by (intro mult_le_mono1) simp
    finally show ?thesis by (simp add: mult.commute)
  qed
  then show lt: "unat cur div base32 < 2 ^ s"
    by (rule less_mult_imp_div_less)
  moreover have "2 ^ s \<le> base32"
    using power_increasing [of s 32 "2 :: nat"] assms(1) by (simp add: base32_def)
  ultimately show "unat (ucast (drop_bit 32 cur) :: u32) = unat cur div base32"
    by simp
qed

lemma shl_limbs_loop_inv:
  assumes "s < 32"
  shows "i \<le> length xs \<Longrightarrow> shl_limbs_loop xs s i = (r, c) \<Longrightarrow>
   length r = i \<and> unat c < 2 ^ s \<and>
   limbs_val r + base32 ^ i * unat c = limbs_val (take i xs) * 2 ^ s"
proof (induction i arbitrary: r c)
  case 0
  then show ?case by simp
next
  case (Suc i)
  obtain r0 c0 where st: "shl_limbs_loop xs s i = (r0, c0)"
    by (cases "shl_limbs_loop xs s i")
  have len: "length r0 = i" and c0: "unat c0 < 2 ^ s"
    and val: "limbs_val r0 + base32 ^ i * unat c0 = limbs_val (take i xs) * 2 ^ s"
    using Suc.IH [OF _ st] Suc.prems(1) by simp_all
  define cur where "cur = push_bit s (ucast (xs ! i) :: u64) OR ucast c0"
  note step = shl_step [OF assms c0, of "xs ! i", folded cur_def]
  have r: "r = r0 @ [ucast cur]" and c: "c = ucast (drop_bit 32 cur)"
    using Suc.prems(2) st by (auto simp: Let_def cur_def)
  have c_val: "unat c = unat cur div base32"
    unfolding c by (rule step(2))
  have "base32 ^ i * (unat cur mod base32) + base32 ^ Suc i * unat c
      = base32 ^ i * (unat (xs ! i) * 2 ^ s) + base32 ^ i * unat c0"
    using carry_split [of i "unat cur"] step(1) c_val by (simp add: algebra_simps)
  then have "limbs_val r + base32 ^ Suc i * unat c = limbs_val (take (Suc i) xs) * 2 ^ s"
    using val len Suc.prems(1)
    by (simp add: r limbs_val_snoc limbs_val_take_Suc limb_at_def algebra_simps)
  with len r c_val step(3) show ?case by simp
qed

lemma bigint_shift_left_abs_val:
  assumes "bigint_shift_left_abs xs s = (r, n)" "xs \<noteq> []"
  shows "limbs_val (take n r) = limbs_val xs * 2 ^ unat s"
    and "limbs_norm (take n r)" and "n \<le> length r" and "0 < n"
    and "length r = length xs + shift_limbs s + 1"
proof -
  let ?ls = "shift_limbs s" and ?bs = "shift_bits s"
  define m where "m = length xs + ?ls + (if ?bs = 0 then 0 else 1)"
  have pow: "base32 ^ ?ls * 2 ^ ?bs = 2 ^ unat s"
    by (simp add: shift_decompose [of s] base32_power power_add)
  have main: "limbs_val (take m r) = limbs_val xs * 2 ^ unat s \<and> n = bigint_normalize_limbs r m
      \<and> length r = length xs + ?ls + 1"
  proof (cases "?bs = 0")
    case True
    then show ?thesis
      using assms(1) pow
      by (auto simp: bigint_shift_left_abs_def Let_def m_def limbs_val_append)
  next
    case False
    obtain res c where st: "shl_limbs_loop xs ?bs (length xs) = (res, c)"
      by (cases "shl_limbs_loop xs ?bs (length xs)")
    have inv: "length res = length xs"
        "limbs_val res + base32 ^ length xs * unat c = limbs_val xs * 2 ^ ?bs"
      using shl_limbs_loop_inv [OF shift_bits_less order_refl st] by simp_all
    have r: "r = replicate ?ls 0 @ res @ [c]"
      and n: "n = bigint_normalize_limbs r (length xs + ?ls + 1)"
      using assms(1) st False by (auto simp: bigint_shift_left_abs_def Let_def)
    have "limbs_val r = base32 ^ ?ls * (limbs_val xs * 2 ^ ?bs)"
      using inv by (simp add: r limbs_val_append)
    with pow have "limbs_val r = limbs_val xs * 2 ^ unat s"
      by (simp add: algebra_simps)
    with r n inv(1) False show ?thesis by (simp add: m_def)
  qed
  have m: "0 < m" "m \<le> length r"
    using main assms(2) by (simp_all add: m_def)
  show "limbs_val (take n r) = limbs_val xs * 2 ^ unat s"
    using main m by (simp add: normalize_val)
  show "limbs_norm (take n r)"
    using main m by (simp add: limbs_norm_take_normalize)
  show "n \<le> length r" "0 < n"
    using main m normalize_le [of r m] normalize_pos [of m r] by simp_all
  show "length r = length xs + ?ls + 1"
    using main by simp
qed

section \<open>Right shift\<close>

text \<open>The loop runs from the most significant limb down; after \<open>n\<close> iterations.\<close>

primrec shr_limbs_loop :: "limbs \<Rightarrow> nat \<Rightarrow> nat \<Rightarrow> limbs \<times> u32" where
  "shr_limbs_loop limbs bit_shift 0 = ([], 0)"
| "shr_limbs_loop limbs bit_shift (Suc n) =
     (case shr_limbs_loop limbs bit_shift n of (out, carry) \<Rightarrow>
       let cur = limbs ! (length limbs - 1 - n)
       in ((drop_bit bit_shift cur OR push_bit (32 - bit_shift) carry) # out,
           cur AND (push_bit bit_shift 1 - 1)))"

definition bigint_shift_right_abs :: "limbs \<Rightarrow> u64 \<Rightarrow> limbs \<times> nat \<times> bool" where
  "bigint_shift_right_abs limbs shift =
     (let limb_shift = shift_limbs shift;
          bit_shift = shift_bits shift;
          count = length limbs
      in if limb_shift \<ge> count then ([0], 1, list_ex (\<lambda>x. x \<noteq> 0) limbs)
         else
           (let lost = list_ex (\<lambda>x. x \<noteq> 0) (take limb_shift limbs);
                out_count = count - limb_shift;
                out = (if bit_shift = 0 then drop limb_shift limbs
                       else fst (shr_limbs_loop limbs bit_shift out_count));
                lost = (lost \<or> (bit_shift \<noteq> 0 \<and>
                   limbs ! limb_shift AND (push_bit bit_shift 1 - 1) \<noteq> 0))
            in (out, bigint_normalize_limbs out out_count, lost)))"

lemma shr_mask: "s < 32 \<Longrightarrow> unat ((x :: u32) AND (push_bit s 1 - 1)) = unat x mod 2 ^ s"
  using unat_mask_and [of x s] by (simp add: mask_eq_exp_minus_1 push_bit_eq_mult)

lemma shr_step:
  fixes x c :: u32
  assumes "0 < s" "s < 32" "unat c < 2 ^ s"
  shows "unat (drop_bit s x OR push_bit (32 - s) c) = unat x div 2 ^ s + unat c * 2 ^ (32 - s)"
proof -
  have "unat c * 2 ^ (32 - s) < 2 ^ s * 2 ^ (32 - s)"
    using assms(3) by simp
  also have "\<dots> = (2 :: nat) ^ 32"
    using assms(2) by (simp flip: power_add)
  finally have 1: "unat c * 2 ^ (32 - s) < 2 ^ LENGTH(32)" by simp
  have "unat x < 2 ^ (32 - s) * 2 ^ s"
    using unat_u32_bound [of x] base32_split [of s] assms(2) by (simp add: mult.commute)
  then have 2: "unat (drop_bit s x) < 2 ^ (32 - s)"
    by (simp add: unat_drop_bit_u32 less_mult_imp_div_less)
  show ?thesis
    using unat_push_or [OF 1 2] by (simp add: or.commute unat_drop_bit_u32)
qed

lemma shr_limbs_loop_inv:
  assumes "0 < s" "s < 32"
  shows "n \<le> length xs \<Longrightarrow> shr_limbs_loop xs s n = (r, c) \<Longrightarrow>
   length r = n \<and> limbs_val r = limbs_val (drop (length xs - n) xs) div 2 ^ s \<and>
   unat c = limbs_val (drop (length xs - n) xs) mod 2 ^ s"
proof (induction n arbitrary: r c)
  case 0
  then show ?case by simp
next
  case (Suc n)
  obtain r0 c0 where st: "shr_limbs_loop xs s n = (r0, c0)"
    by (cases "shr_limbs_loop xs s n")
  define D where "D = limbs_val (drop (length xs - n) xs)"
  have len: "length r0 = n" and r0: "limbs_val r0 = D div 2 ^ s" and c0: "unat c0 = D mod 2 ^ s"
    using Suc.IH [OF _ st] Suc.prems(1) by (simp_all add: D_def)
  define x where "x = xs ! (length xs - Suc n)"
  have dr: "drop (length xs - Suc n) xs = x # drop (length xs - n) xs"
    using Suc.prems(1) Cons_nth_drop_Suc [of "length xs - Suc n" xs]
    by (simp add: x_def Suc_diff_Suc)
  have r: "r = (drop_bit s x OR push_bit (32 - s) c0) # r0"
    and c: "c = x AND (push_bit s 1 - 1)"
    using Suc.prems(2) st by (auto simp: Let_def x_def)
  let ?p = "(2 :: nat) ^ s" and ?q = "(2 :: nat) ^ (32 - s)"
  have B: "base32 = ?p * ?q"
    using assms(2) by (simp add: base32_split)
  have split: "unat x + base32 * D = unat x + ?p * (?q * D)"
    by (simp add: B)
  have "limbs_val r = unat x div ?p + (D mod ?p) * ?q + base32 * (D div ?p)"
    using shr_step [OF assms, of c0 x] c0 r0 by (simp add: r)
  also have "\<dots> = unat x div ?p + ?q * (D mod ?p + ?p * (D div ?p))"
  proof -
    have "a + m * ?q + (?p * ?q) * d = a + ?q * (m + ?p * d)" for a m d
      by (simp add: algebra_simps)
    then show ?thesis by (simp only: B)
  qed
  also have "\<dots> = unat x div ?p + ?q * D"
    by (simp only: mod_mult_div_eq)
  also have "\<dots> = (unat x + base32 * D) div ?p"
    by (simp add: split)
  finally have v: "limbs_val r = limbs_val (drop (length xs - Suc n) xs) div ?p"
    by (simp add: dr D_def)
  have "unat c = limbs_val (drop (length xs - Suc n) xs) mod ?p"
    using shr_mask [OF assms(2), of x] by (simp add: c dr split flip: D_def)
  with v r len show ?case by simp
qed

text \<open>Whether any bit below the shift was set, limb by limb.\<close>

lemma list_ex_nonzero: "list_ex (\<lambda>x. x \<noteq> 0) xs \<longleftrightarrow> limbs_val xs \<noteq> 0"
  by (auto simp: list_ex_iff limbs_val_eq_0_iff)

lemma div_pow_split: "(n :: nat) div 2 ^ unat s = n div base32 ^ shift_limbs s div 2 ^ shift_bits s"
  by (simp add: shift_decompose [of s] base32_power power_add div_mult2_eq)

lemma mod_pow_split:
  "(n :: nat) mod 2 ^ unat s =
     n mod base32 ^ shift_limbs s + base32 ^ shift_limbs s * (n div base32 ^ shift_limbs s mod 2 ^ shift_bits s)"
proof -
  have "(2 :: nat) ^ unat s = base32 ^ shift_limbs s * 2 ^ shift_bits s"
    by (simp add: shift_decompose [of s] base32_power power_add)
  then show ?thesis by (simp add: mod_mult2_eq)
qed

lemma bigint_shift_right_abs_val:
  assumes "bigint_shift_right_abs xs s = (r, n, t)" "xs \<noteq> []"
  shows "limbs_val (take n r) = limbs_val xs div 2 ^ unat s"
    and "t \<longleftrightarrow> limbs_val xs mod 2 ^ unat s \<noteq> 0"
    and "limbs_norm (take n r)" and "n \<le> length r" and "0 < n"
    and "length r = (if shift_limbs s \<ge> length xs then 1 else length xs - shift_limbs s)"
proof -
  let ?ls = "shift_limbs s" and ?bs = "shift_bits s"
  have "limbs_val (take n r) = limbs_val xs div 2 ^ unat s \<and> (t \<longleftrightarrow> limbs_val xs mod 2 ^ unat s \<noteq> 0)
     \<and> limbs_norm (take n r) \<and> n \<le> length r \<and> 0 < n
     \<and> length r = (if ?ls \<ge> length xs then 1 else length xs - ?ls)"
  proof (cases "?ls \<ge> length xs")
    case True
    then have "limbs_val xs < base32 ^ ?ls"
      by (rule limbs_val_less)
    with True assms(1) show ?thesis
      by (auto simp: bigint_shift_right_abs_def div_pow_split mod_pow_split list_ex_nonzero limbs_norm_def)
  next
    case False
    define m where "m = length xs - ?ls"
    have m: "m \<le> length xs" "0 < m" "length xs - m = ?ls"
      using False by (simp_all add: m_def)
    define out where "out = (if ?bs = 0 then drop ?ls xs else fst (shr_limbs_loop xs ?bs m))"
    have hd: "limbs_val (drop ?ls xs) mod 2 ^ ?bs = unat (xs ! ?ls) mod 2 ^ ?bs"
    proof -
      have "drop ?ls xs = xs ! ?ls # drop (Suc ?ls) xs"
        using False by (simp add: Cons_nth_drop_Suc)
      moreover have "base32 = 2 ^ ?bs * 2 ^ (32 - ?bs)"
        using shift_bits_less [of s] by (simp add: base32_split)
      ultimately show ?thesis by (simp add: mult.assoc del: base32_pos)
        (metis mod_mult_self2 mult.assoc)
    qed
    have out: "length out = m \<and> limbs_val out = limbs_val xs div 2 ^ unat s"
    proof (cases "?bs = 0")
      case True
      then show ?thesis by (simp add: out_def m_def div_pow_split limbs_val_div)
    next
      case bs: False
      obtain r0 c0 where st: "shr_limbs_loop xs ?bs m = (r0, c0)"
        by (cases "shr_limbs_loop xs ?bs m")
      show ?thesis
        using shr_limbs_loop_inv [OF _ shift_bits_less m(1) st] bs st m(3)
        by (simp add: out_def div_pow_split limbs_val_div)
    qed
    have t: "t \<longleftrightarrow> limbs_val (take ?ls xs) \<noteq> 0 \<or> (?bs \<noteq> 0 \<and> unat (xs ! ?ls) mod 2 ^ ?bs \<noteq> 0)"
    proof -
      have "xs ! ?ls AND (push_bit ?bs 1 - 1) \<noteq> 0 \<longleftrightarrow> unat (xs ! ?ls) mod 2 ^ ?bs \<noteq> 0"
        using shr_mask [OF shift_bits_less, of "xs ! ?ls" s] by (metis unat_eq_zero)
      with assms(1) False show ?thesis
        by (auto simp: bigint_shift_right_abs_def Let_def list_ex_nonzero)
    qed
    have "t \<longleftrightarrow> limbs_val xs mod 2 ^ unat s \<noteq> 0"
      unfolding t mod_pow_split limbs_val_mod using hd
      by (cases "?bs = 0") (auto simp: limbs_val_div)
    moreover have "r = out" "n = bigint_normalize_limbs out m"
      using assms(1) False by (auto simp: bigint_shift_right_abs_def Let_def out_def m_def)
    ultimately show ?thesis
      using out m False normalize_le [of out m] normalize_pos [of m out]
      by (simp add: normalize_val limbs_norm_take_normalize m_def)
  qed
  then show "limbs_val (take n r) = limbs_val xs div 2 ^ unat s"
    and "t \<longleftrightarrow> limbs_val xs mod 2 ^ unat s \<noteq> 0"
    and "limbs_norm (take n r)" and "n \<le> length r" and "0 < n"
    and "length r = (if ?ls \<ge> length xs then 1 else length xs - ?ls)"
    by blast+
qed

section \<open>Division by one limb\<close>

primrec div_small_loop :: "limbs \<Rightarrow> u32 \<Rightarrow> nat \<Rightarrow> limbs \<times> u64" where
  "div_small_loop limbs divisor 0 = ([], 0)"
| "div_small_loop limbs divisor (Suc n) =
     (case div_small_loop limbs divisor n of (q, rem) \<Rightarrow>
       let cur = push_bit 32 rem OR ucast (limbs ! (length limbs - 1 - n))
       in (ucast (cur div ucast divisor) # q, cur mod ucast divisor))"

text \<open>\<^verbatim>\<open>bigint_div_small_inplace\<close>: the array after the division and the remainder.\<close>

definition bigint_div_small_inplace :: "limbs \<Rightarrow> u32 \<Rightarrow> limbs \<times> u32" where
  "bigint_div_small_inplace limbs divisor =
     (case div_small_loop limbs divisor (length limbs) of (q, rem) \<Rightarrow> (q, ucast rem))"

lemma div_small_step:
  fixes x d :: u32 and rem :: u64
  assumes "unat rem < unat d"
  defines "cur \<equiv> push_bit 32 rem OR ucast x"
  shows "unat (ucast (cur div ucast d) :: u32) = (base32 * unat rem + unat x) div unat d"
    and "unat (cur mod ucast d) = (base32 * unat rem + unat x) mod unat d"
proof -
  have rem: "unat rem < base32"
    using assms(1) unat_u32_bound [of d] by linarith
  have cur: "unat cur = base32 * unat rem + unat x"
    unfolding cur_def by (simp add: unat_push32_or [OF rem] mult.commute)
  have "base32 * unat rem + unat x < base32 * Suc (unat rem)"
    using unat_u32_bound [of x] by simp
  also have "\<dots> \<le> base32 * unat d"
    using assms(1) by (intro mult_le_mono2) simp
  finally have "unat cur div unat d < base32"
    unfolding cur by (intro less_mult_imp_div_less)
  then show "unat (ucast (cur div ucast d) :: u32) = (base32 * unat rem + unat x) div unat d"
    by (simp add: unat_div_distrib cur)
  show "unat (cur mod ucast d) = (base32 * unat rem + unat x) mod unat d"
    by (simp add: unat_mod_distrib cur)
qed

lemma div_small_loop_inv:
  assumes "0 < unat d"
  shows "n \<le> length xs \<Longrightarrow> div_small_loop xs d n = (q, rem) \<Longrightarrow>
   length q = n \<and> limbs_val q = limbs_val (drop (length xs - n) xs) div unat d \<and>
   unat rem = limbs_val (drop (length xs - n) xs) mod unat d"
proof (induction n arbitrary: q rem)
  case 0
  then show ?case by simp
next
  case (Suc n)
  obtain q0 r0 where st: "div_small_loop xs d n = (q0, r0)"
    by (cases "div_small_loop xs d n")
  define D where "D = limbs_val (drop (length xs - n) xs)"
  have len: "length q0 = n" and q0: "limbs_val q0 = D div unat d" and r0: "unat r0 = D mod unat d"
    using Suc.IH [OF _ st] Suc.prems(1) by (simp_all add: D_def)
  define x where "x = xs ! (length xs - Suc n)"
  have dr: "drop (length xs - Suc n) xs = x # drop (length xs - n) xs"
    using Suc.prems(1) Cons_nth_drop_Suc [of "length xs - Suc n" xs]
    by (simp add: x_def Suc_diff_Suc)
  have lt: "unat r0 < unat d"
    using r0 assms by simp
  define cur where "cur = push_bit 32 r0 OR ucast x"
  have q: "q = ucast (cur div ucast d) # q0" and rem: "rem = cur mod ucast d"
    using Suc.prems(2) st by (auto simp: Let_def x_def cur_def)
  have D: "D = unat r0 + unat d * (D div unat d)"
    by (simp add: r0)
  have tot: "unat x + base32 * D = base32 * unat r0 + unat x + unat d * (base32 * (D div unat d))"
    by (subst (1) D) (simp add: algebra_simps)
  have "limbs_val q = (base32 * unat r0 + unat x) div unat d + base32 * (D div unat d)"
    using div_small_step(1) [OF lt, of x] q0 by (simp add: q cur_def)
  also have "\<dots> = (unat x + base32 * D) div unat d"
    unfolding tot using assms by simp
  finally have "limbs_val q = limbs_val (drop (length xs - Suc n) xs) div unat d"
    by (simp add: dr D_def)
  moreover have "unat rem = (unat x + base32 * D) mod unat d"
    unfolding tot rem cur_def using div_small_step(2) [OF lt, of x] by simp
  ultimately show ?case
    using q len by (simp add: dr D_def)
qed

lemma bigint_div_small_inplace_val:
  assumes "bigint_div_small_inplace xs d = (q, rem)" "d \<noteq> 0"
  shows "limbs_val q = limbs_val xs div unat d" and "unat rem = limbs_val xs mod unat d"
    and "length q = length xs"
proof -
  obtain r0 where st: "div_small_loop xs d (length xs) = (q, r0)" and rem: "rem = ucast r0"
    using assms(1) by (cases "div_small_loop xs d (length xs)") (simp add: bigint_div_small_inplace_def)
  have d: "0 < unat d"
    using assms(2) by (simp add: unat_gt_0)
  have inv: "length q = length xs" "limbs_val q = limbs_val xs div unat d"
      "unat r0 = limbs_val xs mod unat d"
    using div_small_loop_inv [OF d order_refl st] by simp_all
  have "unat r0 < base32"
    using inv(3) d unat_u32_bound [of d] mod_less_divisor [OF d, of "limbs_val xs"] by linarith
  with inv rem show "limbs_val q = limbs_val xs div unat d" "unat rem = limbs_val xs mod unat d"
    "length q = length xs"
    by simp_all
qed

section \<open>Bit length\<close>

text \<open>\<^verbatim>\<open>__builtin_clz\<close>, and the loop the source falls back to: leading zero bits of a limb.\<close>

definition clz32 :: "u32 \<Rightarrow> nat" where
  "clz32 v = length (takeWhile (\<lambda>i. \<not> bit v i) (rev [0..<32]))"

definition bigint_abs_bitlen_limbs :: "limbs \<Rightarrow> nat" where
  "bigint_abs_bitlen_limbs limbs =
     (let count = bigint_normalize_limbs limbs (length limbs)
      in if count = 1 \<and> limbs ! 0 = 0 then 0
         else (count - 1) * 32 + (32 - clz32 (limbs ! (count - 1))))"

lemma clz32_bounds:
  assumes "v \<noteq> 0"
  shows "clz32 v < 32" "2 ^ (31 - clz32 v) \<le> unat v" "unat v < 2 ^ (32 - clz32 v)"
proof -
  let ?n = "clz32 v" and ?l = "rev [0..<32]"
  have nth: "?l ! j = 31 - j" if "j < 32" for j
    using that by (simp add: rev_nth)
  have below: "\<not> bit v (31 - j)" if "j < ?n" for j
  proof -
    have "j < 32"
      using that length_takeWhile_le [of "\<lambda>i. \<not> bit v i" ?l] by (simp add: clz32_def)
    moreover have "\<not> bit v (takeWhile (\<lambda>i. \<not> bit v i) ?l ! j)"
      using that nth_mem set_takeWhileD unfolding clz32_def by fastforce
    moreover have "takeWhile (\<lambda>i. \<not> bit v i) ?l ! j = ?l ! j"
      using that unfolding clz32_def by (rule takeWhile_nth)
    ultimately show ?thesis by (simp add: nth)
  qed
  show lt: "?n < 32"
  proof (rule ccontr)
    assume ge: "\<not> ?n < 32"
    have "\<not> bit v k" for k
    proof (cases "k < 32")
      case True
      then show ?thesis using below [of "31 - k"] ge by simp
    next
      case False
      then show ?thesis by (auto dest: bit_imp_le_length)
    qed
    then have "v = 0" by (simp add: bit_eq_iff)
    with assms show False by simp
  qed
  have "bit v (31 - ?n)"
    using nth_length_takeWhile [of "\<lambda>i. \<not> bit v i" ?l] lt by (simp add: clz32_def nth)
  then have "bit (unat v) (31 - ?n)"
    by (simp add: bit_unsigned_iff)
  then have "odd (unat v div 2 ^ (31 - ?n))"
    by (simp add: bit_iff_odd)
  then have "unat v div 2 ^ (31 - ?n) \<noteq> 0"
    by (metis even_zero)
  then show "2 ^ (31 - ?n) \<le> unat v"
    by (simp add: div_eq_0_iff)
  have "take_bit (32 - ?n) v = v"
  proof (rule bit_eqI)
    fix k
    show "bit (take_bit (32 - ?n) v) k = bit v k"
    proof (cases "k < 32 - ?n")
      case True
      then show ?thesis by (simp add: bit_take_bit_iff)
    next
      case False
      then have "\<not> bit v k"
        using below [of "31 - k"] by (cases "k < 32") (auto dest: bit_imp_le_length)
      then show ?thesis by (simp add: bit_take_bit_iff)
    qed
  qed
  then have "unat v = unat v mod 2 ^ (32 - ?n)"
    by (metis take_bit_eq_mod unsigned_take_bit_eq)
  then show "unat v < 2 ^ (32 - ?n)"
    by (metis mod_less_divisor zero_less_numeral zero_less_power)
qed

lemma bigint_abs_bitlen_limbs_bounds:
  assumes "xs \<noteq> []"
  shows "limbs_val xs < 2 ^ bigint_abs_bitlen_limbs xs"
    and "limbs_val xs \<noteq> 0 \<Longrightarrow> 2 ^ (bigint_abs_bitlen_limbs xs - 1) \<le> limbs_val xs"
    and "limbs_val xs = 0 \<longleftrightarrow> bigint_abs_bitlen_limbs xs = 0"
proof -
  define c where "c = bigint_normalize_limbs xs (length xs)"
  have c: "0 < c" "c \<le> length xs"
    using assms normalize_le by (simp_all add: c_def normalize_pos)
  then have "c - 1 < length xs" by linarith
  define top where "top = xs ! (c - 1)"
  define low where "low = limbs_val (take (c - 1) xs)"
  with c have val: "limbs_val xs = low + base32 ^ (c - 1) * unat top"
    using normalize_val [of "length xs" xs] limbs_val_take_Suc [of "c - 1" xs] \<open>c - 1 < length xs\<close>
    by (simp add: c_def [symmetric] limb_at_def top_def low_def)
  have low: "low < base32 ^ (c - 1)"
    unfolding low_def using c by (intro limbs_val_less) simp
  have "limbs_val xs < 2 ^ bigint_abs_bitlen_limbs xs \<and>
    (limbs_val xs \<noteq> 0 \<longrightarrow> 2 ^ (bigint_abs_bitlen_limbs xs - 1) \<le> limbs_val xs) \<and>
    (limbs_val xs = 0 \<longleftrightarrow> bigint_abs_bitlen_limbs xs = 0)"
  proof (cases "top = 0")
    case True
    then have "c = 1"
      using normalize_top [of xs "length xs"] c by (fastforce simp: c_def [symmetric] top_def)
    with True val low show ?thesis
      by (simp add: bigint_abs_bitlen_limbs_def c_def [symmetric] top_def low_def)
  next
    case False
    let ?z = "clz32 top"
    note z = clz32_bounds [OF False]
    have bl: "bigint_abs_bitlen_limbs xs = 32 * (c - 1) + (32 - ?z)"
      using False c by (auto simp: bigint_abs_bitlen_limbs_def c_def [symmetric] top_def Let_def)
    have "limbs_val xs < base32 ^ (c - 1) * Suc (unat top)"
      using val low by simp
    also have "\<dots> \<le> base32 ^ (c - 1) * 2 ^ (32 - ?z)"
      using z(3) by (intro mult_le_mono2) simp
    finally have up: "limbs_val xs < 2 ^ bigint_abs_bitlen_limbs xs"
      by (simp add: bl base32_power power_add)
    have "base32 ^ (c - 1) * 2 ^ (31 - ?z) \<le> limbs_val xs"
      using z(2) val by (simp add: trans_le_add2)
    moreover have "bigint_abs_bitlen_limbs xs - 1 = 32 * (c - 1) + (31 - ?z)"
      using z(1) by (simp add: bl)
    ultimately have "2 ^ (bigint_abs_bitlen_limbs xs - 1) \<le> limbs_val xs"
      by (simp add: base32_power power_add)
    moreover have "limbs_val xs \<noteq> 0" "bigint_abs_bitlen_limbs xs \<noteq> 0"
      using False val z(1) by (simp_all add: bl unat_eq_zero)
    ultimately show ?thesis using up by simp
  qed
  then show "limbs_val xs < 2 ^ bigint_abs_bitlen_limbs xs"
    and "limbs_val xs \<noteq> 0 \<Longrightarrow> 2 ^ (bigint_abs_bitlen_limbs xs - 1) \<le> limbs_val xs"
    and "limbs_val xs = 0 \<longleftrightarrow> bigint_abs_bitlen_limbs xs = 0"
    by blast+
qed

end
