(* ===== verification/Bigint_Knuth.thy ===== *)
theory Bigint_Knuth
  imports Bigint_Shift
begin

unbundle bit_operations_syntax

text \<open>
  The long division loop of \<^verbatim>\<open>bigint_divmod_abs_limbs\<close> in \<^verbatim>\<open>src/modules/bigint.c\<close>
  (Knuth's algorithm D on 32-bit limbs in 64-bit arithmetic). The quotient digit is
  estimated from the top limbs, corrected, multiplied and subtracted, and added back
  once if the subtraction borrowed. The source shifts the trial remainder left by 32
  without checking that it is below \<open>2 ^ 32\<close>, which fails after the estimate has been
  clamped: \<open>knuth_step_exact\<close> is the exact condition under which that shift does no
  harm, and the loop is proved correct under it.
\<close>

section \<open>The loop\<close>

text \<open>The estimate and trial remainder for the digit \<open>j\<close>, after clamping to \<open>2 ^ 32 - 1\<close>.\<close>

definition knuth_estimate :: "limbs \<Rightarrow> limbs \<Rightarrow> nat \<Rightarrow> u64 \<times> u64" where
  "knuth_estimate vn un j =
     (let den_count = length vn;
          numerator = push_bit 32 (ucast (un ! (j + den_count)) :: u64) OR ucast (un ! (j + den_count - 1));
          v = ucast (vn ! (den_count - 1));
          qhat = numerator div v;
          rhat = numerator mod v
      in if qhat \<ge> 0x100000000
         then (let qhat = 0x100000000 - 1 in (qhat, numerator - qhat * v))
         else (qhat, rhat))"

text \<open>The correction loop, with \<open>v1\<close>, \<open>v2\<close> the top limbs of the divisor.\<close>

function knuth_adjust :: "u32 \<Rightarrow> u32 \<Rightarrow> u32 \<Rightarrow> u64 \<Rightarrow> u64 \<Rightarrow> u64 \<times> u64" where
  "knuth_adjust v1 v2 u2 qhat rhat =
     (if qhat * ucast v2 > (push_bit 32 rhat OR ucast u2) then
        (let qhat' = qhat - 1; rhat' = rhat + ucast v1
         in if rhat' \<ge> 0x100000000 then (qhat', rhat') else knuth_adjust v1 v2 u2 qhat' rhat')
      else (qhat, rhat))"
  by pat_completeness auto
termination
proof (relation "measure (\<lambda>(v1, v2, u2, qhat, rhat). unat qhat)")
  fix v1 v2 u2 :: u32 and qhat rhat x y :: u64
  assume gt: "qhat * ucast v2 > (push_bit 32 rhat OR ucast u2)" and x: "x = qhat - 1"
  have "qhat \<noteq> 0"
  proof
    assume "qhat = 0"
    with gt have "(push_bit 32 rhat OR ucast u2) < (0 :: u64)" by simp
    then show False by simp
  qed
  then have "unat (qhat - 1) < unat qhat"
    by (simp add: measure_unat)
  then show "((v1, v2, u2, x, y), v1, v2, u2, qhat, rhat)
      \<in> measure (\<lambda>(v1, v2, u2, qhat, rhat). unat qhat)"
    by (simp add: x)
qed simp

declare knuth_adjust.simps [simp del]

text \<open>Multiply and subtract: the array and \<open>k\<close> after \<open>i\<close> iterations.\<close>

primrec mulsub_loop :: "limbs \<Rightarrow> limbs \<Rightarrow> nat \<Rightarrow> u64 \<Rightarrow> nat \<Rightarrow> limbs \<times> u64" where
  "mulsub_loop vn un j qhat 0 = (un, 0)"
| "mulsub_loop vn un j qhat (Suc i) =
     (case mulsub_loop vn un j qhat i of (un, k) \<Rightarrow>
       let p = qhat * ucast (vn ! i) + k;
           k = drop_bit 32 p;
           plow = ucast p
       in if un ! (j + i) < plow
          then (un[j + i := ucast (ucast (un ! (j + i)) + (0x100000000 :: u64) - ucast plow)], k + 1)
          else (un[j + i := un ! (j + i) - plow], k))"

text \<open>Add back: the array and the carry after \<open>i\<close> iterations.\<close>

primrec addback_loop :: "limbs \<Rightarrow> limbs \<Rightarrow> nat \<Rightarrow> nat \<Rightarrow> limbs \<times> u64" where
  "addback_loop vn un j 0 = (un, 0)"
| "addback_loop vn un j (Suc i) =
     (case addback_loop vn un j i of (un, carry) \<Rightarrow>
       let sum = ucast (un ! (j + i)) + ucast (vn ! i) + carry
       in (un[j + i := ucast sum], drop_bit 32 sum))"

definition knuth_step :: "limbs \<Rightarrow> limbs \<Rightarrow> nat \<Rightarrow> limbs \<times> u32" where
  "knuth_step vn un j =
     (let den_count = length vn
      in case knuth_estimate vn un j of (qhat, rhat) \<Rightarrow>
         case (if den_count > 1
               then knuth_adjust (vn ! (den_count - 1)) (vn ! (den_count - 2))
                      (un ! (j + den_count - 2)) qhat rhat
               else (qhat, rhat)) of (qhat, rhat) \<Rightarrow>
         case mulsub_loop vn un j qhat den_count of (un, k) \<Rightarrow>
           let borrow = ucast (un ! (j + den_count)) < k;
               un = un[j + den_count := ucast (ucast (un ! (j + den_count)) - k)]
           in if borrow
              then (case addback_loop vn un j den_count of (un, carry) \<Rightarrow>
                 (un[j + den_count := ucast (ucast (un ! (j + den_count)) + carry)],
                  ucast (qhat - 1)))
              else (un, ucast qhat))"

text \<open>The remainder array and the quotient digits after \<open>k\<close> iterations from \<open>j = m\<close> down.\<close>

primrec knuth_loop :: "limbs \<Rightarrow> limbs \<Rightarrow> nat \<Rightarrow> nat \<Rightarrow> limbs \<times> limbs" where
  "knuth_loop vn un m 0 = (un, [])"
| "knuth_loop vn un m (Suc k) =
     (case knuth_loop vn un m k of (un, q) \<Rightarrow>
       case knuth_step vn un (m - k) of (un, d) \<Rightarrow> (un, d # q))"

text \<open>
  The first comparison of the correction loop is not spoiled by the unchecked
  \<^verbatim>\<open>rhat << 32\<close>: either the trial remainder fits in 32 bits, or the comparison on the
  wrapped value says, as the exact one always does then, that the estimate stands.
\<close>

definition knuth_step_exact :: "limbs \<Rightarrow> limbs \<Rightarrow> nat \<Rightarrow> bool" where
  "knuth_step_exact vn un j =
     (case knuth_estimate vn un j of (qhat, rhat) \<Rightarrow>
        rhat < 0x100000000 \<or>
        \<not> qhat * ucast (vn ! (length vn - 2)) > (push_bit 32 rhat OR ucast (un ! (j + length vn - 2))))"

definition knuth_exact :: "limbs \<Rightarrow> limbs \<Rightarrow> nat \<Rightarrow> nat \<Rightarrow> bool" where
  "knuth_exact vn un m k = list_all (\<lambda>i. knuth_step_exact vn (fst (knuth_loop vn un m i)) (m - i)) [0..<k]"

section \<open>Estimating a quotient digit\<close>

lemma estimate_mono:
  fixes U V R q :: nat
  assumes "q * V \<le> U" "0 < R"
  shows "q * (V div R) \<le> U div R"
proof -
  have "q * (V div R) * R \<le> q * V"
    by (simp add: mult.assoc div_times_less_eq_dividend)
  also have "\<dots> \<le> U" by (rule assms(1))
  finally show ?thesis
    using assms(2) by (simp add: less_eq_div_iff_mult_less_eq)
qed

lemma estimate_close:
  fixes U V P q :: nat
  assumes "q * (V div P) \<le> U div P" "q * P \<le> V" "0 < V" "0 < P"
  shows "q \<le> U div V + 1"
proof -
  have "V mod P \<le> P" using assms(4) by (simp add: less_imp_le)
  then have "q * (V mod P) \<le> q * P" by (rule mult_le_mono2)
  moreover have "q * (V div P) * P \<le> U div P * P"
    using assms(1) by (rule mult_le_mono1)
  moreover have "U div P * P \<le> U" by (simp add: div_times_less_eq_dividend)
  moreover have "q * V = q * (V div P) * P + q * (V mod P)"
    by (metis add_mult_distrib2 div_mult_mod_eq mult.assoc)
  ultimately have "q * V \<le> U + V"
    using assms(2) by linarith
  then have "(q - 1) * V \<le> U" by (simp add: diff_mult_distrib)
  then have "q - 1 \<le> U div V" using assms(3) by (simp add: less_eq_div_iff_mult_less_eq)
  then show ?thesis by linarith
qed

text \<open>
  The correction loop keeps \<open>qhat * v1 + rhat\<close>, never goes below a digit \<open>Q\<close> that the top
  three limbs allow, and ends with an estimate they allow.
\<close>

lemma trial_step:
  fixes qhat rhat :: u64 and v1 v2 u2 :: u32
  assumes "unat qhat < base32" "unat rhat < base32"
  shows "unat (qhat * ucast v2) = unat qhat * unat v2"
    and "unat (push_bit 32 rhat OR ucast u2) = unat rhat * base32 + unat u2"
    and "unat (rhat + ucast v1) = unat rhat + unat v1"
proof -
  have v: "unat v1 < base32" "unat v2 < base32" by (rule unat_u32_bound)+
  have "unat qhat * unat v2 < base32 * base32"
    using assms(1) v(2) by (intro mult_strict_mono) simp_all
  then show "unat (qhat * ucast v2) = unat qhat * unat v2"
    by (subst unat_mult_u64) simp_all
  show "unat (push_bit 32 rhat OR ucast u2) = unat rhat * base32 + unat u2"
    by (rule unat_push32_or [OF assms(2)])
  have "unat rhat + unat v1 < base32 * base32"
  proof -
    have "base32 + base32 \<le> base32 * base32" by (simp add: base32_def)
    then show ?thesis using assms(2) v(1) by linarith
  qed
  then show "unat (rhat + ucast v1) = unat rhat + unat v1"
    by (subst unat_add_u64) simp_all
qed

lemma knuth_adjust_inv:
  "knuth_adjust v1 v2 u2 qhat rhat = (q', r') \<Longrightarrow>
   unat qhat < base32 \<Longrightarrow> unat rhat < base32 \<Longrightarrow>
   unat qhat * unat v1 + unat rhat = N \<Longrightarrow> Q \<le> unat qhat \<Longrightarrow>
   (\<And>x. N * base32 + unat u2 < x * (unat v1 * base32 + unat v2) \<Longrightarrow> Q < x) \<Longrightarrow>
   Q \<le> unat q' \<and> unat q' < base32 \<and> unat q' * (unat v1 * base32 + unat v2) \<le> N * base32 + unat u2"
proof (induction v1 v2 u2 qhat rhat arbitrary: q' r' rule: knuth_adjust.induct)
  case (1 v1 v2 u2 qhat rhat)
  note tr = trial_step [OF "1.prems"(2,3)]
  have N: "N * base32 + unat u2 = unat qhat * (unat v1 * base32) + (unat rhat * base32 + unat u2)"
    using "1.prems"(4) by (simp add: algebra_simps flip: "1.prems"(4))
  have cmp: "qhat * ucast v2 > (push_bit 32 rhat OR ucast u2) \<longleftrightarrow>
      N * base32 + unat u2 < unat qhat * (unat v1 * base32 + unat v2)"
    unfolding word_less_nat_alt tr N by (simp add: algebra_simps)
  show ?case
  proof (cases "qhat * ucast v2 > (push_bit 32 rhat OR ucast u2)")
    case False
    then have "q' = qhat"
      using "1.prems"(1) by (subst (asm) knuth_adjust.simps) simp
    with False cmp "1.prems" show ?thesis by simp
  next
    case True
    with cmp have big: "N * base32 + unat u2 < unat qhat * (unat v1 * base32 + unat v2)" by simp
    then have Q: "Q < unat qhat" by (rule "1.prems"(6))
    then have q1: "unat (qhat - 1) = unat qhat - 1"
      by (simp add: unat_minus_one unat_eq_zero [symmetric] del: unat_eq_zero)
    have N': "unat (qhat - 1) * unat v1 + unat (rhat + ucast v1) = N"
      using Q "1.prems"(4) unfolding q1 tr by (cases "unat qhat") simp_all
    show ?thesis
    proof (cases "rhat + ucast v1 \<ge> 0x100000000")
      case stop: True
      then have "q' = qhat - 1"
        using "1.prems"(1) True by (subst (asm) knuth_adjust.simps) simp
      have "base32 \<le> unat (rhat + ucast v1)"
        using stop by (simp only: base32_le_u64)
      then have "base32 * base32 \<le> unat (rhat + ucast v1) * base32" by (rule mult_le_mono1)
      moreover have "unat (qhat - 1) * unat v2 \<le> base32 * base32"
        using q1 "1.prems"(2) unat_u32_bound [of v2] by (intro mult_le_mono) simp_all
      moreover have "N * base32 = unat (qhat - 1) * (unat v1 * base32) + unat (rhat + ucast v1) * base32"
        by (simp add: algebra_simps flip: N')
      ultimately have "unat (qhat - 1) * (unat v1 * base32 + unat v2) \<le> N * base32 + unat u2"
        unfolding add_mult_distrib2 by linarith
      moreover have "Q \<le> unat qhat - 1" "unat qhat - 1 < base32"
        using Q "1.prems"(2) by linarith+
      ultimately show ?thesis using \<open>q' = qhat - 1\<close> q1 by simp
    next
      case False
      then have rec: "knuth_adjust v1 v2 u2 (qhat - 1) (rhat + ucast v1) = (q', r')"
        using "1.prems"(1) True by (subst (asm) knuth_adjust.simps) (simp add: Let_def)
      have "unat (rhat + ucast v1) < base32"
        using False by (simp only: base32_le_u64 not_le)
      then show ?thesis
        using q1 Q "1.prems"(2,6) by (intro "1.IH" [OF True refl refl False rec _ _ N']) simp_all
    qed
  qed
qed

text \<open>Multiply and subtract, on the value of the whole array.\<close>

lemma mulsub_limb:
  fixes x v :: u32 and qhat k :: u64
  assumes "unat qhat < base32" "unat k < base32"
  defines "p \<equiv> qhat * ucast v + k"
  defines "plow \<equiv> ucast p :: u32"
  defines "x' \<equiv> if x < plow then ucast (ucast x + (0x100000000 :: u64) - ucast plow) else x - plow"
    and "k' \<equiv> if x < plow then drop_bit 32 p + 1 else drop_bit 32 p"
  shows "unat x' + unat qhat * unat v + unat k = unat x + base32 * unat k'" and "unat k' < base32"
proof -
  have x: "unat x < base32" "unat v < base32" "unat plow < base32" by (rule unat_u32_bound)+
  have le: "unat qhat * unat v \<le> (base32 - 1) * (base32 - 1)"
    using assms(1) x(2) by (intro mult_le_mono) simp_all
  have sq: "(base32 - 1) * (base32 - 1) + (base32 - 1) = (base32 - 1) * base32"
    by (simp add: base32_def)
  have lim: "unat qhat * unat v + unat k \<le> (base32 - 1) * base32"
    using le assms(2) sq by linarith
  have "(base32 - 1) * base32 < base32 * base32" by (simp add: base32_def)
  with lim have lt: "unat qhat * unat v + unat k < base32 * base32" by linarith
  then have "unat (qhat * ucast v) = unat qhat * unat v"
    by (subst unat_mult_u64) simp_all
  with lt have p: "unat p = unat qhat * unat v + unat k"
    unfolding p_def by (subst unat_add_u64) simp_all
  have plow: "unat plow = unat p mod base32" by (simp add: plow_def)
  have split: "unat p = unat plow + base32 * (unat p div base32)"
    unfolding plow by simp
  show "unat x' + unat qhat * unat v + unat k = unat x + base32 * unat k'"
    and "unat k' < base32"
  proof -
    have "unat x' + unat p = unat x + base32 * unat k' \<and> unat k' < base32"
    proof (cases "x < plow")
      case False
      have "unat x' = unat x - unat plow"
        using False by (simp add: x'_def unat_sub)
      moreover have "unat plow \<le> unat x" using False by (simp add: word_le_nat_alt not_less)
      moreover have "unat p div base32 < base32"
        using p lt by (simp add: less_mult_imp_div_less)
      moreover have "unat k' = unat p div base32" using False by (simp add: k'_def)
      ultimately show ?thesis using split by simp
    next
      case True
      then have gt: "unat x < unat plow" by (simp add: word_less_nat_alt)
      have hi: "unat p div base32 < base32 - 1"
      proof (rule ccontr)
        assume "\<not> unat p div base32 < base32 - 1"
        then have "base32 * (base32 - 1) \<le> base32 * (unat p div base32)" by (intro mult_le_mono2) simp
        moreover have "base32 * (base32 - 1) = (base32 - 1) * base32" by (rule mult.commute)
        ultimately show False using split lim p gt by linarith
      qed
      have "unat (drop_bit 32 p + 1) = unat p div base32 + 1"
      proof (subst unat_add_u64)
        have "base32 < base32 * base32" by (simp add: base32_def)
        then have "unat p div base32 + 1 < base32 * base32" using hi by linarith
        then show "unat (drop_bit 32 p) + unat (1 :: u64) < base32 * base32" by simp
      qed simp
      then have k': "unat k' = unat p div base32 + 1" using True by (simp add: k'_def)
      have s1: "unat (ucast x + (0x100000000 :: u64)) = unat x + base32"
      proof (subst unat_add_u64)
        have "base32 + base32 < base32 * base32" by (simp add: base32_def)
        then show "unat (ucast x :: u64) + unat (0x100000000 :: u64) < base32 * base32"
          unfolding unat_base32_u64 using x(1) by simp
      qed (simp only: unat_base32_u64 unat_ucast_u32_u64)
      have "unat (ucast x + (0x100000000 :: u64) - ucast plow) = unat x + base32 - unat plow"
        using s1 x(3) by (subst unat_sub_u64) (simp_all add: word_le_nat_alt)
      moreover have "unat x + base32 - unat plow < base32" using gt x by linarith
      ultimately have "unat x' = unat x + base32 - unat plow" using True by (simp add: x'_def)
      moreover have "base32 * unat k' = base32 * (unat p div base32) + base32" by (simp add: k')
      ultimately show ?thesis using k' hi x split by linarith
    qed
    then show "unat x' + unat qhat * unat v + unat k = unat x + base32 * unat k'" "unat k' < base32"
      using p by simp_all
  qed
qed

lemma mulsub_loop_inv:
  "i \<le> length vn \<Longrightarrow> j + length vn < length un \<Longrightarrow> unat qhat < base32 \<Longrightarrow>
   mulsub_loop vn un j qhat i = (un', k) \<Longrightarrow>
   length un' = length un \<and> unat k < base32 \<and> drop (j + i) un' = drop (j + i) un \<and>
   limbs_val un' + base32 ^ j * (unat qhat * limbs_val (take i vn)) = limbs_val un + base32 ^ (j + i) * unat k"
proof (induction i arbitrary: un' k)
  case 0
  then show ?case by simp
next
  case (Suc i)
  obtain u0 k0 where st: "mulsub_loop vn un j qhat i = (u0, k0)" by force
  have inv: "length u0 = length un" "unat k0 < base32" "drop (j + i) u0 = drop (j + i) un"
    "limbs_val u0 + base32 ^ j * (unat qhat * limbs_val (take i vn)) = limbs_val un + base32 ^ (j + i) * unat k0"
    using Suc.IH [OF _ Suc.prems(2,3) st] Suc.prems(1) by simp_all
  define x where "x = u0 ! (j + i)"
  note limb = mulsub_limb [OF Suc.prems(3) inv(2), where x = x and v = "vn ! i"]
  define p where "p = qhat * ucast (vn ! i) + k0"
  define x' where "x' = (if x < ucast p then ucast (ucast x + (0x100000000 :: u64) - ucast (ucast p :: u32))
    else x - ucast p)"
  have res: "un' = u0[j + i := x']" "k = (if x < ucast p then drop_bit 32 p + 1 else drop_bit 32 p)"
    using Suc.prems(4) st by (auto simp: Let_def x'_def p_def x_def split: if_splits)
  have step: "unat x' + unat qhat * unat (vn ! i) + unat k0 = unat x + base32 * unat k" "unat k < base32"
    using limb by (simp_all only: res x'_def p_def)
  have upd: "limbs_val un' + base32 ^ (j + i) * unat x = limbs_val u0 + base32 ^ (j + i) * unat x'"
    unfolding res x_def using inv(1) Suc.prems(1,2) by (intro limbs_val_update) simp
  have "base32 ^ (j + i) * unat x' + base32 ^ (j + i) * (unat qhat * unat (vn ! i)) + base32 ^ (j + i) * unat k0
      = base32 ^ (j + i) * unat x + base32 ^ (j + Suc i) * unat k"
    using arg_cong [OF step(1), of "\<lambda>t. base32 ^ (j + i) * t"] by (simp add: algebra_simps)
  moreover have "base32 ^ j * (unat qhat * limbs_val (take (Suc i) vn))
      = base32 ^ j * (unat qhat * limbs_val (take i vn)) + base32 ^ (j + i) * (unat qhat * unat (vn ! i))"
    using Suc.prems(1) by (simp add: limbs_val_take_Suc limb_at_def power_add algebra_simps)
  ultimately have "limbs_val un' + base32 ^ j * (unat qhat * limbs_val (take (Suc i) vn))
      = limbs_val un + base32 ^ (j + Suc i) * unat k"
    using upd inv(4) by linarith
  moreover have "drop (j + Suc i) un' = drop (j + Suc i) un"
    using arg_cong [OF inv(3), of "drop 1"] unfolding res by (simp add: drop_update_cancel)
  ultimately show ?case using inv(1) step(2) by (simp add: res)
qed

lemma addback_loop_inv:
  "i \<le> length vn \<Longrightarrow> j + length vn < length un \<Longrightarrow> addback_loop vn un j i = (un', c) \<Longrightarrow>
   length un' = length un \<and> unat c \<le> 1 \<and> drop (j + i) un' = drop (j + i) un \<and>
   limbs_val un' + base32 ^ (j + i) * unat c = limbs_val un + base32 ^ j * limbs_val (take i vn)"
proof (induction i arbitrary: un' c)
  case 0
  then show ?case by simp
next
  case (Suc i)
  obtain u0 c0 where st: "addback_loop vn un j i = (u0, c0)" by force
  have inv: "length u0 = length un" "unat c0 \<le> 1" "drop (j + i) u0 = drop (j + i) un"
    "limbs_val u0 + base32 ^ (j + i) * unat c0 = limbs_val un + base32 ^ j * limbs_val (take i vn)"
    using Suc.IH [OF _ Suc.prems(2) st] Suc.prems(1) by simp_all
  define s where "s = ucast (u0 ! (j + i)) + ucast (vn ! i) + c0"
  have res: "un' = u0[j + i := ucast s]" "c = drop_bit 32 s"
    using Suc.prems(3) st by (auto simp: Let_def s_def)
  have lim: "unat (u0 ! (j + i)) + unat (vn ! i) + unat c0 < 2 * base32"
    using unat_u32_bound [of "u0 ! (j + i)"] unat_u32_bound [of "vn ! i"] inv(2) by linarith
  have "2 * base32 \<le> base32 * base32" by (simp add: base32_def)
  with lim have "unat (u0 ! (j + i)) + unat (vn ! i) + unat c0 < base32 * base32" by linarith
  then have s: "unat s = unat (u0 ! (j + i)) + unat (vn ! i) + unat c0"
    unfolding s_def by (subst unat_add3_u64) simp_all
  have c: "unat c \<le> 1"
    using lim s less_mult_imp_div_less [of "unat s" 2 base32] by (simp add: res)
  have upd: "limbs_val un' + base32 ^ (j + i) * unat (u0 ! (j + i)) = limbs_val u0 + base32 ^ (j + i) * (unat s mod base32)"
    unfolding res using inv(1) Suc.prems(1,2) limbs_val_update [of "j + i" u0 "ucast s"] by simp
  have split: "base32 ^ (j + i) * unat s = base32 ^ (j + i) * (unat s mod base32) + base32 ^ (j + Suc i) * unat c"
    using carry_split [of "j + i" "unat s"] by (simp add: res)
  have dist: "base32 ^ (j + i) * unat s = base32 ^ (j + i) * unat (u0 ! (j + i))
      + base32 ^ (j + i) * unat (vn ! i) + base32 ^ (j + i) * unat c0"
    by (simp add: s algebra_simps)
  have "base32 ^ j * limbs_val (take (Suc i) vn)
      = base32 ^ j * limbs_val (take i vn) + base32 ^ (j + i) * unat (vn ! i)"
    using Suc.prems(1) by (simp add: limbs_val_take_Suc limb_at_def power_add algebra_simps)
  then have "limbs_val un' + base32 ^ (j + Suc i) * unat c = limbs_val un + base32 ^ j * limbs_val (take (Suc i) vn)"
    using upd inv(4) split dist by linarith
  moreover have "drop (j + Suc i) un' = drop (j + Suc i) un"
    using arg_cong [OF inv(3), of "drop 1"] unfolding res by (simp add: drop_update_cancel)
  ultimately show ?case using inv(1) c by (simp add: res)
qed

lemma knuth_estimate_val:
  fixes vn un :: limbs and j :: nat
  assumes "knuth_estimate vn un j = (qhat, rhat)" "vn ! (length vn - 1) \<noteq> 0"
  defines "N \<equiv> unat (un ! (j + length vn)) * base32 + unat (un ! (j + length vn - 1))"
    and "v \<equiv> unat (vn ! (length vn - 1))"
  shows "unat qhat < base32" "unat qhat * v + unat rhat = N"
    and "Q < base32 \<Longrightarrow> Q \<le> N div v \<Longrightarrow> Q \<le> unat qhat"
proof -
  define numer where "numer = push_bit 32 (ucast (un ! (j + length vn)) :: u64) OR ucast (un ! (j + length vn - 1))"
  define vw :: u64 where "vw = ucast (vn ! (length vn - 1))"
  have N: "unat numer = N"
    unfolding numer_def N_def by (subst unat_push32_or) (simp_all add: unat_u32_bound)
  have v: "unat vw = v" "0 < v" "v < base32"
    using assms(2) unat_u32_bound [of "vn ! (length vn - 1)"] by (simp_all add: vw_def v_def unat_gt_0)
  have q0: "unat (numer div vw) = N div v" "unat (numer mod vw) = N mod v"
    by (simp_all add: unat_div unat_mod N v)
  have "unat qhat < base32 \<and> unat qhat * v + unat rhat = N \<and> (Q < base32 \<longrightarrow> Q \<le> N div v \<longrightarrow> Q \<le> unat qhat)"
  proof (cases "base32 \<le> N div v")
    case False
    then have "qhat = numer div vw" "rhat = numer mod vw"
      using assms(1) base32_le_u64 [of "numer div vw"] q0(1)
      by (auto simp: knuth_estimate_def Let_def numer_def vw_def)
    with False q0 show ?thesis by simp
  next
    case True
    then have res: "qhat = 0x100000000 - 1" "rhat = numer - (0x100000000 - 1) * vw"
      using assms(1) base32_le_u64 [of "numer div vw"] q0(1)
      by (auto simp: knuth_estimate_def Let_def numer_def vw_def)
    have q: "unat qhat = base32 - 1" by (simp add: res base32_def)
    have "(base32 - 1) * v < base32 * base32"
      using v(3) by (intro mult_strict_mono) simp_all
    then have prod: "unat (qhat * vw) = (base32 - 1) * v"
      by (subst unat_mult_u64) (simp_all add: q v)
    have "(base32 - 1) * v \<le> N div v * v" using True by (intro mult_le_mono1) simp
    then have le: "(base32 - 1) * v \<le> N" using div_times_less_eq_dividend [of N v] by linarith
    then have "unat rhat = N - (base32 - 1) * v"
      using prod N unfolding res by (subst unat_sub_u64) (simp_all add: word_le_nat_alt res)
    with le q show ?thesis by auto
  qed
  then show "unat qhat < base32" "unat qhat * v + unat rhat = N"
    "Q < base32 \<Longrightarrow> Q \<le> N div v \<Longrightarrow> Q \<le> unat qhat" by blast+
qed

section \<open>One digit\<close>

lemma limbs_val_div_Suc:
  assumes "k < length xs"
  shows "limbs_val xs div base32 ^ k = unat (xs ! k) + base32 * (limbs_val xs div base32 ^ Suc k)"
  using assms limbs_val_div [of k xs] limbs_val_div [of "Suc k" xs]
  by (simp add: Cons_nth_drop_Suc [symmetric])

text \<open>The estimate after correction is the digit or one more.\<close>

definition knuth_trial :: "limbs \<Rightarrow> limbs \<Rightarrow> nat \<Rightarrow> u64" where
  "knuth_trial vn un j =
     (case knuth_estimate vn un j of (qhat, rhat) \<Rightarrow>
        fst (knuth_adjust (vn ! (length vn - 1)) (vn ! (length vn - 2)) (un ! (j + length vn - 2)) qhat rhat))"

lemma knuth_trial_bounds:
  fixes vn un :: limbs and j :: nat
  assumes len: "2 \<le> length vn" "j + length vn < length un" and top: "vn ! (length vn - 1) \<noteq> 0"
    and lt: "limbs_val un < limbs_val vn * base32 ^ Suc j"
    and ex: "knuth_step_exact vn un j"
  defines "Q \<equiv> limbs_val un div base32 ^ j div limbs_val vn"
  shows "Q \<le> unat (knuth_trial vn un j)" "unat (knuth_trial vn un j) \<le> Q + 1"
    "unat (knuth_trial vn un j) < base32"
proof -
  define n where "n = length vn - 2"
  have n: "length vn = n + 2" "length vn - 1 = n + 1" "length vn - 2 = n"
    "j + length vn = j + n + 2" "j + length vn - 1 = j + n + 1" "j + length vn - 2 = j + n"
    using len(1) by (simp_all add: n_def)
  define U V where "U = limbs_val un div base32 ^ j" and "V = limbs_val vn"
  define u0 u1 u2 v1 v2 where "u0 = un ! (j + n + 2)" and "u1 = un ! (j + n + 1)" and "u2 = un ! (j + n)"
    and "v1 = vn ! (n + 1)" and "v2 = vn ! n"
  have Vb: "V < base32 ^ (n + 2)"
    using limbs_val_bound [of vn] by (simp add: V_def n(1))
  have "limbs_val un < base32 ^ (n + 2) * base32 ^ Suc j"
    using lt Vb by (simp add: V_def) (meson less_imp_le mult_le_mono1 order_less_le_trans)
  then have unb: "limbs_val un < base32 ^ (j + n + 3)"
    by (simp add: power_add algebra_simps numeral_3_eq_3)
  have d3: "limbs_val un div base32 ^ (j + n + 3) = 0" using unb by simp
  have U1: "U div base32 ^ (n + 1) = unat u1 + base32 * unat u0"
    using limbs_val_div_Suc [of "j + n + 1" un] limbs_val_div_Suc [of "j + n + 2" un] len(2) d3
    by (simp add: U_def n u0_def u1_def power_add div_mult2_eq [symmetric] numeral_3_eq_3 algebra_simps)
  have U2: "U div base32 ^ n = unat u2 + base32 * (unat u1 + base32 * unat u0)"
    using limbs_val_div_Suc [of "j + n" un] U1 len(2)
    by (simp add: U_def n u2_def power_add div_mult2_eq [symmetric] algebra_simps)
  have V1: "V div base32 ^ (n + 1) = unat v1"
    using limbs_val_div_Suc [of "n + 1" vn] Vb by (simp add: V_def n v1_def)
  have V2: "V div base32 ^ n = unat v2 + base32 * unat v1"
    using limbs_val_div_Suc [of n vn] V1 by (simp add: V_def n v2_def)
  have v1: "unat v1 \<noteq> 0" using top by (simp add: v1_def n unat_eq_zero)
  then have Vlow: "base32 ^ (n + 1) \<le> V"
    using V1 by (metis div_less not_le)
  then have V0: "0 < V" by (metis base32_pos(1) gr0I not_le zero_less_power)
  have QV: "Q * V \<le> U" by (simp add: Q_def U_def V_def div_times_less_eq_dividend)
  have QB: "Q < base32"
  proof -
    have "limbs_val un < base32 ^ j * (base32 * V)"
      using lt by (simp add: V_def algebra_simps)
    then have "U < base32 * V"
      unfolding U_def by (simp add: div_less_iff_less_mult mult.commute)
    then show ?thesis by (simp add: Q_def U_def V_def div_less_iff_less_mult V0 [unfolded V_def])
  qed
  define N where "N = unat u0 * base32 + unat u1"
  obtain qhat rhat where est: "knuth_estimate vn un j = (qhat, rhat)" by force
  have "Q * unat v1 \<le> N"
    using estimate_mono [OF QV, of "base32 ^ (n + 1)"] V1 U1 by (simp add: N_def algebra_simps)
  then have "Q \<le> N div unat v1" using v1 by (simp add: less_eq_div_iff_mult_less_eq)
  then have q: "unat qhat < base32" "unat qhat * unat v1 + unat rhat = N" "Q \<le> unat qhat"
    using knuth_estimate_val(1,2) [OF est top] knuth_estimate_val(3) [OF est top QB] by (simp_all add: N_def n u0_def u1_def v1_def)
  have U3: "U div base32 ^ n = N * base32 + unat u2" and V2': "V div base32 ^ n = unat v1 * base32 + unat v2"
    using U2 V2 by (simp_all add: N_def algebra_simps)
  obtain q' r' where adj: "knuth_adjust v1 v2 u2 qhat rhat = (q', r')" by force
  then have trial: "knuth_trial vn un j = q'"
    using est by (simp add: knuth_trial_def n v1_def v2_def u2_def)
  have refine: "Q < x" if "N * base32 + unat u2 < x * (unat v1 * base32 + unat v2)" for x
  proof (rule ccontr)
    assume "\<not> Q < x"
    then have "x * V \<le> Q * V" by simp
    with QV have "x * V \<le> U" by linarith
    from estimate_mono [OF this, of "base32 ^ n"] that show False
      by (simp add: U3 V2')
  qed
  have main: "Q \<le> unat q' \<and> unat q' < base32 \<and> unat q' * (unat v1 * base32 + unat v2) \<le> N * base32 + unat u2"
  proof (cases "unat rhat < base32")
    case True
    from knuth_adjust_inv [OF adj q(1) True q(2,3) refine] show ?thesis by simp
  next
    case False
    then have "\<not> qhat * ucast v2 > (push_bit 32 rhat OR ucast u2)"
      using ex est by (simp add: knuth_step_exact_def n v2_def u2_def less_base32_u64)
    then have "q' = qhat" using adj by (subst (asm) knuth_adjust.simps) simp
    have "unat qhat * unat v2 \<le> base32 * base32"
      using q(1) unat_u32_bound [of v2] by (intro mult_le_mono) simp_all
    moreover have "base32 * base32 \<le> unat rhat * base32" using False by (intro mult_le_mono1) simp
    moreover have "N * base32 = unat qhat * (unat v1 * base32) + unat rhat * base32"
      by (simp add: algebra_simps flip: q(2))
    ultimately have "unat qhat * (unat v1 * base32 + unat v2) \<le> N * base32 + unat u2"
      unfolding add_mult_distrib2 by linarith
    then show ?thesis using q \<open>q' = qhat\<close> by simp
  qed
  show "Q \<le> unat (knuth_trial vn un j)" "unat (knuth_trial vn un j) < base32"
    using main by (simp_all add: trial)
  have "unat q' * base32 ^ n \<le> base32 * base32 ^ n"
    using main by (intro mult_le_mono1) simp
  then have "unat q' * base32 ^ n \<le> V" using Vlow by (simp only: Suc_eq_plus1 [symmetric] power_Suc)
  moreover have "unat q' * (V div base32 ^ n) \<le> U div base32 ^ n"
    using main by (simp add: U3 V2')
  ultimately have "unat q' \<le> U div V + 1"
    using V0 by (intro estimate_close [where P = "base32 ^ n"]) simp_all
  then show "unat (knuth_trial vn un j) \<le> Q + 1"
    by (simp add: trial Q_def U_def V_def)
qed

text \<open>Writing the top limb of the window, in 64-bit arithmetic truncated to 32 bits.\<close>

lemma top_limb_sub:
  fixes x :: u32 and k :: u64
  assumes "unat k < base32"
  shows "unat (ucast (ucast x - k) :: u32) + unat k = unat x + (if ucast x < k then base32 else 0)"
proof (cases "ucast x < k")
  case False
  then have "unat (ucast x - k) = unat x - unat k" and "unat k \<le> unat x"
    by (simp_all add: unat_sub word_le_nat_alt not_less)
  moreover have "unat x - unat k < base32" using unat_u32_bound [of x] by linarith
  ultimately show ?thesis using False by simp
next
  case True
  then have lt: "unat x < unat k" by (simp add: word_less_nat_alt)
  define y d where "y = ucast x - k" and "d = k - ucast x"
  have d: "unat d = unat k - unat x"
    using lt unfolding d_def by (subst unat_sub_u64) (simp_all add: word_le_nat_alt)
  have "(unat y + unat d) mod (base32 * base32) = unat (y + d)"
    by (simp add: unat_word_ariths base32_sq)
  also have "\<dots> = 0" by (simp add: y_def d_def)
  finally have z: "(unat y + unat d) mod (base32 * base32) = 0" .
  have "base32 * base32 \<le> unat y + unat d"
    using z d lt by (metis add_is_0 mod_less not_less zero_less_diff less_numeral_extra(3))
  moreover have "unat y + unat d - base32 * base32 < base32 * base32"
    using unat_u64_bound [of y] unat_u64_bound [of d] by linarith
  ultimately have "unat y + unat d = base32 * base32"
    using z by (simp add: le_mod_geq)
  then have u: "unat (ucast x - k) = base32 * base32 - (unat k - unat x)"
    using d by (simp add: y_def)
  have "base32 * base32 - (unat k - unat x) = (base32 - (unat k - unat x)) + base32 * (base32 - 1)"
    using assms lt by (simp add: algebra_simps base32_def)
  then have "unat (ucast (ucast x - k) :: u32) = (base32 - (unat k - unat x)) mod base32"
    by (simp add: u)
  also have "\<dots> = base32 - (unat k - unat x)" using lt assms by simp
  finally show ?thesis using True lt assms by simp
qed

lemma limbs_below:
  assumes "drop k xs = drop k ys" "limbs_val ys < base32 ^ k"
  shows "limbs_val xs < base32 ^ k"
proof -
  have "limbs_val (drop k ys) = 0" using assms(2) by (simp add: limbs_val_div)
  with assms(1) have "limbs_val xs div base32 ^ k = 0" using limbs_val_div [of k xs] by simp
  then show ?thesis by (simp add: div_eq_0_iff)
qed

lemma mulsub_borrow:
  assumes "j + length vn < length un" "unat qhat < base32" "limbs_val un < base32 ^ (j + length vn + 1)"
    and "mulsub_loop vn un j qhat (length vn) = (un1, k)"
  defines "un2 \<equiv> un1[j + length vn := ucast (ucast (un1 ! (j + length vn)) - k)]"
  shows "length un2 = length un" "drop (j + length vn + 1) un2 = drop (j + length vn + 1) un"
    and "limbs_val un2 < base32 ^ (j + length vn + 1)"
    and "limbs_val un2 + base32 ^ j * (unat qhat * limbs_val vn) = limbs_val un +
      (if ucast (un1 ! (j + length vn)) < k then base32 ^ (j + length vn + 1) else 0)"
proof -
  let ?t = "j + length vn"
  have inv: "length un1 = length un" "unat k < base32" "drop ?t un1 = drop ?t un"
    "limbs_val un1 + base32 ^ j * (unat qhat * limbs_val vn) = limbs_val un + base32 ^ ?t * unat k"
    using mulsub_loop_inv [OF order_refl assms(1,2,4)] by simp_all
  show len: "length un2 = length un" using inv(1) by (simp add: un2_def)
  show dr: "drop (?t + 1) un2 = drop (?t + 1) un"
    using arg_cong [OF inv(3), of "drop 1"] by (simp add: un2_def drop_update_cancel)
  show "limbs_val un2 < base32 ^ (?t + 1)" by (rule limbs_below [OF dr assms(3)])
  have upd: "limbs_val un2 + base32 ^ ?t * unat (un1 ! ?t)
      = limbs_val un1 + base32 ^ ?t * unat (ucast (ucast (un1 ! ?t) - k) :: u32)"
    unfolding un2_def using assms(1) inv(1) by (intro limbs_val_update) simp
  have "base32 ^ ?t * unat (ucast (ucast (un1 ! ?t) - k) :: u32) + base32 ^ ?t * unat k
      = base32 ^ ?t * unat (un1 ! ?t) + (if ucast (un1 ! ?t) < k then base32 ^ (?t + 1) else 0)"
    using arg_cong [OF top_limb_sub [OF inv(2), of "un1 ! ?t"], of "\<lambda>x. base32 ^ ?t * x"]
    by (auto simp: algebra_simps)
  with upd inv(4) show "limbs_val un2 + base32 ^ j * (unat qhat * limbs_val vn) = limbs_val un +
      (if ucast (un1 ! ?t) < k then base32 ^ (?t + 1) else 0)"
    by linarith
qed

text \<open>Adding back wraps around at the top of the window exactly when the result needs it.\<close>

lemma addback_wrap:
  assumes "j + length vn < length un" "limbs_val un < base32 ^ (j + length vn + 1)"
    and "base32 ^ (j + length vn + 1) \<le> limbs_val un + base32 ^ j * limbs_val vn"
    and "addback_loop vn un j (length vn) = (un1, c)"
  defines "un2 \<equiv> un1[j + length vn := ucast (ucast (un1 ! (j + length vn)) + c)]"
  shows "length un2 = length un"
    and "limbs_val un2 + base32 ^ (j + length vn + 1) = limbs_val un + base32 ^ j * limbs_val vn"
proof -
  let ?t = "j + length vn"
  have inv: "length un1 = length un" "unat c \<le> 1" "drop ?t un1 = drop ?t un"
    "limbs_val un1 + base32 ^ ?t * unat c = limbs_val un + base32 ^ j * limbs_val vn"
    using addback_loop_inv [OF order_refl assms(1,4)] by simp_all
  show "length un2 = length un" using inv(1) by (simp add: un2_def)
  have dr: "drop (?t + 1) un2 = drop (?t + 1) un"
    using arg_cong [OF inv(3), of "drop 1"] by (simp add: un2_def drop_update_cancel)
  have lt: "limbs_val un2 < base32 ^ (?t + 1)" by (rule limbs_below [OF dr assms(2)])
  define x where "x = unat (un1 ! ?t)"
  have x: "x < base32" by (simp add: x_def unat_u32_bound)
  have "x + unat c < base32 * base32"
  proof -
    have "base32 + 1 \<le> base32 * base32" by (simp add: base32_def)
    then show ?thesis using x inv(2) by linarith
  qed
  then have s: "unat (ucast (ucast (un1 ! ?t) + c) :: u32) = (x + unat c) mod base32"
    by (simp add: unat_add_u64 x_def)
  have upd: "limbs_val un2 + base32 ^ ?t * x = limbs_val un1 + base32 ^ ?t * ((x + unat c) mod base32)"
    unfolding un2_def x_def s [symmetric, unfolded x_def] using assms(1) inv(1)
    by (intro limbs_val_update) simp
  have split: "base32 ^ ?t * x + base32 ^ ?t * unat c
      = base32 ^ ?t * ((x + unat c) mod base32) + base32 ^ (?t + 1) * ((x + unat c) div base32)"
    using carry_split [of ?t "x + unat c"] by (simp add: algebra_simps)
  have tot: "limbs_val un2 + base32 ^ (?t + 1) * ((x + unat c) div base32) = limbs_val un + base32 ^ j * limbs_val vn"
    using upd split inv(4) by linarith
  have "(x + unat c) div base32 \<noteq> 0" using tot lt assms(3) by (metis add_0_right mult_0_right not_le)
  moreover have "(x + unat c) div base32 < 2"
    using x inv(2) by (intro less_mult_imp_div_less) simp
  ultimately have "(x + unat c) div base32 = 1" by linarith
  with tot show "limbs_val un2 + base32 ^ (?t + 1) = limbs_val un + base32 ^ j * limbs_val vn" by simp
qed

lemma digit_bounds:
  fixes q :: nat
  assumes "lo < B" "U = Q * V + R" "R < V" "0 < B"
  shows "B * (q * V) \<le> lo + B * U \<longleftrightarrow> q \<le> Q" and "lo + B * R < V * B"
proof -
  show "B * (q * V) \<le> lo + B * U \<longleftrightarrow> q \<le> Q"
  proof (cases "q \<le> Q")
    case True
    then have "q * V \<le> Q * V" by (rule mult_le_mono1)
    then have "q * V \<le> U" using assms(2) by linarith
    then have "B * (q * V) \<le> B * U" by (rule mult_le_mono2)
    then have "B * (q * V) \<le> lo + B * U" by linarith
    with True show ?thesis by blast
  next
    case False
    then have "Suc Q * V \<le> q * V" by (intro mult_le_mono1) simp
    then have "U < q * V" using assms(2,3) by simp
    then have "lo + B * U < 0 + B * (q * V)" by (rule scaled_less [OF assms(1)])
    then have "\<not> B * (q * V) \<le> lo + B * U" by linarith
    with False show ?thesis by blast
  qed
  have "lo + B * R < 0 + B * V" by (rule scaled_less [OF assms(1,3)])
  then show "lo + B * R < V * B" by (simp add: mult.commute)
qed

lemma knuth_step_val:
  assumes len: "2 \<le> length vn" "j + length vn < length un" and top: "vn ! (length vn - 1) \<noteq> 0"
    and lt: "limbs_val un < limbs_val vn * base32 ^ Suc j"
    and ex: "knuth_step_exact vn un j"
    and st: "knuth_step vn un j = (un', d)"
  shows "length un' = length un" "limbs_val un' + limbs_val vn * base32 ^ j * unat d = limbs_val un"
    "limbs_val un' < limbs_val vn * base32 ^ j"
proof -
  let ?t = "j + length vn" and ?V = "limbs_val vn" and ?B = "base32 ^ j"
  define Q where "Q = limbs_val un div ?B div ?V"
  define qhat where "qhat = knuth_trial vn un j"
  have q: "Q \<le> unat qhat" "unat qhat \<le> Q + 1" "unat qhat < base32"
    using knuth_trial_bounds [OF len top lt ex] by (simp_all add: Q_def qhat_def)
  have V: "0 < ?V" using lt by (cases "?V = 0") simp_all
  have un: "limbs_val un = limbs_val un mod ?B + ?B * (limbs_val un div ?B)" by simp
  note dig = digit_bounds [of "limbs_val un mod ?B" ?B "limbs_val un div ?B" Q ?V "limbs_val un div ?B mod ?V"]
  have fit: "?B * (x * ?V) \<le> limbs_val un \<longleftrightarrow> x \<le> Q" for x
    using dig(1) [of x] V by (simp add: Q_def)
  have small: "limbs_val un - ?B * (Q * ?V) < ?V * ?B"
  proof -
    have "limbs_val un div ?B = Q * ?V + limbs_val un div ?B mod ?V" by (simp add: Q_def)
    then have "limbs_val un = limbs_val un mod ?B + ?B * (Q * ?V) + ?B * (limbs_val un div ?B mod ?V)"
      using un by (metis add.assoc add_mult_distrib2)
    then show ?thesis using dig(2) V by (simp add: Q_def)
  qed
  have vb: "?V * base32 ^ Suc j \<le> base32 ^ (?t + 1)"
    using limbs_val_bound [of vn] by (simp add: power_add)
  obtain un1 k where ms: "mulsub_loop vn un j qhat (length vn) = (un1, k)" by force
  define un2 where "un2 = un1[?t := ucast (ucast (un1 ! ?t) - k)]"
  note sub = mulsub_borrow [OF len(2) q(3) order_less_le_trans [OF lt vb] ms, folded un2_def]
  obtain e r where est: "knuth_estimate vn un j = (e, r)" by force
  obtain r' where adj: "knuth_adjust (vn ! (length vn - 1)) (vn ! (length vn - 2)) (un ! (?t - 2)) e r = (qhat, r')"
    using est by (cases "knuth_adjust (vn ! (length vn - 1)) (vn ! (length vn - 2)) (un ! (?t - 2)) e r")
      (simp add: qhat_def knuth_trial_def)
  have goal: "length un' = length un \<and> limbs_val un' + ?B * (Q * ?V) = limbs_val un \<and> unat d = Q"
  proof (cases "ucast (un1 ! ?t) < k")
    case False
    have "limbs_val un2 + ?B * (unat qhat * ?V) = limbs_val un" using sub(4) False by simp
    then have "unat qhat = Q" using fit [of "unat qhat"] q(1) by linarith
    moreover have "un' = un2" "d = ucast qhat"
      using st est adj ms False len(1) by (simp_all add: knuth_step_def Let_def un2_def)
    ultimately show ?thesis using sub(1,4) False q(3) by simp
  next
    case True
    have val: "limbs_val un2 + ?B * (unat qhat * ?V) = limbs_val un + base32 ^ (?t + 1)"
      using sub(4) True by simp
    then have "\<not> ?B * (unat qhat * ?V) \<le> limbs_val un" using sub(3) by linarith
    then have qQ: "unat qhat = Q + 1" using fit [of "unat qhat"] q(2) by linarith
    have exp: "?B * (unat qhat * ?V) = ?B * (Q * ?V) + ?B * ?V" by (simp add: qQ algebra_simps)
    have "?B * (Q * ?V) \<le> limbs_val un" using fit [of Q] by simp
    then have wrap: "base32 ^ (?t + 1) \<le> limbs_val un2 + ?B * ?V" using val exp by linarith
    obtain un3 c where ab: "addback_loop vn un2 j (length vn) = (un3, c)" by force
    have len2: "?t < length un2" using sub(1) len(2) by simp
    note wrapped = addback_wrap [OF len2 sub(3) wrap ab]
    have res: "un' = un3[?t := ucast (ucast (un3 ! ?t) + c)]" "d = ucast (qhat - 1)"
      using st est adj ms ab True len(1) by (simp_all add: knuth_step_def Let_def un2_def)
    have "unat (qhat - 1) = Q" using qQ by (metis add_diff_cancel_right' unat_1 unat_minus_one unat_eq_zero
          Suc_eq_plus1 nat.distinct(1) One_nat_def)
    then show ?thesis using wrapped sub(1) val exp q(3) qQ by (simp add: res)
  qed
  then show "length un' = length un" "limbs_val un' + ?V * ?B * unat d = limbs_val un"
    by (simp_all add: algebra_simps)
  show "limbs_val un' < ?V * ?B" using goal small by linarith
qed

section \<open>All digits\<close>

lemma knuth_loop_val:
  assumes len: "2 \<le> length vn" "length un = m + length vn + 1" and top: "vn ! (length vn - 1) \<noteq> 0"
    and lt: "limbs_val un < limbs_val vn * base32 ^ Suc m"
  shows "k \<le> Suc m \<Longrightarrow> knuth_exact vn un m k \<Longrightarrow> knuth_loop vn un m k = (un', q) \<Longrightarrow>
    length un' = length un \<and> length q = k \<and>
    limbs_val un' + limbs_val vn * base32 ^ (Suc m - k) * limbs_val q = limbs_val un \<and>
    limbs_val un' < limbs_val vn * base32 ^ (Suc m - k)"
proof (induction k arbitrary: un' q)
  case 0
  then show ?case using lt by simp
next
  case (Suc k)
  obtain u0 q0 where st: "knuth_loop vn un m k = (u0, q0)" by force
  obtain d where step: "knuth_step vn u0 (m - k) = (un', d)" and q: "q = d # q0"
    using Suc.prems(3) st by (auto split: prod.splits)
  have j: "Suc m - k = Suc (m - k)" "Suc m - Suc k = m - k" using Suc.prems(1) by simp_all
  have ex: "knuth_exact vn un m k" "knuth_step_exact vn u0 (m - k)"
    using Suc.prems(2) st by (simp_all add: knuth_exact_def)
  have inv: "length u0 = length un" "length q0 = k"
    "limbs_val u0 + limbs_val vn * base32 ^ Suc (m - k) * limbs_val q0 = limbs_val un"
    "limbs_val u0 < limbs_val vn * base32 ^ Suc (m - k)"
    using Suc.IH [OF _ ex(1) st] Suc.prems(1) j by simp_all
  have "m - k + length vn < length u0" using inv(1) len(2) by simp
  note res = knuth_step_val [OF len(1) this top inv(4) ex(2) step]
  have "limbs_val vn * base32 ^ (m - k) * limbs_val q
      = limbs_val vn * base32 ^ (m - k) * unat d + limbs_val vn * base32 ^ Suc (m - k) * limbs_val q0"
    by (simp add: q algebra_simps)
  with res inv show ?case by (simp add: q j)
qed

end
