(* ===== verification/Bigint_Bits.thy ===== *)
theory Bigint_Bits
  imports Bigint_Shift
begin

unbundle bit_operations_syntax

text \<open>
  The two's complement views of \<^verbatim>\<open>src/modules/bigint.c\<close>: limbs of a signed number on
  demand, the limbwise loop of the binary operators, and the way back to sign and
  magnitude. The operators share one contract, the locale \<open>limb_op\<close>: a word
  operation and an integer operation that act on each bit by the same truth table.
\<close>

section \<open>Two's complement limbs\<close>

text \<open>The limb at \<open>index\<close> and the carry left in \<^verbatim>\<open>*carry\<close>.\<close>

definition bigint_twos_complement_limb :: "limbs \<Rightarrow> bool \<Rightarrow> nat \<Rightarrow> u64 \<Rightarrow> u32 \<times> u64" where
  "bigint_twos_complement_limb limbs negative index carry =
     (let limb = limb_at limbs index
      in if \<not> negative then (limb, carry)
         else (let cur = ucast (NOT limb) + carry in (ucast cur, drop_bit 32 cur)))"

text \<open>The limbs a loop over \<open>0, 1, \<dots>\<close> has read after \<open>i\<close> calls, from a carry of 1.\<close>

primrec twos_complement_loop :: "limbs \<Rightarrow> bool \<Rightarrow> nat \<Rightarrow> limbs \<times> u64" where
  "twos_complement_loop limbs negative 0 = ([], 1)"
| "twos_complement_loop limbs negative (Suc i) =
     (case twos_complement_loop limbs negative i of (res, carry) \<Rightarrow>
       case bigint_twos_complement_limb limbs negative i carry of (limb, carry) \<Rightarrow>
         (res @ [limb], carry))"

text \<open>The negation loop of \<^verbatim>\<open>bigint_twos_complement_to_magnitude\<close> after \<open>i\<close> iterations.\<close>

primrec negate_limbs_loop :: "limbs \<Rightarrow> nat \<Rightarrow> limbs \<times> u64" where
  "negate_limbs_loop limbs 0 = ([], 1)"
| "negate_limbs_loop limbs (Suc i) =
     (case negate_limbs_loop limbs i of (res, carry) \<Rightarrow>
       let cur = ucast (NOT (limbs ! i)) + carry
       in (res @ [ucast cur], drop_bit 32 cur))"

definition bigint_twos_complement_to_magnitude :: "limbs \<Rightarrow> nat \<Rightarrow> limbs \<times> nat \<times> bool" where
  "bigint_twos_complement_to_magnitude limbs width =
     (let width = (if width = 0 then 1 else width);
          negative = (limbs ! (width - 1) AND 0x80000000 \<noteq> 0);
          limbs = (if negative then fst (negate_limbs_loop limbs width) else limbs);
          n = bigint_normalize_limbs limbs width;
          negative = (if n = 1 \<and> limbs ! 0 = 0 then False else negative)
      in (limbs, n, negative))"

lemma not_plus_carry:
  fixes x :: u32 and c :: u64
  assumes "unat c \<le> 1"
  defines "cur \<equiv> ucast (NOT x) + c"
  shows "unat (ucast cur :: u32) + base32 * unat (drop_bit 32 cur) + unat x + 1 = base32 + unat c"
    and "unat (drop_bit 32 cur) \<le> 1"
proof -
  have x: "unat x < base32" by (rule unat_u32_bound)
  have two: "2 * base32 \<le> base32 * base32"
    by (simp add: base32_def)
  have "base32 - 1 - unat x + unat c < base32 * base32"
    using assms(1) x two by linarith
  then have cur: "unat cur = base32 - 1 - unat x + unat c"
    unfolding cur_def by (subst unat_add_u64) (simp_all add: unat_not_u32)
  have "unat (ucast cur :: u32) + base32 * unat (drop_bit 32 cur) = unat cur"
    by simp
  with cur x show "unat (ucast cur :: u32) + base32 * unat (drop_bit 32 cur) + unat x + 1
      = base32 + unat c"
    by linarith
  have "unat cur < 2 * base32"
    using cur assms(1) x by linarith
  then show "unat (drop_bit 32 cur) \<le> 1"
    using less_mult_imp_div_less [of "unat cur" 2 base32] by simp
qed

lemma negate_limbs_loop_inv:
  "i \<le> length xs \<Longrightarrow> negate_limbs_loop xs i = (r, c) \<Longrightarrow>
   length r = i \<and> unat c \<le> 1 \<and>
   limbs_val r + base32 ^ i * unat c + limbs_val (take i xs) = base32 ^ i"
proof (induction i arbitrary: r c)
  case 0
  then show ?case by simp
next
  case (Suc i)
  obtain r0 c0 where st: "negate_limbs_loop xs i = (r0, c0)"
    by (cases "negate_limbs_loop xs i")
  have len: "length r0 = i" and c0: "unat c0 \<le> 1"
    and val: "limbs_val r0 + base32 ^ i * unat c0 + limbs_val (take i xs) = base32 ^ i"
    using Suc.IH [OF _ st] Suc.prems(1) by simp_all
  define cur where "cur = ucast (NOT (xs ! i)) + c0"
  define l :: u32 where "l = ucast cur"
  have r: "r = r0 @ [l]" and c: "c = drop_bit 32 cur"
    using Suc.prems(2) st by (auto simp: Let_def cur_def l_def)
  have step: "unat l + base32 * unat c + unat (xs ! i) + 1 = base32 + unat c0" "unat c \<le> 1"
    unfolding c l_def cur_def by (rule not_plus_carry [OF c0])+
  have "base32 ^ i * unat l + base32 ^ Suc i * unat c + base32 ^ i * unat (xs ! i) + base32 ^ i
      = base32 ^ Suc i + base32 ^ i * unat c0"
    using arg_cong [OF step(1), of "\<lambda>t. base32 ^ i * t"] by (simp add: algebra_simps)
  with val have "limbs_val r + base32 ^ Suc i * unat c + limbs_val (take (Suc i) xs) = base32 ^ Suc i"
    using len Suc.prems(1) by (simp add: r limbs_val_snoc limbs_val_take_Suc limb_at_def)
  with len r step(2) show ?case by simp
qed

text \<open>Reading past the array is reading zero limbs, so one loop serves both directions.\<close>

lemma twos_complement_loop_pos:
  "twos_complement_loop xs False i = (map (limb_at xs) [0..<i], 1)"
  by (induction i) (simp_all add: bigint_twos_complement_limb_def)

lemma twos_complement_loop_neg:
  "i \<le> w \<Longrightarrow> twos_complement_loop xs True i = negate_limbs_loop (map (limb_at xs) [0..<w]) i"
  by (induction i) (simp_all add: bigint_twos_complement_limb_def Let_def)

lemma limbs_val_map_limb_at: "limbs_val (map (limb_at xs) [0..<w]) = limbs_val (take w xs)"
  by (induction w) (simp_all add: limbs_val_append limbs_val_take_Suc)

text \<open>\<open>w\<close> limbs of a sign and magnitude are its residue modulo \<open>base32 ^ w\<close>.\<close>

definition signed_mag :: "bool \<Rightarrow> limbs \<Rightarrow> int" where
  "signed_mag neg xs = (if neg then - int (limbs_val xs) else int (limbs_val xs))"

lemma twos_complement_loop_val:
  fixes w :: nat
  assumes "limbs_val xs < base32 ^ w"
  shows "length (fst (twos_complement_loop xs neg w)) = w"
    and "int (limbs_val (fst (twos_complement_loop xs neg w))) = take_bit (32 * w) (signed_mag neg xs)"
proof -
  have v: "limbs_val (map (limb_at xs) [0..<w]) = limbs_val xs"
    using assms by (simp add: limbs_val_map_limb_at limbs_val_take_eq)
  have B: "int (base32 ^ w) = 2 ^ (32 * w)"
    by (simp add: base32_power)
  show "length (fst (twos_complement_loop xs neg w)) = w"
    using negate_limbs_loop_inv [of w "map (limb_at xs) [0..<w]"]
    by (cases neg; cases "negate_limbs_loop (map (limb_at xs) [0..<w]) w")
      (simp_all add: twos_complement_loop_pos twos_complement_loop_neg [OF order_refl])
  show "int (limbs_val (fst (twos_complement_loop xs neg w))) = take_bit (32 * w) (signed_mag neg xs)"
  proof (cases neg)
    case False
    have "int (limbs_val xs) < 2 ^ (32 * w)"
      using assms B by linarith
    with False v show ?thesis
      by (simp add: twos_complement_loop_pos signed_mag_def take_bit_int_eq_self)
  next
    case True
    obtain r c where st: "negate_limbs_loop (map (limb_at xs) [0..<w]) w = (r, c)"
      by (cases "negate_limbs_loop (map (limb_at xs) [0..<w]) w")
    have inv: "length r = w" "limbs_val r + base32 ^ w * unat c + limbs_val xs = base32 ^ w"
      using negate_limbs_loop_inv [OF _ st] v by simp_all
    have "int (limbs_val r) = - int (limbs_val xs) + (1 - int (unat c)) * 2 ^ (32 * w)"
      using arg_cong [OF inv(2), of int] B by (simp add: algebra_simps)
    then have "int (limbs_val r) mod 2 ^ (32 * w) = (- int (limbs_val xs)) mod 2 ^ (32 * w)"
      by (metis mod_mult_self1)
    moreover have "int (limbs_val r) < 2 ^ (32 * w)"
      using limbs_val_bound [of r] inv(1) B by (metis of_nat_less_iff)
    ultimately have "int (limbs_val r) = take_bit (32 * w) (- int (limbs_val xs))"
      by (simp add: take_bit_eq_mod)
    with True st show ?thesis
      by (simp add: signed_mag_def twos_complement_loop_neg [OF order_refl])
  qed
qed

section \<open>Back to sign and magnitude\<close>

lemma top_bit_iff:
  assumes "length xs = w" "0 < w"
  shows "xs ! (w - 1) AND 0x80000000 \<noteq> 0 \<longleftrightarrow> base32 ^ w \<le> 2 * limbs_val xs"
proof -
  define t where "t = unat (xs ! (w - 1))"
  define low where "low = limbs_val (take (w - 1) xs)"
  have val: "limbs_val xs = low + base32 ^ (w - 1) * t"
    using limbs_val_take_Suc [of "w - 1" xs] assms by (simp add: limb_at_def low_def t_def)
  have low: "low < base32 ^ (w - 1)"
    unfolding low_def using assms by (intro limbs_val_less) simp
  have Bw: "base32 ^ w = base32 ^ (w - 1) * base32"
    using assms(2) by (metis power_minus_mult)
  have bit: "xs ! (w - 1) AND 0x80000000 \<noteq> 0 \<longleftrightarrow> bit (xs ! (w - 1)) 31"
    using and_exp_eq_0_iff_not_bit [of "xs ! (w - 1)" 31] by simp
  have "bit (xs ! (w - 1)) 31 \<longleftrightarrow> bit t 31"
    by (simp add: t_def bit_unsigned_iff)
  also have "\<dots> \<longleftrightarrow> odd (t div 2 ^ 31)"
    by (simp only: bit_iff_odd)
  also have "\<dots> \<longleftrightarrow> 2 ^ 31 \<le> t"
  proof -
    have "t < 2 ^ 32" using unat_u32_bound [of "xs ! (w - 1)"] by (simp add: t_def base32_def)
    then have "t div 2 ^ 31 < 2" by (simp add: less_mult_imp_div_less)
    then have "odd (t div 2 ^ 31) \<longleftrightarrow> t div 2 ^ 31 \<noteq> 0"
      by (cases "t div 2 ^ 31") auto
    also have "\<dots> \<longleftrightarrow> 2 ^ 31 \<le> t" by (simp add: div_eq_0_iff not_less)
    finally show ?thesis .
  qed
  also have "\<dots> \<longleftrightarrow> base32 \<le> 2 * t" by (simp add: base32_def)
  also have "\<dots> \<longleftrightarrow> base32 ^ w \<le> 2 * limbs_val xs"
  proof -
    have twice: "2 * limbs_val xs = 2 * low + base32 ^ (w - 1) * (2 * t)"
      by (simp add: val algebra_simps)
    have next_t: "base32 ^ (w - 1) * (2 * Suc t) = base32 ^ (w - 1) * (2 * t) + 2 * base32 ^ (w - 1)"
      by (simp add: algebra_simps)
    show ?thesis
    proof
      assume "base32 \<le> 2 * t"
      then have "base32 ^ (w - 1) * base32 \<le> base32 ^ (w - 1) * (2 * t)"
        by (rule mult_le_mono2)
      with twice Bw show "base32 ^ w \<le> 2 * limbs_val xs" by linarith
    next
      assume le: "base32 ^ w \<le> 2 * limbs_val xs"
      show "base32 \<le> 2 * t"
      proof (rule ccontr)
        assume "\<not> base32 \<le> 2 * t"
        moreover have "even base32" by (simp add: base32_def)
        ultimately have "2 * Suc t \<le> base32" by presburger
        then have "base32 ^ (w - 1) * (2 * Suc t) \<le> base32 ^ (w - 1) * base32"
          by (rule mult_le_mono2)
        with twice next_t low Bw le show False by linarith
      qed
    qed
  qed
  finally show ?thesis using bit by simp
qed

lemma signed_take_bit_limbs:
  assumes "length xs = w" "0 < w"
  shows "signed_take_bit (32 * w - 1) (int (limbs_val xs)) =
    (if xs ! (w - 1) AND 0x80000000 \<noteq> 0 then int (limbs_val xs) - int (base32 ^ w)
     else int (limbs_val xs))"
proof -
  have p: "(2 :: int) * 2 ^ (32 * w - 1) = int (base32 ^ w)"
    using assms(2) by (simp add: base32_power flip: power_Suc)
  have lt: "int (limbs_val xs) < int (base32 ^ w)"
    using limbs_val_bound [of xs] assms(1) by simp
  show ?thesis
  proof (cases "base32 ^ w \<le> 2 * limbs_val xs")
    case True
    then have le: "int (base32 ^ w) \<le> 2 * int (limbs_val xs)"
      by linarith
    have "signed_take_bit (32 * w - 1) (int (limbs_val xs))
        = signed_take_bit (32 * w - 1) (int (limbs_val xs) - int (base32 ^ w))"
    proof (subst signed_take_bit_eq_iff_take_bit_eq)
      have "Suc (32 * w - 1) = 32 * w" using assms(2) by simp
      then show "take_bit (Suc (32 * w - 1)) (int (limbs_val xs)) =
          take_bit (Suc (32 * w - 1)) (int (limbs_val xs) - int (base32 ^ w))"
        by (simp add: take_bit_eq_mod base32_power)
    qed
    also have "\<dots> = int (limbs_val xs) - int (base32 ^ w)"
      using le lt p by (intro signed_take_bit_int_eq_self) linarith+
    finally show ?thesis using top_bit_iff [OF assms] True by simp
  next
    case False
    then have "2 * int (limbs_val xs) < int (base32 ^ w)" by linarith
    then have "signed_take_bit (32 * w - 1) (int (limbs_val xs)) = int (limbs_val xs)"
      using p by (intro signed_take_bit_int_eq_self) linarith+
    then show ?thesis using top_bit_iff [OF assms] False by simp
  qed
qed

lemma to_magnitude_val:
  assumes "bigint_twos_complement_to_magnitude xs w = (r, n, neg)" "length xs = w" "0 < w"
  shows "signed_mag neg (take n r) = signed_take_bit (32 * w - 1) (int (limbs_val xs))"
    and "limbs_norm (take n r)" and "n \<le> length r" and "0 < n" and "length r = w"
    and "take n r = [0] \<Longrightarrow> \<not> neg"
proof -
  define top where "top \<longleftrightarrow> xs ! (w - 1) AND 0x80000000 \<noteq> 0"
  have r: "r = (if top then fst (negate_limbs_loop xs w) else xs)"
    and n: "n = bigint_normalize_limbs r w"
    and neg: "neg \<longleftrightarrow> top \<and> \<not> (n = 1 \<and> r ! 0 = 0)"
    using assms(1,3)
    by (auto simp: bigint_twos_complement_to_magnitude_def Let_def top_def split: if_splits)
  obtain q c where st: "negate_limbs_loop xs w = (q, c)"
    by (cases "negate_limbs_loop xs w")
  have inv: "length q = w" "unat c \<le> 1" "limbs_val q + base32 ^ w * unat c + limbs_val xs = base32 ^ w"
    using negate_limbs_loop_inv [OF _ st] assms(2) by simp_all
  show len: "length r = w"
    using r st inv(1) assms(2) by simp
  show "n \<le> length r" "0 < n"
    using n len assms(3) normalize_le [of r w] normalize_pos [of w r] by simp_all
  show norm: "limbs_norm (take n r)"
    using n len assms(3) by (simp add: limbs_norm_take_normalize)
  have val: "limbs_val (take n r) = limbs_val r"
    using n len by (simp add: normalize_val)
  have mag: "(if top then - int (limbs_val r) else int (limbs_val r))
      = signed_take_bit (32 * w - 1) (int (limbs_val xs))"
  proof (cases top)
    case True
    have "limbs_val xs \<noteq> 0"
    proof -
      have "base32 ^ w \<le> 2 * limbs_val xs"
        using True top_bit_iff [OF assms(2,3)] by (simp add: top_def)
      moreover have "0 < base32 ^ w" by simp
      ultimately show ?thesis by linarith
    qed
    moreover have "unat c = 0 \<or> unat c = 1" using inv(2) by linarith
    ultimately have "limbs_val q + limbs_val xs = base32 ^ w"
      using inv(3) by auto
    then have "- int (limbs_val q) = int (limbs_val xs) - int (base32 ^ w)"
      by linarith
    with True st show ?thesis
      using signed_take_bit_limbs [OF assms(2,3)] by (simp add: r top_def)
  next
    case False
    then show ?thesis
      using signed_take_bit_limbs [OF assms(2,3)] by (simp add: r top_def)
  qed
  have "n = 1 \<and> r ! 0 = 0 \<longleftrightarrow> limbs_val (take n r) = 0"
    using limbs_norm_zero_iff [OF norm] \<open>n \<le> length r\<close> \<open>0 < n\<close>
    by (cases r; cases n) auto
  with mag val neg show "signed_mag neg (take n r) = signed_take_bit (32 * w - 1) (int (limbs_val xs))"
    by (auto simp: signed_mag_def split: if_splits)
  show "\<not> neg" if "take n r = [0]"
    using that neg \<open>n = 1 \<and> r ! 0 = 0 \<longleftrightarrow> limbs_val (take n r) = 0\<close> by simp
qed

lemma signed_mag_fits:
  assumes "int (limbs_val xs) < 2 ^ n"
  shows "signed_take_bit n (signed_mag neg xs) = signed_mag neg xs"
proof (rule signed_take_bit_int_eq_self)
  have "(0 :: int) < 2 ^ n" by simp
  then show "- (2 ^ n) \<le> signed_mag neg xs" "signed_mag neg xs < 2 ^ n"
    using assms by - (cases neg; simp only: signed_mag_def if_True if_False; linarith)+
qed

section \<open>Limbwise operators\<close>

text \<open>
  The contract of a binary operator: on words and on integers the same truth table,
  which is false where both operands are. Then the limbwise loop computes the integer
  operation, whatever the operator is.
\<close>

locale limb_op =
  fixes wop :: "u32 \<Rightarrow> u32 \<Rightarrow> u32"
    and iop :: "int \<Rightarrow> int \<Rightarrow> int"
    and tab :: "bool \<Rightarrow> bool \<Rightarrow> bool"
  assumes wop_bit: "n < 32 \<Longrightarrow> bit (wop x y) n \<longleftrightarrow> tab (bit x n) (bit y n)"
    and iop_bit: "bit (iop k l) n \<longleftrightarrow> tab (bit k n) (bit l n)"
    and tab_false: "\<not> tab False False"
begin

lemma iop_limb: "int (unat (wop x y)) = iop (int (unat x)) (int (unat y))"
proof (rule bit_eqI)
  fix n
  have w: "bit (int (unat z)) n \<longleftrightarrow> bit z n" for z :: u32
    by (simp add: bit_unsigned_iff bit_of_nat_iff_bit)
  have big: "\<not> bit z n" if "\<not> n < 32" for z :: u32
    using that by (auto dest: bit_imp_le_length)
  show "bit (int (unat (wop x y))) n \<longleftrightarrow> bit (iop (int (unat x)) (int (unat y))) n"
    unfolding w iop_bit using wop_bit [of n x y] big tab_false by (cases "n < 32") auto
qed

lemma iop_split:
  fixes k l :: int
  assumes "0 \<le> k" "k < 2 ^ n" "0 \<le> l" "l < 2 ^ n"
  shows "iop (k + 2 ^ n * p) (l + 2 ^ n * q) = iop k l + 2 ^ n * iop p q"
proof -
  have tb: "take_bit n k = k" "take_bit n l = l"
    using assms by (simp_all add: take_bit_int_eq_self)
  have join: "a + 2 ^ n * b = a OR push_bit n b" if "take_bit n a = a" for a b :: int
  proof -
    have "take_bit n a AND push_bit n b = 0"
      by (rule bit_eqI) (auto simp: bit_simps)
    then have "take_bit n a + push_bit n b = take_bit n a OR push_bit n b"
      by (rule disjunctive_add_eq_or)
    with that show ?thesis by (simp add: push_bit_eq_mult mult.commute)
  qed
  have low: "\<not> bit a i" if "take_bit n a = a" "\<not> i < n" for a :: int and i
    using that by (metis bit_take_bit_iff)
  have r: "take_bit n (iop k l) = iop k l"
  proof (rule bit_eqI)
    fix i
    show "bit (take_bit n (iop k l)) i = bit (iop k l) i"
      using low [OF tb(1), of i] low [OF tb(2), of i] tab_false
      by (cases "i < n") (simp_all add: bit_take_bit_iff iop_bit)
  qed
  show ?thesis
    unfolding join [OF tb(1)] join [OF tb(2)] join [OF r]
  proof (rule bit_eqI)
    fix i
    show "bit (iop (k OR push_bit n p) (l OR push_bit n q)) i
        = bit (iop k l OR push_bit n (iop p q)) i"
      using low [OF tb(1), of i] low [OF tb(2), of i] tab_false
      by (cases "i < n") (auto simp: iop_bit bit_or_iff bit_push_bit_iff)
  qed
qed

lemma iop_limbs_val:
  "length xs = length ys \<Longrightarrow>
   int (limbs_val (map2 wop xs ys)) = iop (int (limbs_val xs)) (int (limbs_val ys))"
proof (induction xs ys rule: list_induct2)
  case Nil
  have "iop 0 0 = 0"
    by (rule bit_eqI) (simp add: iop_bit tab_false)
  then show ?case by simp
next
  case (Cons x xs y ys)
  have B: "int base32 = 2 ^ 32" by (simp add: base32_def)
  have bnd: "int (unat z) < 2 ^ 32" for z :: u32
    using unat_u32_bound [of z] B by linarith
  have "int (limbs_val (map2 wop (x # xs) (y # ys)))
      = iop (int (unat x)) (int (unat y)) + 2 ^ 32 * iop (int (limbs_val xs)) (int (limbs_val ys))"
    using Cons.IH by (simp add: iop_limb B del: of_nat_unat)
  also have "\<dots> = iop (int (unat x) + 2 ^ 32 * int (limbs_val xs))
      (int (unat y) + 2 ^ 32 * int (limbs_val ys))"
    by (intro iop_split [symmetric] bnd) simp_all
  finally show ?case
    by (simp add: B del: of_nat_unat)
qed

lemma take_bit_iop: "take_bit n (iop k l) = iop (take_bit n k) (take_bit n l)"
proof (rule bit_eqI)
  fix i
  show "bit (take_bit n (iop k l)) i = bit (iop (take_bit n k) (take_bit n l)) i"
    by (cases "i < n") (simp_all add: bit_take_bit_iff iop_bit tab_false)
qed

lemma signed_take_bit_iop: "signed_take_bit n (iop k l) = iop (signed_take_bit n k) (signed_take_bit n l)"
  by (rule bit_eqI) (simp add: bit_signed_take_bit_iff iop_bit)

text \<open>
  Two numbers that fit in \<open>32 * w - 1\<close> bits: their two's complement limbs, combined
  limb by limb, are the two's complement of the integer result.
\<close>

lemma limbwise_signed:
  fixes xs ys :: limbs and xneg yneg :: bool and w :: nat
  assumes "int (limbs_val xs) < 2 ^ (32 * w - 1)" "int (limbs_val ys) < 2 ^ (32 * w - 1)" "0 < w"
  defines "at \<equiv> fst (twos_complement_loop xs xneg w)"
    and "bt \<equiv> fst (twos_complement_loop ys yneg w)"
  shows "signed_take_bit (32 * w - 1) (int (limbs_val (map2 wop at bt)))
       = iop (signed_mag xneg xs) (signed_mag yneg ys)"
    and "length (map2 wop at bt) = w"
proof -
  have "(2 :: int) ^ (32 * w - 1) \<le> int (base32 ^ w)"
    by (simp add: base32_power)
  then have lt: "limbs_val xs < base32 ^ w" "limbs_val ys < base32 ^ w"
    using assms(1,2) by linarith+
  have len: "length at = w" "length bt = w"
    using twos_complement_loop_val(1) lt by (simp_all add: at_def bt_def)
  then show "length (map2 wop at bt) = w" by simp
  have "int (limbs_val (map2 wop at bt))
      = iop (take_bit (32 * w) (signed_mag xneg xs)) (take_bit (32 * w) (signed_mag yneg ys))"
    using len twos_complement_loop_val(2) lt by (simp add: iop_limbs_val at_def bt_def)
  also have "\<dots> = take_bit (32 * w) (iop (signed_mag xneg xs) (signed_mag yneg ys))"
    by (simp add: take_bit_iop)
  finally have eq: "int (limbs_val (map2 wop at bt))
      = take_bit (32 * w) (iop (signed_mag xneg xs) (signed_mag yneg ys))" .
  have "signed_take_bit (32 * w - 1) (int (limbs_val (map2 wop at bt)))
      = signed_take_bit (32 * w - 1) (iop (signed_mag xneg xs) (signed_mag yneg ys))"
  proof -
    have "\<not> 32 * w \<le> 32 * w - 1" using assms(3) by simp
    then show ?thesis by (simp add: eq signed_take_bit_take_bit)
  qed
  also have "\<dots> = iop (signed_mag xneg xs) (signed_mag yneg ys)"
  proof -
    have "signed_take_bit (32 * w - 1) (signed_mag xneg xs) = signed_mag xneg xs"
      "signed_take_bit (32 * w - 1) (signed_mag yneg ys) = signed_mag yneg ys"
      using assms(1,2) by (simp_all only: signed_mag_fits)
    then show ?thesis by (simp add: signed_take_bit_iop)
  qed
  finally show "signed_take_bit (32 * w - 1) (int (limbs_val (map2 wop at bt)))
      = iop (signed_mag xneg xs) (signed_mag yneg ys)" .
qed

end

interpretation band: limb_op "(AND)" "(AND)" "(\<and>)"
  by unfold_locales (simp_all add: bit_and_iff)

interpretation bor: limb_op "(OR)" "(OR)" "(\<or>)"
  by unfold_locales (simp_all add: bit_or_iff)

interpretation bxor: limb_op "(XOR)" "(XOR)" "(\<noteq>)"
  by unfold_locales (simp_all add: bit_xor_iff)

end
