(* ===== verification/Bigint_Value.thy ===== *)
theory Bigint_Value
  imports Bigint_Bits
begin

unbundle bit_operations_syntax

text \<open>
  BigInt values of \<^verbatim>\<open>src/modules/bigint.c\<close>: a sign and a normalised magnitude, with the
  operations of the runtime on them. Each operation picks a buffer (32 limbs on the
  stack, or a fresh payload on the heap), computes a magnitude in it and normalises.
  The theorems say that the result is the integer the operation means, in the unique
  normal form, or the out-of-memory error, and that the buffer is never overrun.
\<close>

section \<open>The payload\<close>

record bigint =
  bi_sign :: bool
  bi_limbs :: limbs

definition bigint_val :: "bigint \<Rightarrow> int" where
  "bigint_val v = signed_mag (bi_sign v) (bi_limbs v)"

text \<open>What every stored BigInt satisfies: normalised limbs and no negative zero.\<close>

definition bigint_wf :: "bigint \<Rightarrow> bool" where
  "bigint_wf v \<longleftrightarrow> limbs_norm (bi_limbs v) \<and> (bi_limbs v = [0] \<longrightarrow> \<not> bi_sign v)"

definition bigint_is_negative :: "bigint \<Rightarrow> bool" where
  "bigint_is_negative v = bi_sign v"

definition bigint_is_zero :: "bigint \<Rightarrow> bool" where
  "bigint_is_zero v = limbs_is_zero (bi_limbs v) (length (bi_limbs v))"

definition bigint_is_odd :: "bigint \<Rightarrow> bool" where
  "bigint_is_odd v = (bi_limbs v ! 0 AND 1 \<noteq> 0)"

text \<open>The limbs of the stack buffer, \<^verbatim>\<open>BIGINT_LIMB_SIZE\<close>.\<close>

definition stack_limbs :: nat where
  "stack_limbs = 32"

text \<open>\<^verbatim>\<open>sizeof\<close> the payload header is 8 bytes; a limb is 4.\<close>

definition bigint_alloc_payload :: "mem_env \<Rightarrow> nat \<Rightarrow> js_error + unit" where
  "bigint_alloc_payload m capacity =
     (let capacity = (if capacity = 0 then 1 else capacity)
      in if capacity > 2 ^ 32 - 1 then Inl Oom
         else case checked_mul_size capacity 4 of
             None \<Rightarrow> Inl Oom
           | Some limbs_bytes \<Rightarrow>
               (case checked_add_size 8 limbs_bytes of
                  None \<Rightarrow> Inl Oom
                | Some payload_size \<Rightarrow>
                    if alloc_ok m payload_size then Inr () else Inl Oom))"

definition bigint_alloc_binary_payload :: "mem_env \<Rightarrow> nat \<Rightarrow> js_error + unit" where
  "bigint_alloc_binary_payload m capacity =
     (if \<not> push_root_ok m \<or> \<not> push_root_ok m then Inl Oom else bigint_alloc_payload m capacity)"

definition bigint_alloc_unary_payload :: "mem_env \<Rightarrow> nat \<Rightarrow> js_error + unit" where
  "bigint_alloc_unary_payload m capacity =
     (if \<not> push_root_ok m then Inl Oom else bigint_alloc_payload m capacity)"

definition bigint_finish_payload :: "limbs \<Rightarrow> nat \<Rightarrow> bool \<Rightarrow> bigint" where
  "bigint_finish_payload buf count negative =
     (let count = bigint_normalize_limbs buf count;
          negative = (if count = 1 \<and> buf ! 0 = 0 then False else negative)
      in \<lparr>bi_sign = negative, bi_limbs = take count buf\<rparr>)"

definition js_mkbigint_limbs :: "mem_env \<Rightarrow> limbs \<Rightarrow> nat \<Rightarrow> bool \<Rightarrow> js_error + bigint" where
  "js_mkbigint_limbs m limbs count negative =
     (case (if count = 0 then ([0], 1) else (limbs, count)) of (limbs, count) \<Rightarrow>
        let count = bigint_normalize_limbs limbs count
        in bind_err (bigint_alloc_payload m count)
             (\<lambda>_. Inr (bigint_finish_payload (take count limbs) count negative)))"

text \<open>
  The pattern shared by the operations: results of at most 32 limbs are computed on the
  stack and copied to a payload of the right size, larger ones straight into a payload
  allocated (by \<open>alloc\<close>, which protects the operands) before the computation.
\<close>

definition bigint_in_buffer ::
  "mem_env \<Rightarrow> (mem_env \<Rightarrow> nat \<Rightarrow> js_error + unit) \<Rightarrow> nat \<Rightarrow> limbs \<Rightarrow> nat \<Rightarrow> bool \<Rightarrow> js_error + bigint"
where
  "bigint_in_buffer m alloc capacity result rlen rneg =
     (if capacity > stack_limbs then
        bind_err (alloc m capacity) (\<lambda>_.
          if length result > capacity then Inl BufferOverrun
          else Inr (bigint_finish_payload result rlen rneg))
      else if length result > stack_limbs then Inl BufferOverrun
      else js_mkbigint_limbs m result rlen rneg)"

text \<open>
  What an operation that means the integer \<open>z\<close> returns: \<open>z\<close> in normal form, or
  out-of-memory, which needs a failing allocator or a result of \<open>2 ^ 32\<close> limbs or more.
\<close>

definition bigint_returns :: "mem_env \<Rightarrow> nat \<Rightarrow> js_error + bigint \<Rightarrow> int \<Rightarrow> bool" where
  "bigint_returns m capacity out z \<longleftrightarrow>
     (case out of
        Inr r \<Rightarrow> bigint_wf r \<and> bigint_val r = z
      | Inl e \<Rightarrow> e = Oom \<and> \<not> (ample_memory m \<and> capacity < 2 ^ 32))"

lemma bigint_alloc_payload_cases:
  "bigint_alloc_payload m n = Inr () \<or>
   bigint_alloc_payload m n = Inl Oom \<and> \<not> (ample_memory m \<and> n < 2 ^ 32)"
proof (cases "(if n = 0 then 1 else n) > 2 ^ 32 - 1")
  case True
  then show ?thesis
    by (auto simp: bigint_alloc_payload_def split: if_splits)
next
  case False
  define c where "c = (if n = 0 then 1 else n)"
  have c: "c \<noteq> 0" "c < 2 ^ 32"
    using False by (auto simp: c_def)
  have "4 * c \<le> 4 * 2 ^ 32" using c(2) by simp
  then have "4 * c \<le> size_max" "8 \<le> size_max - c * 4"
    by (simp_all add: size_max_def)
  moreover have "4 \<le> size_max div c"
    using c(1) \<open>4 * c \<le> size_max\<close> by (simp add: less_eq_div_iff_mult_less_eq)
  ultimately have "checked_mul_size c 4 = Some (c * 4)" "checked_add_size 8 (c * 4) = Some (8 + c * 4)"
    by (simp_all add: checked_mul_size_def checked_add_size_def)
  then show ?thesis
    using False unfolding c_def [symmetric]
    by (auto simp: bigint_alloc_payload_def Let_def c_def [symmetric])
qed

lemma bigint_alloc_binary_payload_cases:
  "bigint_alloc_binary_payload m n = Inr () \<or>
   bigint_alloc_binary_payload m n = Inl Oom \<and> \<not> (ample_memory m \<and> n < 2 ^ 32)"
  using bigint_alloc_payload_cases [of m n] by (auto simp: bigint_alloc_binary_payload_def)

lemma bigint_alloc_unary_payload_cases:
  "bigint_alloc_unary_payload m n = Inr () \<or>
   bigint_alloc_unary_payload m n = Inl Oom \<and> \<not> (ample_memory m \<and> n < 2 ^ 32)"
  using bigint_alloc_payload_cases [of m n] by (auto simp: bigint_alloc_unary_payload_def)

lemma bigint_finish_payload_correct:
  assumes "0 < n" "n \<le> length buf"
  shows "bigint_wf (bigint_finish_payload buf n neg)"
    and "bigint_val (bigint_finish_payload buf n neg) = signed_mag neg (take n buf)"
proof -
  define c where "c = bigint_normalize_limbs buf n"
  have c: "0 < c" "c \<le> length buf" and norm: "limbs_norm (take c buf)"
    using assms normalize_pos [of n buf] normalize_le [of buf n]
    by (simp_all add: c_def limbs_norm_take_normalize)
  have val: "limbs_val (take c buf) = limbs_val (take n buf)"
    using assms by (simp add: c_def normalize_val)
  have z: "c = 1 \<and> buf ! 0 = 0 \<longleftrightarrow> take c buf = [0]"
    using c by (cases buf; cases c) auto
  show "bigint_wf (bigint_finish_payload buf n neg)"
    using norm z by (simp add: bigint_wf_def bigint_finish_payload_def Let_def c_def [symmetric])
  show "bigint_val (bigint_finish_payload buf n neg) = signed_mag neg (take n buf)"
    using val z limbs_norm_zero_iff [OF norm]
    by (auto simp: bigint_val_def bigint_finish_payload_def Let_def c_def [symmetric] signed_mag_def)
qed

lemma js_mkbigint_limbs_returns:
  assumes "0 < n" "n \<le> length buf" "n \<le> cap"
  shows "bigint_returns m cap (js_mkbigint_limbs m buf n neg) (signed_mag neg (take n buf))"
proof -
  define c where "c = bigint_normalize_limbs buf n"
  have c: "0 < c" "c \<le> n" "c \<le> length buf"
    using assms normalize_pos [of n buf] normalize_le [of buf n] by (simp_all add: c_def)
  have val: "limbs_val (take c buf) = limbs_val (take n buf)"
    using assms by (simp add: c_def normalize_val)
  have "bigint_wf (bigint_finish_payload (take c buf) c neg)"
    "bigint_val (bigint_finish_payload (take c buf) c neg) = signed_mag neg (take n buf)"
    using bigint_finish_payload_correct [of c "take c buf" neg] c val by (simp_all add: signed_mag_def)
  then show ?thesis
    using bigint_alloc_payload_cases [of m c] assms c
    by (auto simp: js_mkbigint_limbs_def bigint_returns_def Let_def c_def [symmetric])
qed

lemma bigint_in_buffer_returns:
  assumes "alloc m cap = Inr () \<or> alloc m cap = Inl Oom \<and> \<not> (ample_memory m \<and> cap < 2 ^ 32)"
    and "length buf \<le> cap" "0 < n" "n \<le> length buf"
    and "z = signed_mag neg (take n buf)"
  shows "bigint_returns m cap (bigint_in_buffer m alloc cap buf n neg) z"
proof (cases "cap > stack_limbs")
  case True
  then show ?thesis
    using assms bigint_finish_payload_correct [of n buf neg]
    by (auto simp: bigint_in_buffer_def bigint_returns_def)
next
  case False
  then show ?thesis
    using assms js_mkbigint_limbs_returns [of n buf cap m neg]
    by (simp add: bigint_in_buffer_def)
qed

lemmas binary_buffer =
  bigint_in_buffer_returns [where alloc = bigint_alloc_binary_payload, OF bigint_alloc_binary_payload_cases]
lemmas unary_buffer =
  bigint_in_buffer_returns [where alloc = bigint_alloc_unary_payload, OF bigint_alloc_unary_payload_cases]

lemma bigint_wfD:
  assumes "bigint_wf v"
  shows "limbs_norm (bi_limbs v)" "bi_limbs v \<noteq> []" "0 < length (bi_limbs v)"
  using assms by (auto simp: bigint_wf_def limbs_norm_def)

end
