(* ===== verification/Bigint_Ops.thy ===== *)
theory Bigint_Ops
  imports Bigint_Value
begin

unbundle bit_operations_syntax

text \<open>
  The arithmetic and bitwise operators on BigInt values (\<^verbatim>\<open>bigint_add\<close> to
  \<^verbatim>\<open>bigint_compare\<close> in \<^verbatim>\<open>src/modules/bigint.c\<close>) and the 64-bit conversions.
\<close>

section \<open>Addition, subtraction, multiplication, negation\<close>

definition bigint_add :: "mem_env \<Rightarrow> bigint \<Rightarrow> bigint \<Rightarrow> js_error + bigint" where
  "bigint_add m a b =
     (let aneg = bigint_is_negative a; bneg = bigint_is_negative b;
          ad = bi_limbs a; bd = bi_limbs b;
          alen = length ad; blen = length bd;
          cmp = (if aneg = bneg then 0 else bigint_cmp_abs_limbs ad bd)
      in case (if aneg = bneg then ((if alen > blen then alen else blen) + 1, aneg)
               else if cmp \<ge> 0 then (alen, aneg) else (blen, bneg)) of
           (capacity, rneg) \<Rightarrow>
             (case (if aneg = bneg then bigint_add_abs_limbs ad bd
                    else if cmp \<ge> 0 then bigint_sub_abs_limbs ad bd
                    else bigint_sub_abs_limbs bd ad) of
                (result, rlen) \<Rightarrow>
                  bigint_in_buffer m bigint_alloc_binary_payload capacity result rlen rneg))"

definition bigint_sub :: "mem_env \<Rightarrow> bigint \<Rightarrow> bigint \<Rightarrow> js_error + bigint" where
  "bigint_sub m a b =
     (let aneg = bigint_is_negative a; bneg = bigint_is_negative b;
          ad = bi_limbs a; bd = bi_limbs b;
          alen = length ad; blen = length bd;
          cmp = (if aneg \<noteq> bneg then 0 else bigint_cmp_abs_limbs ad bd)
      in case (if aneg \<noteq> bneg then ((if alen > blen then alen else blen) + 1, aneg)
               else if cmp \<ge> 0 then (alen, aneg) else (blen, \<not> aneg)) of
           (capacity, rneg) \<Rightarrow>
             (case (if aneg \<noteq> bneg then bigint_add_abs_limbs ad bd
                    else if cmp \<ge> 0 then bigint_sub_abs_limbs ad bd
                    else bigint_sub_abs_limbs bd ad) of
                (result, rlen) \<Rightarrow>
                  bigint_in_buffer m bigint_alloc_binary_payload capacity result rlen rneg))"

definition bigint_mul :: "mem_env \<Rightarrow> bigint \<Rightarrow> bigint \<Rightarrow> js_error + bigint" where
  "bigint_mul m a b =
     (let aneg = bigint_is_negative a; bneg = bigint_is_negative b;
          ad = bi_limbs a; bd = bi_limbs b;
          capacity = length ad + length bd + 1
      in case bigint_mul_abs_limbs ad bd of
           None \<Rightarrow> Inl BufferOverrun
         | Some (result, rlen) \<Rightarrow>
             bigint_in_buffer m bigint_alloc_binary_payload capacity result rlen (aneg \<noteq> bneg))"

definition bigint_neg :: "mem_env \<Rightarrow> bigint \<Rightarrow> js_error + bigint" where
  "bigint_neg m a =
     bind_err (bigint_alloc_unary_payload m (length (bi_limbs a)))
       (\<lambda>_. Inr (bigint_finish_payload (bi_limbs a) (length (bi_limbs a)) (\<not> bigint_is_negative a)))"

text \<open>Limbs an operation on \<open>a\<close> and \<open>b\<close> may need.\<close>

definition bin_capacity :: "bigint \<Rightarrow> bigint \<Rightarrow> nat" where
  "bin_capacity a b = max (length (bi_limbs a)) (length (bi_limbs b)) + 1"

lemma bigint_returns_mono:
  "bigint_returns m c out z \<Longrightarrow> c \<le> c' \<Longrightarrow> bigint_returns m c' out z"
  by (auto simp: bigint_returns_def split: sum.splits)

text \<open>The three buffer computations of an additive operation.\<close>

lemma add_buffer:
  assumes "ad \<noteq> []" "bigint_add_abs_limbs ad bd = (r, n)"
  shows "bigint_returns m (max (length ad) (length bd) + 1)
    (bigint_in_buffer m bigint_alloc_binary_payload (max (length ad) (length bd) + 1) r n neg)
    (if neg then - (int (limbs_val ad) + int (limbs_val bd)) else int (limbs_val ad) + int (limbs_val bd))"
proof (rule binary_buffer)
  note v = bigint_add_abs_limbs_val [OF assms(2)]
  show "length r \<le> max (length ad) (length bd) + 1" "n \<le> length r"
    using v(2,3) by simp_all
  have "0 < length ad" using assms(1) by simp
  then show "0 < n" using v(4) by linarith
  show "(if neg then - (int (limbs_val ad) + int (limbs_val bd))
      else int (limbs_val ad) + int (limbs_val bd)) = signed_mag neg (take n r)"
    using v(1) by (simp add: signed_mag_def)
qed

lemma sub_buffer:
  assumes "ad \<noteq> []" "bigint_sub_abs_limbs ad bd = (r, n)" "limbs_val bd \<le> limbs_val ad"
  shows "bigint_returns m (length ad)
    (bigint_in_buffer m bigint_alloc_binary_payload (length ad) r n neg)
    (if neg then int (limbs_val bd) - int (limbs_val ad) else int (limbs_val ad) - int (limbs_val bd))"
proof (rule binary_buffer)
  note v = bigint_sub_abs_limbs_val [OF assms(2,3)]
  show "length r \<le> length ad" "n \<le> length r" "0 < n"
    using v(2,3) assms(1) by simp_all
  show "(if neg then int (limbs_val bd) - int (limbs_val ad)
      else int (limbs_val ad) - int (limbs_val bd)) = signed_mag neg (take n r)"
    using v(1) assms(3) by (simp add: signed_mag_def of_nat_diff)
qed

lemma cmp_abs_cases:
  assumes "ad \<noteq> []" "bd \<noteq> []"
  shows "bigint_cmp_abs_limbs ad bd \<ge> 0 \<longleftrightarrow> limbs_val bd \<le> limbs_val ad"
  using bigint_cmp_abs_limbs_sgn [OF assms] by (simp add: sgn_if)

lemma bigint_add_returns:
  assumes "bigint_wf a" "bigint_wf b"
  shows "bigint_returns m (bin_capacity a b) (bigint_add m a b) (bigint_val a + bigint_val b)"
proof -
  let ?ad = "bi_limbs a" and ?bd = "bi_limbs b"
  have ne: "?ad \<noteq> []" "?bd \<noteq> []"
    using assms by (simp_all add: bigint_wfD)
  have mx: "(if length ?ad > length ?bd then length ?ad else length ?bd) + 1
      = max (length ?ad) (length ?bd) + 1"
    by (simp add: max_def)
  consider "bi_sign a = bi_sign b"
    | "bi_sign a \<noteq> bi_sign b" "limbs_val ?bd \<le> limbs_val ?ad"
    | "bi_sign a \<noteq> bi_sign b" "limbs_val ?ad < limbs_val ?bd"
    by linarith
  then show ?thesis
  proof cases
    case 1
    obtain r n where st: "bigint_add_abs_limbs ?ad ?bd = (r, n)" by force
    with 1 mx have "bigint_add m a b =
        bigint_in_buffer m bigint_alloc_binary_payload (max (length ?ad) (length ?bd) + 1) r n (bi_sign a)"
      by (simp add: bigint_add_def bigint_is_negative_def)
    with add_buffer [OF ne(1) st, of m "bi_sign a"] 1 show ?thesis
      by (auto simp: bin_capacity_def bigint_val_def signed_mag_def)
  next
    case 2
    obtain r n where st: "bigint_sub_abs_limbs ?ad ?bd = (r, n)" by force
    with 2 cmp_abs_cases [OF ne] have eq: "bigint_add m a b =
        bigint_in_buffer m bigint_alloc_binary_payload (length ?ad) r n (bi_sign a)"
      by (simp add: bigint_add_def bigint_is_negative_def)
    have "bigint_returns m (length ?ad) (bigint_add m a b) (bigint_val a + bigint_val b)"
      using sub_buffer [OF ne(1) st 2(2), of m "bi_sign a"] 2(1)
      by (auto simp: eq bigint_val_def signed_mag_def)
    then show ?thesis
      by (rule bigint_returns_mono) (simp add: bin_capacity_def)
  next
    case 3
    obtain r n where st: "bigint_sub_abs_limbs ?bd ?ad = (r, n)" by force
    with 3 cmp_abs_cases [OF ne] have eq: "bigint_add m a b =
        bigint_in_buffer m bigint_alloc_binary_payload (length ?bd) r n (bi_sign b)"
      by (simp add: bigint_add_def bigint_is_negative_def)
    have "bigint_returns m (length ?bd) (bigint_add m a b) (bigint_val a + bigint_val b)"
      using sub_buffer [OF ne(2) st less_imp_le [OF 3(2)], of m "bi_sign b"] 3(1)
      by (auto simp: eq bigint_val_def signed_mag_def)
    then show ?thesis
      by (rule bigint_returns_mono) (simp add: bin_capacity_def)
  qed
qed

text \<open>Subtraction is addition with the sign of \<open>b\<close> flipped, case by case of the source.\<close>

lemma bigint_sub_eq_add:
  assumes "bigint_wf a" "bigint_wf b"
  shows "bigint_sub m a b = bigint_add m a (b\<lparr>bi_sign := \<not> bi_sign b\<rparr>)"
  by (auto simp: bigint_sub_def bigint_add_def bigint_is_negative_def Let_def)

lemma bigint_sub_returns:
  assumes "bigint_wf a" "bigint_wf b"
  shows "bigint_returns m (bin_capacity a b) (bigint_sub m a b) (bigint_val a - bigint_val b)"
proof (cases "bi_limbs b = [0]")
  case False
  then have "bigint_wf (b\<lparr>bi_sign := \<not> bi_sign b\<rparr>)"
    using assms(2) by (simp add: bigint_wf_def)
  from bigint_add_returns [OF assms(1) this, of m] show ?thesis
    by (auto simp: bigint_sub_eq_add [OF assms] bin_capacity_def bigint_val_def signed_mag_def split: if_splits)
next
  case True
  let ?ad = "bi_limbs a"
  have b: "\<not> bi_sign b" "bigint_val b = 0"
    using True assms(2) by (simp_all add: bigint_wf_def bigint_val_def signed_mag_def)
  have ne: "?ad \<noteq> []" "[0] \<noteq> ([] :: limbs)"
    using assms by (simp_all add: bigint_wfD)
  show ?thesis
  proof (cases "bi_sign a")
    case neg: True
    obtain r n where st: "bigint_add_abs_limbs ?ad [0] = (r, n)" by force
    have "(if Suc 0 < length ?ad then length ?ad else Suc 0) = max (length ?ad) (Suc 0)"
      by (simp add: max_def)
    with neg b True st have "bigint_sub m a b =
        bigint_in_buffer m bigint_alloc_binary_payload (max (length ?ad) (length [0 :: u32]) + 1) r n True"
      by (simp add: bigint_sub_def bigint_is_negative_def Let_def)
    with add_buffer [OF ne(1) st, of m True] neg b True show ?thesis
      by (simp add: bin_capacity_def bigint_val_def signed_mag_def)
  next
    case pos: False
    obtain r n where st: "bigint_sub_abs_limbs ?ad [0] = (r, n)" by force
    with cmp_abs_cases [OF ne] pos b True have eq: "bigint_sub m a b =
        bigint_in_buffer m bigint_alloc_binary_payload (length ?ad) r n False"
      by (simp add: bigint_sub_def bigint_is_negative_def)
    have "bigint_returns m (length ?ad) (bigint_sub m a b) (bigint_val a - bigint_val b)"
      using sub_buffer [OF ne(1) st, of m False] pos b by (simp add: eq bigint_val_def signed_mag_def)
    then show ?thesis
      by (rule bigint_returns_mono) (simp add: bin_capacity_def)
  qed
qed

lemma bigint_mul_returns:
  assumes "bigint_wf a" "bigint_wf b"
  shows "bigint_returns m (length (bi_limbs a) + length (bi_limbs b) + 1) (bigint_mul m a b)
    (bigint_val a * bigint_val b)"
proof -
  obtain r n where st: "bigint_mul_abs_limbs (bi_limbs a) (bi_limbs b) = Some (r, n)"
    and n: "n \<le> length r" "0 < n" "length r \<le> length (bi_limbs a) + length (bi_limbs b) + 1"
    and val: "limbs_val (take n r) = limbs_val (bi_limbs a) * limbs_val (bi_limbs b)"
    using bigint_mul_abs_limbs_val [of "bi_limbs a" "bi_limbs b"] assms by (auto simp: bigint_wfD)
  have "bigint_val a * bigint_val b = signed_mag (bi_sign a \<noteq> bi_sign b) (take n r)"
    using val by (auto simp: bigint_val_def signed_mag_def)
  from binary_buffer [OF n(3,2,1) this] st show ?thesis
    by (simp add: bigint_mul_def bigint_is_negative_def)
qed

lemma bigint_neg_returns:
  assumes "bigint_wf a"
  shows "bigint_returns m (length (bi_limbs a)) (bigint_neg m a) (- bigint_val a)"
  using bigint_finish_payload_correct [OF bigint_wfD(3) [OF assms] order_refl, of "\<not> bi_sign a"]
    bigint_alloc_unary_payload_cases [of m "length (bi_limbs a)"]
  by (auto simp: bigint_neg_def bigint_returns_def bigint_is_negative_def bigint_val_def signed_mag_def)

section \<open>Comparison and tests\<close>

definition bigint_compare :: "bigint \<Rightarrow> bigint \<Rightarrow> int" where
  "bigint_compare a b =
     (let aneg = bigint_is_negative a; bneg = bigint_is_negative b
      in if aneg \<and> \<not> bneg then - 1
         else if \<not> aneg \<and> bneg then 1
         else (let cmp = bigint_cmp_abs_limbs (bi_limbs a) (bi_limbs b)
               in if aneg then - cmp else cmp))"

lemma bigint_neg_val:
  assumes "bigint_wf v"
  shows "bi_sign v \<longleftrightarrow> bigint_val v < 0"
  using assms limbs_norm_zero_iff [of "bi_limbs v"]
  by (auto simp: bigint_wf_def bigint_val_def signed_mag_def)

lemma bigint_compare_sgn:
  assumes "bigint_wf a" "bigint_wf b"
  shows "bigint_compare a b = sgn (bigint_val a - bigint_val b)"
proof -
  have c: "bigint_cmp_abs_limbs (bi_limbs a) (bi_limbs b)
      = sgn (int (limbs_val (bi_limbs a)) - int (limbs_val (bi_limbs b)))"
    using assms by (intro bigint_cmp_abs_limbs_sgn) (simp_all add: bigint_wfD)
  show ?thesis
    using bigint_neg_val [OF assms(1)] bigint_neg_val [OF assms(2)] c
    by (auto simp: bigint_compare_def bigint_is_negative_def bigint_val_def signed_mag_def sgn_if Let_def)
qed

lemma limbs_is_zero_iff: "limbs_is_zero xs (length xs) \<longleftrightarrow> xs = [0]"
  by (cases xs) (auto simp: limbs_is_zero_def)

lemma bigint_is_zero_val: "bigint_wf v \<Longrightarrow> bigint_is_zero v \<longleftrightarrow> bigint_val v = 0"
  using limbs_norm_zero_iff [of "bi_limbs v"] limbs_is_zero_iff [of "bi_limbs v"]
  by (simp add: bigint_is_zero_def bigint_val_def signed_mag_def bigint_wfD)

lemma bigint_is_odd_val:
  assumes "bigint_wf v"
  shows "bigint_is_odd v \<longleftrightarrow> odd (bigint_val v)"
proof -
  obtain x xs where v: "bi_limbs v = x # xs"
    using bigint_wfD(2) [OF assms] by (cases "bi_limbs v") auto
  have "x AND 1 \<noteq> 0 \<longleftrightarrow> odd (unat x)"
    using unat_mask_and [of x 1] by (metis mask_1 odd_iff_mod_2_eq_one one_neq_zero power_one_right
        unat_eq_zero not_mod_2_eq_1_eq_0)
  moreover have "even base32" by (simp add: base32_def)
  ultimately show ?thesis
    using even_of_nat_iff [of "unat x", where ?'a = int]
    by (simp add: bigint_is_odd_def v bigint_val_def signed_mag_def)
qed

lemma bigint_wf_inj:
  assumes "bigint_wf a" "bigint_wf b" "bigint_val a = bigint_val b"
  shows "a = b"
proof -
  have s: "bi_sign a = bi_sign b"
    using bigint_neg_val assms by metis
  with assms(3) have "limbs_val (bi_limbs a) = limbs_val (bi_limbs b)"
    by (auto simp: bigint_val_def signed_mag_def split: if_splits)
  then have "bi_limbs a = bi_limbs b"
    using assms by (intro limbs_norm_inj) (simp_all add: bigint_wfD)
  with s show ?thesis by simp
qed

end
