(* ===== verification/Bigint_Bitops.thy ===== *)
theory Bigint_Bitops
  imports Bigint_Ops
begin

unbundle bit_operations_syntax

text \<open>
  Shifts, bitwise operators and the 64-bit conversions of BigInt values
  (\<^verbatim>\<open>src/modules/bigint.c\<close>): \<^verbatim>\<open>bigint_shift_left\<close>, \<^verbatim>\<open>bigint_shift_right\<close>,
  \<^verbatim>\<open>bigint_bitwise_binary\<close>, \<^verbatim>\<open>bigint_bitnot\<close>, \<^verbatim>\<open>bigint_pow2\<close>, and the conversions from and to
  \<^verbatim>\<open>uint64_t\<close> and \<^verbatim>\<open>int64_t\<close>.
\<close>

section \<open>Shifts\<close>

definition bigint_shift_left :: "mem_env \<Rightarrow> bigint \<Rightarrow> u64 \<Rightarrow> js_error + bigint" where
  "bigint_shift_left m v shift =
     (let limbs = bi_limbs v; count = length limbs; limb_shift = shift_limbs shift
      in if shift = 0 then Inr v
         else if limbs_is_zero limbs count then Inr v
         else if limb_shift > size_max - count - 1 then Inl Oom
         else (case bigint_shift_left_abs limbs shift of (result, rlen) \<Rightarrow>
           bigint_in_buffer m bigint_alloc_unary_payload (count + limb_shift + 1) result rlen
             (bigint_is_negative v)))"

definition bigint_shift_right :: "mem_env \<Rightarrow> bigint \<Rightarrow> u64 \<Rightarrow> js_error + bigint" where
  "bigint_shift_right m v shift =
     (let limbs = bi_limbs v; count = length limbs; limb_shift = shift_limbs shift
      in if shift = 0 then Inr v
         else if limbs_is_zero limbs count then Inr v
         else
           (let neg = bigint_is_negative v;
                capacity = (if limb_shift \<ge> count then 1
                            else count - limb_shift + (if neg then 1 else 0))
            in case bigint_shift_right_abs limbs shift of (result, qlen, truncated) \<Rightarrow>
               case (if neg \<and> truncated then bigint_add_u32_inplace result qlen capacity 1
                     else (result, qlen)) of (result, qlen) \<Rightarrow>
                 bigint_in_buffer m bigint_alloc_unary_payload capacity result qlen
                   (neg \<and> \<not> limbs_is_zero result qlen)))"

definition bigint_shift_right_logical :: "bigint \<Rightarrow> u64 \<Rightarrow> js_error + bigint" where
  "bigint_shift_right_logical v shift = Inl NoUnsignedRightShift"

lemma bigint_returns_self: "bigint_wf v \<Longrightarrow> bigint_val v = z \<Longrightarrow> bigint_returns m c (Inr v) z"
  by (simp add: bigint_returns_def)

lemma zero_limbs_val: "bigint_wf v \<Longrightarrow> limbs_is_zero (bi_limbs v) (length (bi_limbs v)) \<longleftrightarrow> bigint_val v = 0"
  using bigint_is_zero_val by (simp add: bigint_is_zero_def)

lemma bigint_shift_left_returns:
  assumes "bigint_wf v"
  shows "bigint_returns m (length (bi_limbs v) + shift_limbs s + 1) (bigint_shift_left m v s)
    (bigint_val v * 2 ^ unat s)"
proof -
  consider "s = 0 \<or> bigint_val v = 0"
    | "s \<noteq> 0" "bigint_val v \<noteq> 0" "shift_limbs s > size_max - length (bi_limbs v) - 1"
    | "s \<noteq> 0" "bigint_val v \<noteq> 0" "\<not> shift_limbs s > size_max - length (bi_limbs v) - 1"
    by blast
  then show ?thesis
  proof cases
    case 1
    then show ?thesis
      using assms zero_limbs_val [OF assms]
      by (auto simp: bigint_shift_left_def Let_def intro!: bigint_returns_self)
  next
    case 2
    then have "\<not> length (bi_limbs v) + shift_limbs s + 1 < 2 ^ 32"
      by (simp add: size_max_def)
    with 2 zero_limbs_val [OF assms] show ?thesis
      by (simp add: bigint_shift_left_def bigint_returns_def)
  next
    case 3
    obtain r n where st: "bigint_shift_left_abs (bi_limbs v) s = (r, n)" by force
    note val = bigint_shift_left_abs_val [OF st bigint_wfD(2) [OF assms]]
    have "bigint_val v * 2 ^ unat s = signed_mag (bi_sign v) (take n r)"
      using val(1) by (simp add: bigint_val_def signed_mag_def)
    with binary_buffer unary_buffer [OF eq_imp_le [OF val(5)] val(4,3)] 3 st zero_limbs_val [OF assms]
    show ?thesis
      by (simp add: bigint_shift_left_def bigint_is_negative_def)
  qed
qed

text \<open>The magnitude step of a right shift: rounding down is rounding the magnitude up when negative.\<close>

lemma neg_div_nat:
  fixes k d :: nat
  assumes "0 < d"
  shows "- int k div int d = - int (k div d + (if k mod d \<noteq> 0 then 1 else 0))"
proof -
  have "int k mod int d = 0 \<longleftrightarrow> k mod d = 0"
    by (metis of_nat_eq_0_iff zmod_int)
  with assms show ?thesis by (simp add: zdiv_zminus1_eq_if zdiv_int)
qed

lemma neg_div_pow2:
  fixes k :: nat
  shows "- int k div 2 ^ s = - int (k div 2 ^ s + (if k mod 2 ^ s \<noteq> 0 then 1 else 0))"
  using neg_div_nat [of "2 ^ s" k] by (simp only: of_nat_power of_nat_numeral zero_less_power zero_less_numeral)

lemma shift_right_magnitude:
  assumes "bigint_wf v" "bigint_val v \<noteq> 0"
    and "bigint_shift_right_abs (bi_limbs v) s = (r, n, t)"
    and "cap = (if shift_limbs s \<ge> length (bi_limbs v) then 1
           else length (bi_limbs v) - shift_limbs s + (if bi_sign v then 1 else 0))"
    and "(if bi_sign v \<and> t then bigint_add_u32_inplace r n cap 1 else (r, n)) = (r', n')"
  shows "signed_mag (bi_sign v \<and> \<not> limbs_is_zero r' n') (take n' r') = bigint_val v div 2 ^ unat s"
    and "0 < n'" "n' \<le> length r'" "length r' \<le> cap"
proof -
  note val = bigint_shift_right_abs_val [OF assms(3) bigint_wfD(2) [OF assms(1)]]
  have main: "limbs_val (take n' r') = limbs_val (take n r) + (if bi_sign v \<and> t then 1 else 0)
    \<and> 0 < n' \<and> n' \<le> length r' \<and> length r' \<le> cap"
  proof (cases "bi_sign v \<and> t")
    case False
    then show ?thesis using assms(4,5) val(4,5,6) by auto
  next
    case True
    then have st: "bigint_add_u32_inplace r n cap 1 = (r', n')" using assms(5) by simp
    show ?thesis
    proof (cases "shift_limbs s \<ge> length (bi_limbs v)")
      case big: True
      have "r = [0]" "n = 1"
        using assms(3) big by (auto simp: bigint_shift_right_abs_def Let_def)
      moreover have "cap = 1" using assms(4) big by simp
      moreover have "bigint_add_u32_inplace [0] 1 1 1 = ([1], 1)" by code_simp
      ultimately have "r' = [1] \<and> n' = 1" using st by simp
      with \<open>r = [0]\<close> \<open>n = 1\<close> \<open>cap = 1\<close> True show ?thesis by simp
    next
      case False
      then have "n < cap"
        using val(4,6) assms(4) True by simp
      note add = bigint_add_u32_inplace_val [OF st val(5,4) this]
      have "length r' \<le> cap"
        using bigint_add_u32_inplace_length [OF st val(4)] val(4,6) assms(4) False True by simp
      with add True show ?thesis by simp
    qed
  qed
  then show "0 < n'" "n' \<le> length r'" "length r' \<le> cap" by simp_all
  have z: "limbs_val (take n' r') = 0" if "limbs_is_zero r' n'"
    using that main by (cases r'; cases n') (auto simp: limbs_is_zero_def)
  have "bigint_val v div 2 ^ unat s
      = (if bi_sign v then - int (limbs_val (take n' r')) else int (limbs_val (take n' r')))"
    using main val(1,2) neg_div_pow2 [of "limbs_val (bi_limbs v)" "unat s"]
    by (simp add: bigint_val_def signed_mag_def zdiv_int)
  with z show "signed_mag (bi_sign v \<and> \<not> limbs_is_zero r' n') (take n' r') = bigint_val v div 2 ^ unat s"
    by (auto simp: signed_mag_def)
qed

lemma bigint_shift_right_returns:
  assumes "bigint_wf v"
  shows "bigint_returns m (length (bi_limbs v) + 1) (bigint_shift_right m v s) (bigint_val v div 2 ^ unat s)"
proof (cases "s = 0 \<or> bigint_val v = 0")
  case True
  then show ?thesis
    using assms zero_limbs_val [OF assms]
    by (auto simp: bigint_shift_right_def Let_def intro!: bigint_returns_self)
next
  case False
  define cap where "cap = (if shift_limbs s \<ge> length (bi_limbs v) then 1
       else length (bi_limbs v) - shift_limbs s + (if bi_sign v then 1 else 0))"
  obtain r n t where st: "bigint_shift_right_abs (bi_limbs v) s = (r, n, t)"
    by (metis prod_cases3)
  obtain r' n' where st': "(if bi_sign v \<and> t then bigint_add_u32_inplace r n cap 1 else (r, n)) = (r', n')"
    by force
  note mag = shift_right_magnitude [OF assms _ st cap_def st']
  have eq: "bigint_shift_right m v s = bigint_in_buffer m bigint_alloc_unary_payload cap r' n'
      (bi_sign v \<and> \<not> limbs_is_zero r' n')"
    using False zero_limbs_val [OF assms] st'
    by (auto simp: bigint_shift_right_def bigint_is_negative_def Let_def st split: if_splits simp flip: cap_def)
  have "bigint_returns m cap (bigint_shift_right m v s) (bigint_val v div 2 ^ unat s)"
    unfolding eq using False by (intro unary_buffer mag mag(1) [symmetric]) auto
  then show ?thesis
    by (rule bigint_returns_mono) (auto simp: cap_def)
qed

section \<open>Bitwise operators\<close>

datatype bigint_bitop = BIGINT_BAND | BIGINT_BOR | BIGINT_BXOR

fun limb_bitop :: "bigint_bitop \<Rightarrow> u32 \<Rightarrow> u32 \<Rightarrow> u32" where
  "limb_bitop BIGINT_BAND = (AND)"
| "limb_bitop BIGINT_BOR = (OR)"
| "limb_bitop BIGINT_BXOR = (XOR)"

text \<open>Limbs that hold \<open>bits\<close> bits and a sign bit.\<close>

definition signed_width :: "nat \<Rightarrow> nat" where
  "signed_width bits =
     (let width = (bits + 1 + 31) div 32 in if width = 0 then 1 else width)"

definition bigint_bitwise_binary ::
  "mem_env \<Rightarrow> bigint \<Rightarrow> bigint \<Rightarrow> bigint_bitop \<Rightarrow> js_error + bigint" where
  "bigint_bitwise_binary m a b op =
     (let aneg = bigint_is_negative a; bneg = bigint_is_negative b;
          ad = bi_limbs a; bd = bi_limbs b;
          abit = bigint_abs_bitlen_limbs ad; bbit = bigint_abs_bitlen_limbs bd;
          width = signed_width (if abit > bbit then abit else bbit);
          result = map2 (limb_bitop op) (fst (twos_complement_loop ad aneg width))
                     (fst (twos_complement_loop bd bneg width))
      in case bigint_twos_complement_to_magnitude result width of (result, count, negative) \<Rightarrow>
           bigint_in_buffer m bigint_alloc_binary_payload width result count negative)"

definition bigint_bitand :: "mem_env \<Rightarrow> bigint \<Rightarrow> bigint \<Rightarrow> js_error + bigint" where
  "bigint_bitand m a b = bigint_bitwise_binary m a b BIGINT_BAND"

definition bigint_bitor :: "mem_env \<Rightarrow> bigint \<Rightarrow> bigint \<Rightarrow> js_error + bigint" where
  "bigint_bitor m a b = bigint_bitwise_binary m a b BIGINT_BOR"

definition bigint_bitxor :: "mem_env \<Rightarrow> bigint \<Rightarrow> bigint \<Rightarrow> js_error + bigint" where
  "bigint_bitxor m a b = bigint_bitwise_binary m a b BIGINT_BXOR"

definition bigint_bitnot :: "mem_env \<Rightarrow> bigint \<Rightarrow> js_error + bigint" where
  "bigint_bitnot m v =
     (let neg = bigint_is_negative v; limbs = bi_limbs v;
          width = signed_width (bigint_abs_bitlen_limbs limbs);
          result = map NOT (fst (twos_complement_loop limbs neg width))
      in case bigint_twos_complement_to_magnitude result width of (result, out_count, out_neg) \<Rightarrow>
           bigint_in_buffer m bigint_alloc_unary_payload width result out_count out_neg)"

text \<open>The integer operation an operator means.\<close>

fun int_bitop :: "bigint_bitop \<Rightarrow> int \<Rightarrow> int \<Rightarrow> int" where
  "int_bitop BIGINT_BAND = (AND)"
| "int_bitop BIGINT_BOR = (OR)"
| "int_bitop BIGINT_BXOR = (XOR)"

lemma signed_width_bounds: "0 < signed_width bits" "bits \<le> 32 * signed_width bits - 1"
proof -
  have "bits + 1 \<le> 32 * ((bits + 1 + 31) div 32)" by presburger
  moreover have "(bits + 1 + 31) div 32 \<noteq> 0" by simp
  ultimately have "signed_width bits \<noteq> 0 \<and> bits + 1 \<le> 32 * signed_width bits"
    unfolding signed_width_def Let_def by simp
  then show "0 < signed_width bits" "bits \<le> 32 * signed_width bits - 1" by linarith+
qed

lemma signed_width_fits:
  assumes "xs \<noteq> []" "bigint_abs_bitlen_limbs xs \<le> bits"
  shows "int (limbs_val xs) < 2 ^ (32 * signed_width bits - 1)"
proof -
  have "limbs_val xs < 2 ^ bigint_abs_bitlen_limbs xs"
    by (rule bigint_abs_bitlen_limbs_bounds(1) [OF assms(1)])
  also have "\<dots> \<le> 2 ^ (32 * signed_width bits - 1)"
    using assms(2) signed_width_bounds(2) [of bits] by (intro power_increasing) auto
  finally show ?thesis
    by (metis of_nat_less_iff of_nat_numeral of_nat_power)
qed

lemma signed_width_le:
  assumes "xs \<noteq> []" "bigint_abs_bitlen_limbs xs = bits"
  shows "signed_width bits \<le> length xs + 1"
proof -
  have "bits \<le> 32 * length xs"
  proof (cases "limbs_val xs = 0")
    case True
    then show ?thesis using bigint_abs_bitlen_limbs_bounds(3) [OF assms(1)] assms(2) by simp
  next
    case False
    then have "2 ^ (bits - 1) \<le> limbs_val xs"
      using bigint_abs_bitlen_limbs_bounds(2) [OF assms(1)] assms(2) by simp
    also have "\<dots> < 2 ^ (32 * length xs)"
      using limbs_val_bound [of xs] by (simp add: base32_power)
    finally show ?thesis by (simp add: power_strict_increasing_iff)
  qed
  then have "(bits + 1 + 31) div 32 \<le> length xs + 1" by linarith
  then show ?thesis by (simp add: signed_width_def Let_def)
qed

lemma limb_bitop_signed:
  fixes xs ys :: limbs and w :: nat and op :: bigint_bitop and xneg yneg :: bool
  assumes "int (limbs_val xs) < 2 ^ (32 * w - 1)" "int (limbs_val ys) < 2 ^ (32 * w - 1)" "0 < w"
  defines "r \<equiv> map2 (limb_bitop op) (fst (twos_complement_loop xs xneg w)) (fst (twos_complement_loop ys yneg w))"
  shows "signed_take_bit (32 * w - 1) (int (limbs_val r)) = int_bitop op (signed_mag xneg xs) (signed_mag yneg ys)"
    and "length r = w"
  using band.limbwise_signed [OF assms(1-3)] bor.limbwise_signed [OF assms(1-3)]
    bxor.limbwise_signed [OF assms(1-3)]
  by (cases op; simp add: r_def)+

lemma bigint_bitwise_binary_returns:
  assumes "bigint_wf a" "bigint_wf b"
  shows "bigint_returns m (bin_capacity a b) (bigint_bitwise_binary m a b op)
    (int_bitop op (bigint_val a) (bigint_val b))"
proof -
  let ?ad = "bi_limbs a" and ?bd = "bi_limbs b"
  define bits where "bits = (if bigint_abs_bitlen_limbs ?ad > bigint_abs_bitlen_limbs ?bd
    then bigint_abs_bitlen_limbs ?ad else bigint_abs_bitlen_limbs ?bd)"
  define w where "w = signed_width bits"
  have ne: "?ad \<noteq> []" "?bd \<noteq> []"
    using assms by (simp_all add: bigint_wfD)
  have fits: "int (limbs_val ?ad) < 2 ^ (32 * w - 1)" "int (limbs_val ?bd) < 2 ^ (32 * w - 1)"
    unfolding w_def using ne by (intro signed_width_fits; simp add: bits_def)+
  have w: "0 < w" "w \<le> bin_capacity a b"
    using signed_width_bounds(1) signed_width_le [OF ne(1) refl] signed_width_le [OF ne(2) refl]
    by (auto simp: w_def bits_def bin_capacity_def)
  define r where "r = map2 (limb_bitop op) (fst (twos_complement_loop ?ad (bi_sign a) w))
      (fst (twos_complement_loop ?bd (bi_sign b) w))"
  note op = limb_bitop_signed [OF fits w(1), where op = op and xneg = "bi_sign a" and yneg = "bi_sign b", folded r_def]
  obtain q n neg where mag: "bigint_twos_complement_to_magnitude r w = (q, n, neg)"
    by (metis prod_cases3)
  note tm = to_magnitude_val [OF mag op(2) w(1)]
  have eq: "bigint_bitwise_binary m a b op = bigint_in_buffer m bigint_alloc_binary_payload w q n neg"
    by (simp only: bigint_bitwise_binary_def bigint_is_negative_def Let_def bits_def [symmetric]
        w_def [symmetric] r_def [symmetric] mag prod.case)
  have "bigint_returns m w (bigint_bitwise_binary m a b op) (int_bitop op (bigint_val a) (bigint_val b))"
    unfolding eq using tm op(1) by (intro binary_buffer) (simp_all add: bigint_val_def)
  then show ?thesis by (rule bigint_returns_mono) (rule w(2))
qed

lemma limbs_val_not: "limbs_val (map NOT xs) + limbs_val xs + 1 = base32 ^ length xs"
proof (induction xs)
  case (Cons x xs)
  have "unat (NOT x) + unat x + 1 = base32"
    using unat_not_u32 [of x] unat_u32_bound [of x] by simp
  moreover have "base32 * (limbs_val (map NOT xs) + limbs_val xs + 1) = base32 * base32 ^ length xs"
    using Cons.IH by simp
  ultimately show ?case by (simp add: algebra_simps)
qed simp

lemma bigint_bitnot_returns:
  assumes "bigint_wf v"
  shows "bigint_returns m (length (bi_limbs v) + 1) (bigint_bitnot m v) (NOT (bigint_val v))"
proof -
  let ?xs = "bi_limbs v"
  define w where "w = signed_width (bigint_abs_bitlen_limbs ?xs)"
  have ne: "?xs \<noteq> []" using assms by (simp add: bigint_wfD)
  have w: "0 < w" "w \<le> length ?xs + 1"
    using signed_width_bounds(1) signed_width_le [OF ne refl] by (simp_all add: w_def)
  have fits: "int (limbs_val ?xs) < 2 ^ (32 * w - 1)"
    unfolding w_def using ne by (intro signed_width_fits) simp_all
  moreover have "(2 :: int) ^ (32 * w - 1) \<le> int (base32 ^ w)"
    by (simp add: base32_power)
  ultimately have lt: "limbs_val ?xs < base32 ^ w" by linarith
  define t where "t = fst (twos_complement_loop ?xs (bi_sign v) w)"
  have len: "length (map NOT t) = w" and t: "int (limbs_val t) = take_bit (32 * w) (bigint_val v)"
    using twos_complement_loop_val [OF lt] by (simp_all add: t_def bigint_val_def)
  have "int (limbs_val (map NOT t)) = 2 ^ (32 * w) - 1 - int (limbs_val t)"
    using arg_cong [OF limbs_val_not [of t], of int] len by (simp add: base32_power)
  also have "\<dots> = take_bit (32 * w) (NOT (bigint_val v))"
    using take_bit_not_eq_mask_diff [of "32 * w" "bigint_val v"] by (simp add: t mask_eq_exp_minus_1)
  finally have eq: "int (limbs_val (map NOT t)) = take_bit (32 * w) (NOT (bigint_val v))" .
  have "\<not> 32 * w \<le> 32 * w - 1" using w(1) by simp
  then have "signed_take_bit (32 * w - 1) (int (limbs_val (map NOT t)))
      = signed_take_bit (32 * w - 1) (NOT (bigint_val v))"
    by (simp add: eq signed_take_bit_take_bit)
  also have "\<dots> = NOT (bigint_val v)"
  proof (rule signed_take_bit_int_eq_self)
    have "bigint_val v < 2 ^ (32 * w - 1)" "- (2 ^ (32 * w - 1)) < bigint_val v"
      using fits unfolding bigint_val_def signed_mag_def by (auto simp only: split: if_splits)
    then show "- (2 ^ (32 * w - 1)) \<le> NOT (bigint_val v)" "NOT (bigint_val v) < 2 ^ (32 * w - 1)"
      unfolding not_int_def by linarith+
  qed
  finally have val: "signed_take_bit (32 * w - 1) (int (limbs_val (map NOT t))) = NOT (bigint_val v)" .
  obtain q n neg where mag: "bigint_twos_complement_to_magnitude (map NOT t) w = (q, n, neg)"
    by (metis prod_cases3)
  note tm = to_magnitude_val [OF mag len w(1)]
  have eq: "bigint_bitnot m v = bigint_in_buffer m bigint_alloc_unary_payload w q n neg"
    by (simp only: bigint_bitnot_def bigint_is_negative_def Let_def w_def [symmetric]
        t_def [symmetric] mag prod.case)
  have "bigint_returns m w (bigint_bitnot m v) (NOT (bigint_val v))"
    unfolding eq using tm val by (intro unary_buffer) simp_all
  then show ?thesis by (rule bigint_returns_mono) (rule w(2))
qed

end
