(* ===== verification/Bigint_Div.thy ===== *)
theory Bigint_Div
  imports Bigint_Knuth Bigint_Bitops
begin

unbundle bit_operations_syntax

text \<open>
  Division of magnitudes, \<^verbatim>\<open>bigint_divmod_abs_limbs\<close> of \<^verbatim>\<open>src/modules/bigint.c\<close>, with its
  three paths (smaller dividend, one-limb divisor, long division), and the operators
  \<^verbatim>\<open>bigint_div\<close> and \<^verbatim>\<open>bigint_mod\<close> on top of it.
\<close>

section \<open>Magnitudes\<close>

definition limb_alloc :: "mem_env \<Rightarrow> nat \<Rightarrow> bool" where
  "limb_alloc m count = alloc_ok m ((if count = 0 then 1 else count) * 4)"

text \<open>The divisor and the dividend shifted so that the top bit of the divisor is set.\<close>

definition divmod_normalise :: "limbs \<Rightarrow> limbs \<Rightarrow> limbs \<times> limbs \<times> nat" where
  "divmod_normalise num den =
     (let shift = clz32 (den ! (length den - 1))
      in if shift = 0 then (den, num @ [0], shift)
         else (case shl_limbs_loop num shift (length num) of (un, carry) \<Rightarrow>
                 (fst (shl_limbs_loop den shift (length den)), un @ [carry], shift)))"

text \<open>The low limbs of the remainder array, shifted back.\<close>

definition divmod_remainder :: "limbs \<Rightarrow> nat \<Rightarrow> nat \<Rightarrow> limbs" where
  "divmod_remainder un den_count shift =
     (if shift = 0 then take den_count un
      else fst (shr_limbs_loop (take den_count un) shift den_count))"

text \<open>
  Quotient and remainder (each with its limb count, and only if asked for), or \<open>None\<close>
  for a zero divisor or a failed allocation.
\<close>

definition bigint_divmod_abs_limbs ::
  "mem_env \<Rightarrow> limbs \<Rightarrow> limbs \<Rightarrow> bool \<Rightarrow> bool \<Rightarrow> ((limbs \<times> nat) option \<times> (limbs \<times> nat) option) option"
where
  "bigint_divmod_abs_limbs m num den want_q want_r =
     (let num_count = length num; den_count = length den
      in if den_count = 1 \<and> den ! 0 = 0 then None
         else if bigint_cmp_abs_limbs num den < 0 then
           (if want_q \<and> \<not> limb_alloc m 1 then None
            else if want_r \<and> \<not> limb_alloc m num_count then None
            else Some (if want_q then Some ([0], 1) else None,
                       if want_r then Some (num, bigint_normalize_limbs num num_count) else None))
         else if den_count = 1 then
           (if \<not> limb_alloc m num_count then None
            else case div_small_loop num (den ! 0) num_count of (q, rem) \<Rightarrow>
              if want_r \<and> \<not> limb_alloc m 1 then None
              else Some (if want_q then Some (q, bigint_normalize_limbs q num_count) else None,
                         if want_r then Some ([ucast rem], 1) else None))
         else
           (let mm = num_count - den_count
            in if \<not> limb_alloc m den_count \<or> \<not> limb_alloc m (num_count + 1) \<or> \<not> limb_alloc m (mm + 1)
               then None
               else case divmod_normalise num den of (vn, un, shift) \<Rightarrow>
                 case knuth_loop vn un mm (mm + 1) of (un, q) \<Rightarrow>
                   if want_r \<and> \<not> limb_alloc m den_count then None
                   else Some (if want_q then Some (q, bigint_normalize_limbs q (mm + 1)) else None,
                              if want_r then (let r = divmod_remainder un den_count shift
                                              in Some (r, bigint_normalize_limbs r den_count))
                              else None)))"

text \<open>When the long division is exact: always, except where \<open>knuth_step_exact\<close> fails.\<close>

definition divmod_exact :: "limbs \<Rightarrow> limbs \<Rightarrow> bool" where
  "divmod_exact num den =
     (bigint_cmp_abs_limbs num den < 0 \<or> length den = 1 \<or>
      (case divmod_normalise num den of (vn, un, shift) \<Rightarrow>
         knuth_exact vn un (length num - length den) (length num - length den + 1)))"

lemma limb_alloc_ample [simp]: "ample_memory m \<Longrightarrow> limb_alloc m n"
  by (simp add: limb_alloc_def)

lemma clz32_shift:
  assumes "v \<noteq> 0"
  shows "unat v * 2 ^ clz32 v < base32" "clz32 v < 32"
proof -
  note b = clz32_bounds [OF assms]
  show "clz32 v < 32" by (rule b(1))
  have "unat v * 2 ^ clz32 v < 2 ^ (32 - clz32 v) * 2 ^ clz32 v" using b(3) by simp
  also have "\<dots> = base32" using b(1) by (simp add: base32_def flip: power_add)
  finally show "unat v * 2 ^ clz32 v < base32" .
qed

lemma limbs_norm_top: "limbs_norm xs \<Longrightarrow> 1 < length xs \<Longrightarrow> xs ! (length xs - 1) \<noteq> 0"
  by (auto simp: limbs_norm_def last_conv_nth)

lemma divmod_normalise_val:
  assumes "limbs_norm den" "1 < length den" "divmod_normalise num den = (vn, un, s)"
  shows "s < 32" "length vn = length den" "length un = length num + 1"
    and "limbs_val vn = limbs_val den * 2 ^ s" "limbs_val un = limbs_val num * 2 ^ s"
    and "vn ! (length vn - 1) \<noteq> 0"
proof -
  define v where "v = den ! (length den - 1)"
  have v: "v \<noteq> 0" using limbs_norm_top [OF assms(1,2)] by (simp add: v_def)
  note clz = clz32_shift [OF v]
  have s: "s = clz32 v"
    using assms(3) by (auto simp: divmod_normalise_def v_def Let_def split: if_splits prod.splits)
  show s32: "s < 32" using clz(2) s by simp
  have den: "limbs_val den * 2 ^ s < base32 ^ length den"
  proof -
    have "limbs_val den = limbs_val (take (length den - 1) den) + base32 ^ (length den - 1) * unat v"
      unfolding v_def using assms(2) by (intro limbs_val_top) linarith
    moreover have "limbs_val (take (length den - 1) den) < base32 ^ (length den - 1)"
      using assms(2) by (intro limbs_val_less) simp
    ultimately have "limbs_val den < base32 ^ (length den - 1) * (unat v + 1)" by simp
    then have "limbs_val den * 2 ^ s < base32 ^ (length den - 1) * (unat v + 1) * 2 ^ s" by simp
    also have "(unat v + 1) * 2 ^ s \<le> base32"
    proof -
      have "2 ^ s dvd base32" unfolding base32_def using s32 by (intro le_imp_power_dvd) simp
      then obtain c where c: "base32 = 2 ^ s * c" by (rule dvdE)
      then have "2 ^ s * unat v < 2 ^ s * c" using clz(1) s by (metis mult.commute)
      then have "unat v < c" by simp
      then have "2 ^ s * (unat v + 1) \<le> 2 ^ s * c" by (intro mult_le_mono2) simp
      then show ?thesis by (simp add: c mult.commute)
    qed
    then have "base32 ^ (length den - 1) * (unat v + 1) * 2 ^ s \<le> base32 ^ (length den - 1) * base32"
      by (simp only: mult.assoc mult_le_mono2)
    also have "\<dots> = base32 ^ length den"
      using assms(2) by (metis power_minus_mult less_trans zero_less_one)
    finally show ?thesis .
  qed
  obtain u c where un: "shl_limbs_loop num s (length num) = (u, c)" by force
  obtain w d where vn: "shl_limbs_loop den s (length den) = (w, d)" by force
  note iu = shl_limbs_loop_inv [OF s32 order_refl un] and iv = shl_limbs_loop_inv [OF s32 order_refl vn]
  have d: "unat d = 0"
    using iv den by (cases "unat d") simp_all
  have "length vn = length den \<and> length un = length num + 1 \<and>
     limbs_val vn = limbs_val den * 2 ^ s \<and> limbs_val un = limbs_val num * 2 ^ s"
    using assms(3) s un vn iu iv d
    by (auto simp: divmod_normalise_def v_def Let_def limbs_val_append split: if_splits)
  then show len: "length vn = length den" "length un = length num + 1"
    and val: "limbs_val vn = limbs_val den * 2 ^ s" "limbs_val un = limbs_val num * 2 ^ s"
    by blast+
  show "vn ! (length vn - 1) \<noteq> 0"
  proof
    assume z: "vn ! (length vn - 1) = 0"
    have nonempty: "0 < length vn" using assms(2) len(1) by linarith
    have "limbs_val vn = limbs_val (take (length vn - 1) vn)"
      using limbs_val_top [of vn] z nonempty by simp
    also have "\<dots> < base32 ^ (length den - 1)" using len by (intro limbs_val_less) simp
    also have "\<dots> \<le> limbs_val den" by (rule limbs_norm_lower [OF assms(1,2)])
    also have "\<dots> \<le> limbs_val vn" using val by simp
    finally show False by simp
  qed
qed

text \<open>Quotient and remainder of magnitudes, on every path.\<close>

lemma divmod_remainder_val:
  assumes "limbs_val un < base32 ^ n" "n \<le> length un" "s < 32"
  shows "limbs_val (divmod_remainder un n s) = limbs_val un div 2 ^ s"
    "length (divmod_remainder un n s) = n"
proof -
  have t: "limbs_val (take n un) = limbs_val un" using assms(1) by (rule limbs_val_take_eq)
  have "limbs_val (divmod_remainder un n s) = limbs_val un div 2 ^ s \<and> length (divmod_remainder un n s) = n"
  proof (cases "s = 0")
    case True
    then show ?thesis using t assms(2) by (simp add: divmod_remainder_def)
  next
    case False
    obtain r c where st: "shr_limbs_loop (take n un) s n = (r, c)" by force
    have "length r = n \<and> limbs_val r = limbs_val un div 2 ^ s"
      using shr_limbs_loop_inv [of s n "take n un", OF _ assms(3) _ st] False assms(2) t by simp
    then show ?thesis using False st by (simp add: divmod_remainder_def)
  qed
  then show "limbs_val (divmod_remainder un n s) = limbs_val un div 2 ^ s"
    "length (divmod_remainder un n s) = n" by blast+
qed

lemma limbs_count_val:
  assumes "0 < n" "length xs = n"
  shows "limbs_val (take (bigint_normalize_limbs xs n) xs) = limbs_val xs"
    "limbs_norm (take (bigint_normalize_limbs xs n) xs)"
    "0 < bigint_normalize_limbs xs n" "bigint_normalize_limbs xs n \<le> length xs"
  using assms normalize_val [of n xs] limbs_norm_take_normalize [of n xs] normalize_pos [of n xs]
    normalize_le [of xs n] by simp_all

lemma limbs_norm_length_le:
  assumes "limbs_norm xs" "limbs_norm ys" "limbs_val xs \<le> limbs_val ys"
  shows "length xs \<le> length ys"
proof (rule ccontr)
  assume "\<not> length xs \<le> length ys"
  then have l: "length ys \<le> length xs - 1" "1 < length xs"
    using assms(2) by (cases ys; auto simp: limbs_norm_def)+
  have "limbs_val ys < base32 ^ (length xs - 1)" using l(1) by (rule limbs_val_less)
  also have "\<dots> \<le> limbs_val xs" by (rule limbs_norm_lower [OF assms(1) l(2)])
  finally show False using assms(3) by simp
qed

lemma knuth_divmod:
  assumes "limbs_norm num" "limbs_norm den" "1 < length den" "limbs_val den \<le> limbs_val num"
    and "divmod_normalise num den = (vn, un, s)"
    and "knuth_exact vn un (length num - length den) (length num - length den + 1)"
    and "knuth_loop vn un (length num - length den) (length num - length den + 1) = (un', q)"
  shows "length q = length num - length den + 1" "limbs_val q = limbs_val num div limbs_val den"
    and "limbs_val (divmod_remainder un' (length den) s) = limbs_val num mod limbs_val den"
    and "length (divmod_remainder un' (length den) s) = length den"
proof -
  let ?m = "length num - length den"
  note nv = divmod_normalise_val [OF assms(2,3,5)]
  have le: "length den \<le> length num" by (rule limbs_norm_length_le [OF assms(2,1,4)])
  have lens: "2 \<le> length vn" "length un = ?m + length vn + 1" using nv(2,3) le assms(3) by simp_all
  have "limbs_val num < base32 ^ length num" by (rule limbs_val_bound)
  also have "\<dots> = base32 ^ (length den - 1) * base32 ^ Suc ?m"
  proof -
    have "length den - 1 + Suc ?m = length num" using le assms(3) by linarith
    then show ?thesis by (metis power_add)
  qed
  also have "\<dots> \<le> limbs_val den * base32 ^ Suc ?m"
    using limbs_norm_lower [OF assms(2,3)] by (rule mult_le_mono1)
  finally have "limbs_val un < limbs_val vn * base32 ^ Suc ?m"
    using nv(4,5) by (simp add: algebra_simps)
  note lp = knuth_loop_val [OF lens nv(6) this, of "Suc ?m" un' q]
  have inv: "length un' = length un" "length q = Suc ?m"
    "limbs_val un' + limbs_val den * 2 ^ s * limbs_val q = limbs_val num * 2 ^ s"
    "limbs_val un' < limbs_val den * 2 ^ s"
    using lp assms(6,7) nv(4,5) by simp_all
  then show "length q = ?m + 1" by simp
  have dvd: "2 ^ s dvd limbs_val un'"
    using inv(3) by (metis dvd_add_left_iff dvd_triv_left dvd_triv_right mult.commute mult.left_commute)
  then obtain r where r: "limbs_val un' = 2 ^ s * r" by (rule dvdE)
  have "2 ^ s * (r + limbs_val den * limbs_val q) = 2 ^ s * limbs_val num"
    using inv(3) by (simp add: r algebra_simps)
  then have "r + limbs_val den * limbs_val q = limbs_val num" by (simp only: mult_cancel1) simp
  then have num: "limbs_val num = limbs_val q * limbs_val den + r" by (simp add: algebra_simps)
  have "r < limbs_val den" using inv(4) by (simp add: r mult.commute)
  with num have "limbs_val num div limbs_val den = limbs_val q" "limbs_val num mod limbs_val den = r"
    by simp_all
  moreover have "limbs_val un' < base32 ^ length den"
    using inv(4) limbs_val_bound [of vn] nv(2,4) by simp
  note divmod_remainder_val [OF this _ nv(1)]
  ultimately show "limbs_val q = limbs_val num div limbs_val den"
    "limbs_val (divmod_remainder un' (length den) s) = limbs_val num mod limbs_val den"
    "length (divmod_remainder un' (length den) s) = length den"
    using inv(1) lens(2) nv(2) by (simp_all add: r)
qed

text \<open>What a successful call returns for the parts asked for, and when it fails.\<close>

definition limb_result :: "limbs \<times> nat \<Rightarrow> nat \<Rightarrow> nat \<Rightarrow> bool" where
  "limb_result res cap v \<longleftrightarrow>
     (case res of (xs, n) \<Rightarrow> 0 < n \<and> n \<le> length xs \<and> n \<le> cap \<and> limbs_val (take n xs) = v)"

lemma limb_result_normalize:
  "0 < n \<Longrightarrow> length xs = n \<Longrightarrow> n \<le> cap \<Longrightarrow> limbs_val xs = v \<Longrightarrow>
   limb_result (xs, bigint_normalize_limbs xs n) cap v"
  using limbs_count_val [of n xs] by (simp add: limb_result_def)

lemma limb_result_single: "0 < cap \<Longrightarrow> unat x = v \<Longrightarrow> limb_result ([x], Suc 0) cap v"
  by (simp add: limb_result_def Suc_le_eq)

lemma bigint_divmod_abs_limbs_cases:
  assumes "limbs_norm num" "limbs_norm den" "limbs_val den \<noteq> 0" "divmod_exact num den"
  shows "(\<not> ample_memory m \<and> bigint_divmod_abs_limbs m num den wq wr = None) \<or>
    (\<exists>q r. bigint_divmod_abs_limbs m num den wq wr = Some (if wq then Some q else None, if wr then Some r else None) \<and>
       limb_result q (length num) (limbs_val num div limbs_val den) \<and>
       limb_result r (length num) (limbs_val num mod limbs_val den))"
    (is "?oom \<or> (\<exists>q r. ?res q r)")
proof -
  have ne: "num \<noteq> []" "den \<noteq> []" "0 < length num"
    using assms(1,2) by (auto simp: limbs_norm_def)
  have dz: "\<not> (length den = 1 \<and> den ! 0 = 0)"
    using assms(3) by (cases den) auto
  note cmp = cmp_abs_cases [OF ne(1,2)]
  consider (small) "bigint_cmp_abs_limbs num den < 0" | (one) "\<not> bigint_cmp_abs_limbs num den < 0" "length den = 1"
    | (long) "\<not> bigint_cmp_abs_limbs num den < 0" "1 < length den"
    using ne(2) by (cases den) (auto simp: Suc_lessI)
  then show ?thesis
  proof cases
    case small
    then have "limbs_val num < limbs_val den" using cmp by simp
    then have "limbs_val num div limbs_val den = 0" "limbs_val num mod limbs_val den = limbs_val num" by simp_all
    then have "limb_result ([0], 1) (length num) (limbs_val num div limbs_val den)"
      "limb_result (num, bigint_normalize_limbs num (length num)) (length num) (limbs_val num mod limbs_val den)"
      using ne(3) by (auto intro!: limb_result_single limb_result_normalize)
    then have "?oom \<or> ?res ([0], 1) (num, bigint_normalize_limbs num (length num))"
      using small dz by (auto simp: bigint_divmod_abs_limbs_def Let_def)
    then show ?thesis by blast
  next
    case one
    obtain q rem where st: "bigint_div_small_inplace num (den ! 0) = (q, rem)" by force
    then obtain rem' where st': "div_small_loop num (den ! 0) (length num) = (q, rem')" "rem = ucast rem'"
      by (auto simp: bigint_div_small_inplace_def split: prod.splits)
    have d: "den ! 0 \<noteq> 0" "limbs_val den = unat (den ! 0)" using one(2) dz by (cases den; simp)+
    note val = bigint_div_small_inplace_val [OF st d(1)]
    have "limb_result (q, bigint_normalize_limbs q (length num)) (length num) (limbs_val num div limbs_val den)"
      "limb_result ([ucast rem'], 1) (length num) (limbs_val num mod limbs_val den)"
      using val d ne(3) st'(2) by (auto intro!: limb_result_single limb_result_normalize)
    then have "?oom \<or> ?res (q, bigint_normalize_limbs q (length num)) ([ucast rem'], 1)"
      using one dz st'(1) by (auto simp: bigint_divmod_abs_limbs_def Let_def)
    then show ?thesis by blast
  next
    case long
    obtain vn un s where nrm: "divmod_normalise num den = (vn, un, s)" by (metis prod_cases3)
    let ?m = "length num - length den"
    obtain un' q where lp: "knuth_loop vn un ?m (?m + 1) = (un', q)" by force
    have le: "limbs_val den \<le> limbs_val num" using long(1) cmp by simp
    have "knuth_exact vn un ?m (?m + 1)"
      using assms(4) long nrm by (simp add: divmod_exact_def)
    note kd = knuth_divmod [OF assms(1,2) long(2) le nrm this lp]
    have len: "length den \<le> length num" by (rule limbs_norm_length_le [OF assms(2,1) le])
    let ?r = "divmod_remainder un' (length den) s"
    have "limb_result (q, bigint_normalize_limbs q (?m + 1)) (length num) (limbs_val num div limbs_val den)"
      "limb_result (?r, bigint_normalize_limbs ?r (length den)) (length num) (limbs_val num mod limbs_val den)"
      using kd len long(2) by (auto intro!: limb_result_normalize)
    then have "?oom \<or> ?res (q, bigint_normalize_limbs q (?m + 1)) (?r, bigint_normalize_limbs ?r (length den))"
      using long dz nrm lp by (auto simp: bigint_divmod_abs_limbs_def Let_def simp del: knuth_loop.simps)
    then show ?thesis by blast
  qed
qed

section \<open>Division and remainder of values\<close>

definition bigint_div :: "mem_env \<Rightarrow> bigint \<Rightarrow> bigint \<Rightarrow> js_error + bigint" where
  "bigint_div m a b =
     (let aneg = bigint_is_negative a; bneg = bigint_is_negative b;
          ad = bi_limbs a; bd = bi_limbs b
      in if length bd = 1 \<and> bd ! 0 = 0 then Inl DivisionByZero
         else case bigint_divmod_abs_limbs m ad bd True False of
             Some (Some (quot, qlen), _) \<Rightarrow>
               js_mkbigint_limbs m quot qlen (aneg \<noteq> bneg \<and> \<not> (qlen = 1 \<and> quot ! 0 = 0))
           | _ \<Rightarrow> Inl Oom)"

definition bigint_mod :: "mem_env \<Rightarrow> bigint \<Rightarrow> bigint \<Rightarrow> js_error + bigint" where
  "bigint_mod m a b =
     (let aneg = bigint_is_negative a;
          ad = bi_limbs a; bd = bi_limbs b
      in if length bd = 1 \<and> bd ! 0 = 0 then Inl DivisionByZero
         else case bigint_divmod_abs_limbs m ad bd False True of
             Some (_, Some (rem, rlen)) \<Rightarrow>
               js_mkbigint_limbs m rem rlen (aneg \<and> \<not> (rlen = 1 \<and> rem ! 0 = 0))
           | _ \<Rightarrow> Inl Oom)"

text \<open>JavaScript's truncating quotient and its remainder, which has the sign of the dividend.\<close>

definition tdiv :: "int \<Rightarrow> int \<Rightarrow> int" where
  "tdiv a b = sgn a * sgn b * (\<bar>a\<bar> div \<bar>b\<bar>)"

definition tmod :: "int \<Rightarrow> int \<Rightarrow> int" where
  "tmod a b = sgn a * (\<bar>a\<bar> mod \<bar>b\<bar>)"

lemma tdiv_tmod: "tdiv a b * b + tmod a b = a"
proof -
  have "tdiv a b * b = sgn a * (\<bar>a\<bar> div \<bar>b\<bar> * (b * sgn b))"
    by (simp add: tdiv_def mult_ac)
  also have "b * sgn b = \<bar>b\<bar>" by (simp add: abs_sgn)
  finally have "tdiv a b * b + tmod a b = sgn a * (\<bar>a\<bar> div \<bar>b\<bar> * \<bar>b\<bar> + \<bar>a\<bar> mod \<bar>b\<bar>)"
    by (simp only: tmod_def distrib_left)
  then show ?thesis by (simp add: sgn_mult_abs)
qed

lemma limb_result_mkbigint:
  assumes "limb_result (xs, n) cap v"
  shows "bigint_returns m cap (js_mkbigint_limbs m xs n (neg \<and> \<not> (n = 1 \<and> xs ! 0 = 0)))
    (if neg then - int v else int v)"
proof -
  have n: "0 < n" "n \<le> length xs" "n \<le> cap" "limbs_val (take n xs) = v"
    using assms by (simp_all add: limb_result_def)
  have "v = 0" if "n = 1 \<and> xs ! 0 = 0"
    using that n by (cases xs) auto
  then have "signed_mag (neg \<and> \<not> (n = 1 \<and> xs ! 0 = 0)) (take n xs) = (if neg then - int v else int v)"
    using n(4) by (auto simp: signed_mag_def)
  then show ?thesis
    using js_mkbigint_limbs_returns [OF n(1-3), of m "neg \<and> \<not> (n = 1 \<and> xs ! 0 = 0)"] by simp
qed

lemma val_abs_limbs: "bigint_wf v \<Longrightarrow> \<bar>bigint_val v\<bar> = int (limbs_val (bi_limbs v))"
  by (simp add: bigint_val_def signed_mag_def)

lemma bigint_val_sgn:
  assumes "bigint_wf v"
  shows "sgn (bigint_val v) = (if bi_sign v then - 1 else if limbs_val (bi_limbs v) = 0 then 0 else 1)"
proof (cases "bi_sign v")
  case True
  then show ?thesis using bigint_neg_val [OF assms] by simp
next
  case False
  then show ?thesis by (simp add: bigint_val_def signed_mag_def sgn_if)
qed

lemma zero_limbs_iff: "bigint_wf v \<Longrightarrow> length (bi_limbs v) = 1 \<and> bi_limbs v ! 0 = 0 \<longleftrightarrow> bigint_val v = 0"
  using zero_limbs_val by (simp add: limbs_is_zero_def)

lemma bigint_div_zero:
  assumes "bigint_wf b" "bigint_val b = 0"
  shows "bigint_div m a b = Inl DivisionByZero" "bigint_mod m a b = Inl DivisionByZero"
  using zero_limbs_iff [OF assms(1)] assms(2) by (simp_all add: bigint_div_def bigint_mod_def)

lemma bigint_returns_oom: "\<not> ample_memory m \<Longrightarrow> bigint_returns m c (Inl Oom) z"
  by (simp add: bigint_returns_def)

lemma bigint_div_mod_returns:
  assumes "bigint_wf a" "bigint_wf b" "bigint_val b \<noteq> 0" "divmod_exact (bi_limbs a) (bi_limbs b)"
  shows "bigint_returns m (length (bi_limbs a)) (bigint_div m a b) (tdiv (bigint_val a) (bigint_val b))"
    and "bigint_returns m (length (bi_limbs a)) (bigint_mod m a b) (tmod (bigint_val a) (bigint_val b))"
proof -
  let ?n = "limbs_val (bi_limbs a)" and ?d = "limbs_val (bi_limbs b)"
  have "bigint_val b = 0" if "?d = 0" using that by (simp add: bigint_val_def signed_mag_def)
  then have d: "?d \<noteq> 0" using assms(3) by blast
  note sg = bigint_val_sgn [OF assms(1)] bigint_val_sgn [OF assms(2)]
  note abs = val_abs_limbs [OF assms(1)] val_abs_limbs [OF assms(2)]
  have q: "tdiv (bigint_val a) (bigint_val b) = (if bi_sign a \<noteq> bi_sign b then - int (?n div ?d) else int (?n div ?d))"
    unfolding tdiv_def sg abs zdiv_int [symmetric] using d by simp
  have r: "tmod (bigint_val a) (bigint_val b) = (if bi_sign a then - int (?n mod ?d) else int (?n mod ?d))"
    unfolding tmod_def sg abs zmod_int [symmetric] by simp
  note nz = zero_limbs_iff [OF assms(2)]
  note cs = bigint_divmod_abs_limbs_cases [OF bigint_wfD(1) [OF assms(1)] bigint_wfD(1) [OF assms(2)] d assms(4), of m]
  show "bigint_returns m (length (bi_limbs a)) (bigint_div m a b) (tdiv (bigint_val a) (bigint_val b))"
    unfolding q
  proof (rule disjE [OF cs [of True False]], goal_cases)
    case 1
    then have "bigint_div m a b = Inl Oom" using nz assms(3) by (simp add: bigint_div_def Let_def)
    with 1 show ?case by (simp add: bigint_returns_oom)
  next
    case 2
    then obtain xs n where res: "bigint_divmod_abs_limbs m (bi_limbs a) (bi_limbs b) True False = Some (Some (xs, n), None)"
      and lr: "limb_result (xs, n) (length (bi_limbs a)) (?n div ?d)" by auto
    have "bigint_div m a b = js_mkbigint_limbs m xs n (bi_sign a \<noteq> bi_sign b \<and> \<not> (n = 1 \<and> xs ! 0 = 0))"
      using res nz assms(3) by (auto simp: bigint_div_def bigint_is_negative_def Let_def)
    then show ?case using limb_result_mkbigint [OF lr, of m "bi_sign a \<noteq> bi_sign b"] by simp
  qed
  show "bigint_returns m (length (bi_limbs a)) (bigint_mod m a b) (tmod (bigint_val a) (bigint_val b))"
    unfolding r
  proof (rule disjE [OF cs [of False True]], goal_cases)
    case 1
    then have "bigint_mod m a b = Inl Oom" using nz assms(3) by (simp add: bigint_mod_def Let_def)
    with 1 show ?case by (simp add: bigint_returns_oom)
  next
    case 2
    then obtain xs n where res: "bigint_divmod_abs_limbs m (bi_limbs a) (bi_limbs b) False True = Some (None, Some (xs, n))"
      and lr: "limb_result (xs, n) (length (bi_limbs a)) (?n mod ?d)" by auto
    have "bigint_mod m a b = js_mkbigint_limbs m xs n (bi_sign a \<and> \<not> (n = 1 \<and> xs ! 0 = 0))"
      using res nz assms(3) by (auto simp: bigint_mod_def bigint_is_negative_def Let_def)
    then show ?case using limb_result_mkbigint [OF lr, of m "bi_sign a"] by simp
  qed
qed

section \<open>Divisors for which the long division is always exact\<close>

lemma knuth_exact_second_limb:
  "vn ! (length vn - 2) = 0 \<Longrightarrow> knuth_exact vn un m k"
  by (auto simp: knuth_exact_def knuth_step_exact_def list_all_iff not_less split: prod.splits)

lemma divmod_exact_power_of_two:
  assumes "limbs_norm den" "limbs_val den = 2 ^ k"
  shows "divmod_exact num den"
proof (cases "length den = 1")
  case True
  then show ?thesis by (simp add: divmod_exact_def)
next
  case False
  have "1 < length den" using assms(1) False by (cases den) (auto simp: limbs_norm_def)
  obtain vn un s where nrm: "divmod_normalise num den = (vn, un, s)" by (metis prod_cases3)
  note nv = divmod_normalise_val [OF assms(1) \<open>1 < length den\<close> nrm]
  define n where "n = length vn - 2"
  have len: "length vn = n + 2" using nv(2) \<open>1 < length den\<close> by (simp add: n_def)
  have val: "limbs_val vn = 2 ^ (k + s)" using nv(4) assms(2) by (simp add: power_add)
  have "base32 ^ (length den - 1) \<le> limbs_val den" by (rule limbs_norm_lower [OF assms(1) \<open>1 < length den\<close>])
  also have "\<dots> \<le> limbs_val vn" using nv(4) by simp
  finally have "(2 :: nat) ^ (32 * (n + 1)) \<le> 2 ^ (k + s)"
    using len nv(2) by (simp add: base32_power val)
  then have ks: "32 * (n + 1) \<le> k + s" by simp
  have "limbs_val vn div base32 ^ n = 2 ^ (k + s - 32 * n)"
    unfolding val base32_power using ks by (simp add: power_diff [symmetric])
  also have "\<dots> = base32 * 2 ^ (k + s - 32 * (n + 1))"
  proof -
    have "k + s - 32 * n = 32 + (k + s - 32 * (n + 1))" using ks by arith
    then show ?thesis by (simp only: base32_def power_add)
  qed
  finally have "limbs_val vn div base32 ^ n = base32 * 2 ^ (k + s - 32 * (n + 1))" .
  moreover have "limbs_val vn div base32 ^ n = unat (vn ! n) + base32 * (limbs_val vn div base32 ^ Suc n)"
    using len by (intro limbs_val_div_Suc) simp
  ultimately have "unat (vn ! n) mod base32 = 0"
    by (metis mod_mult_self1_is_0 mod_mult_self2)
  then have "vn ! n = 0" using unat_u32_bound [of "vn ! n"] by (simp add: unat_eq_zero)
  then have "knuth_exact vn un (length num - length den) (length num - length den + 1)"
    by (intro knuth_exact_second_limb) (simp add: n_def)
  with nrm show ?thesis by (simp add: divmod_exact_def)
qed

end
