(* ===== verification/Text_Digits.thy ===== *)
theory Text_Digits
  imports Ant_Prelude
begin

text \<open>
  Bytes of ASCII text and positional notation: \<^verbatim>\<open>hex_digit\<close> and \<^verbatim>\<open>hex_char\<close> of
  \<^verbatim>\<open>src/utils.c\<close>, the decimal conversions \<^verbatim>\<open>%u\<close> and \<^verbatim>\<open>%09u\<close> of \<^verbatim>\<open>snprintf\<close>, and the
  reference functions \<open>radix_repr\<close> (the digits of a number) and \<open>digits_val\<close> (the number
  of a digit list), which are inverse to each other.
\<close>

section \<open>Characters\<close>

definition ascii :: "string \<Rightarrow> bytes" where
  "ascii s = map (\<lambda>c. word_of_nat (of_char c)) s"

definition hex_digit :: "u8 \<Rightarrow> int" where
  "hex_digit c =
     (let n = unat c
      in if 48 \<le> n \<and> n \<le> 57 then int n - 48
         else if 97 \<le> n \<and> n \<le> 102 then int n - 87
         else if 65 \<le> n \<and> n \<le> 70 then int n - 55
         else - 1)"

definition hex_char :: "nat \<Rightarrow> u8" where
  "hex_char v = ascii ''0123456789abcdef'' ! (v mod 16)"

text \<open>The digit map of \<^verbatim>\<open>bigint_abs_to_radix_string\<close>.\<close>

definition digit_map :: bytes where
  "digit_map = ascii ''0123456789abcdefghijklmnopqrstuvwxyz''"

definition digit_char :: "nat \<Rightarrow> u8" where
  "digit_char d = digit_map ! d"

lemma digit_char_code: "d < 36 \<Longrightarrow> digit_char d = word_of_nat (if d < 10 then 48 + d else 87 + d)"
proof -
  have "\<forall>d \<in> set [0..<36]. digit_char d = word_of_nat (if d < 10 then 48 + d else 87 + d)"
    by code_simp
  then show "d < 36 \<Longrightarrow> digit_char d = word_of_nat (if d < 10 then 48 + d else 87 + d)"
    by (simp only: set_upt atLeastLessThan_iff) simp
qed

lemma hex_digit_digit_char: "d < 16 \<Longrightarrow> hex_digit (digit_char d) = int d"
proof -
  have "\<forall>d \<in> set [0..<16]. hex_digit (digit_char d) = int d"
    by code_simp
  then show "d < 16 \<Longrightarrow> hex_digit (digit_char d) = int d"
    by (simp only: set_upt atLeastLessThan_iff) simp
qed

lemma digit_char_not_underscore: "d < 36 \<Longrightarrow> digit_char d \<noteq> 95"
proof -
  have "\<forall>d \<in> set [0..<36]. digit_char d \<noteq> 95"
    by code_simp
  then show "d < 36 \<Longrightarrow> digit_char d \<noteq> 95"
    by (simp only: set_upt atLeastLessThan_iff) simp
qed

lemma hex_digit_range: "hex_digit c < 16" "- 1 \<le> hex_digit c"
  by (auto simp: hex_digit_def Let_def simp del: of_nat_unat)

section \<open>Positional notation\<close>

function radix_repr :: "nat \<Rightarrow> nat \<Rightarrow> nat list" where
  "radix_repr b n = (if n < b \<or> b < 2 then [n] else radix_repr b (n div b) @ [n mod b])"
  by pat_completeness auto
termination
  by (relation "measure snd") (auto simp: div_less_dividend)

declare radix_repr.simps [simp del]

definition digits_val :: "nat \<Rightarrow> nat list \<Rightarrow> nat" where
  "digits_val b ds = foldl (\<lambda>acc d. acc * b + d) 0 ds"

lemma digits_val_simps [simp]:
  "digits_val b [] = 0" "digits_val b (ds @ [d]) = digits_val b ds * b + d"
  by (simp_all add: digits_val_def)

lemma radix_repr_val: "digits_val b (radix_repr b n) = n"
proof (induction b n rule: radix_repr.induct)
  case (1 b n)
  show ?case
  proof (cases "n < b \<or> b < 2")
    case True
    then have "radix_repr b n = [] @ [n]" by (subst radix_repr.simps) simp
    then show ?thesis by (simp only: digits_val_simps)
  next
    case False
    then have "radix_repr b n = radix_repr b (n div b) @ [n mod b]" by (subst radix_repr.simps) simp
    then show ?thesis using "1.IH" False by (simp only: digits_val_simps) simp
  qed
qed

lemma radix_repr_nonempty [simp]: "radix_repr b n \<noteq> []"
  by (subst radix_repr.simps) simp

lemma radix_repr_digits: "2 \<le> b \<Longrightarrow> d \<in> set (radix_repr b n) \<Longrightarrow> d < b"
proof (induction b n rule: radix_repr.induct)
  case (1 b n)
  from "1.prems"(2) have "d \<in> set (if n < b \<or> b < 2 then [n] else radix_repr b (n div b) @ [n mod b])"
    by (subst (asm) radix_repr.simps)
  with 1 show ?case by (auto split: if_splits)
qed

text \<open>No leading zero, except for zero itself.\<close>

lemma radix_repr_hd: "2 \<le> b \<Longrightarrow> 0 < n \<Longrightarrow> 0 < hd (radix_repr b n)"
proof (induction b n rule: radix_repr.induct)
  case (1 b n)
  show ?case
  proof (cases "n < b")
    case True
    then show ?thesis using 1 by (subst radix_repr.simps) simp
  next
    case False
    then have "0 < n div b" using "1.prems"(1) by (simp add: div_greater_zero_iff)
    with False 1 show ?thesis by (subst radix_repr.simps) simp
  qed
qed

text \<open>Digits of fixed width, most significant first.\<close>

primrec fixed_repr :: "nat \<Rightarrow> nat \<Rightarrow> nat \<Rightarrow> nat list" where
  "fixed_repr b 0 n = []"
| "fixed_repr b (Suc k) n = fixed_repr b k (n div b) @ [n mod b]"

lemma radix_repr_append:
  "2 \<le> b \<Longrightarrow> 0 < q \<Longrightarrow> r < b ^ k \<Longrightarrow> radix_repr b (q * b ^ k + r) = radix_repr b q @ fixed_repr b k r"
proof (induction k arbitrary: r)
  case 0
  then show ?case by simp
next
  case (Suc k)
  have split: "q * b ^ Suc k + r = (q * b ^ k + r div b) * b + r mod b"
    by (simp add: algebra_simps)
  have "b \<le> q * b ^ Suc k"
    using Suc.prems(1,2) by (simp add: Suc_le_eq)
  then have "\<not> q * b ^ Suc k + r < b" by linarith
  then have "radix_repr b (q * b ^ Suc k + r)
      = radix_repr b ((q * b ^ Suc k + r) div b) @ [(q * b ^ Suc k + r) mod b]"
    using Suc.prems(1) by (subst radix_repr.simps) simp
  also have "(q * b ^ Suc k + r) div b = q * b ^ k + r div b"
    unfolding split using Suc.prems(1) by simp
  also have "(q * b ^ Suc k + r) mod b = r mod b"
    unfolding split by simp
  also have "radix_repr b (q * b ^ k + r div b) = radix_repr b q @ fixed_repr b k (r div b)"
    using Suc.prems by (intro Suc.IH) (simp_all add: less_mult_imp_div_less mult.commute)
  finally show ?case by simp
qed

lemma fixed_repr_length [simp]: "length (fixed_repr b k r) = k"
  by (induction k arbitrary: r) simp_all

lemma fixed_repr_0 [simp]: "0 < b \<Longrightarrow> fixed_repr b k 0 = replicate k 0"
  by (induction k) (simp_all add: replicate_append_same)

lemma fixed_repr_pad:
  "2 \<le> b \<Longrightarrow> r < b ^ k \<Longrightarrow> 0 < k \<Longrightarrow>
   length (radix_repr b r) \<le> k \<and> replicate (k - length (radix_repr b r)) 0 @ radix_repr b r = fixed_repr b k r"
proof (induction k arbitrary: r)
  case 0
  then show ?case by simp
next
  case (Suc k)
  show ?case
  proof (cases "r < b")
    case True
    then have "radix_repr b r = [r]" by (subst radix_repr.simps) simp
    with True Suc.prems show ?thesis by simp
  next
    case False
    then have rr: "radix_repr b r = radix_repr b (r div b) @ [r mod b]"
      using Suc.prems(1) by (subst radix_repr.simps) simp
    have "k \<noteq> 0" using False Suc.prems(2) by (cases k) auto
    then have "length (radix_repr b (r div b)) \<le> k \<and>
      replicate (k - length (radix_repr b (r div b))) 0 @ radix_repr b (r div b) = fixed_repr b k (r div b)"
      using Suc.prems by (intro Suc.IH) (simp_all add: less_mult_imp_div_less mult.commute)
    then show ?thesis by (simp add: rr)
  qed
qed

section \<open>Decimal conversions of \<^verbatim>\<open>snprintf\<close>\<close>

definition dec_string :: "nat \<Rightarrow> bytes" where
  "dec_string n = map digit_char (radix_repr 10 n)"

definition dec_string_pad9 :: "nat \<Rightarrow> bytes" where
  "dec_string_pad9 n = replicate (9 - length (dec_string n)) 48 @ dec_string n"

lemma dec_string_pad9_eq:
  assumes "n < 10 ^ 9"
  shows "dec_string_pad9 n = map digit_char (fixed_repr 10 9 n)"
proof -
  have "(48 :: u8) = digit_char 0" by code_simp
  moreover have "map digit_char (fixed_repr 10 9 n) =
      replicate (9 - length (radix_repr 10 n)) (digit_char 0) @ map digit_char (radix_repr 10 n)"
    using fixed_repr_pad [of 10 n 9] assms by (metis map_append map_replicate le_numeral_extra(4)
        one_le_numeral zero_less_numeral numeral_le_iff semiring_norm(68,69,71))
  ultimately show ?thesis by (simp add: dec_string_pad9_def dec_string_def)
qed

end
