(* ===== verification/Bigint_Text.thy ===== *)
theory Bigint_Text
  imports Bigint_Div Text_Digits
begin

unbundle bit_operations_syntax

text \<open>
  BigInt literals and strings (\<^verbatim>\<open>src/modules/bigint.c\<close>): reading digits of base 2, 8, 10
  and 16 into limbs, and writing a magnitude in decimal or in another radix. Reading is
  proved to refine a scan over natural numbers, writing to produce the positional
  notation \<open>radix_repr\<close>, and reading what was written to give the value back.
\<close>

section \<open>Growing buffers\<close>

text \<open>\<^verbatim>\<open>grow_u32_buffer\<close>: the doubled capacity.\<close>

definition grow_u32_buffer :: "mem_env \<Rightarrow> nat \<Rightarrow> nat option" where
  "grow_u32_buffer m cap =
     (if cap = 0 \<or> cap > size_max div 2 then None
      else let new_cap = cap * 2
           in if alloc_ok m (new_cap * 4 mod (size_max + 1)) then Some new_cap else None)"

function append_carry_limbs :: "mem_env \<Rightarrow> limbs \<Rightarrow> nat \<Rightarrow> u64 \<Rightarrow> js_error + limbs \<times> nat" where
  "append_carry_limbs m limbs cap carry =
     (if carry \<noteq> 0 then
        (case (if length limbs = cap then grow_u32_buffer m cap else Some cap) of
           None \<Rightarrow> Inl Oom
         | Some cap \<Rightarrow>
             if length limbs \<ge> cap then Inl BufferOverrun
             else append_carry_limbs m (limbs @ [ucast carry]) cap (drop_bit 32 carry))
      else Inr (limbs, cap))"
  by pat_completeness auto
termination
proof (relation "measure (\<lambda>(m, limbs, cap, carry). unat carry)")
  fix m :: mem_env and limbs :: limbs and cap cap' :: nat and carry :: u64
  assume "carry \<noteq> 0"
  then have "unat carry div base32 < unat carry"
    by (intro div_less_dividend) (simp_all add: unat_gt_0)
  then show "((m, limbs @ [ucast carry], cap', drop_bit 32 carry), m, limbs, cap, carry)
      \<in> measure (\<lambda>(m, limbs, cap, carry). unat carry)"
    by simp
qed simp

declare append_carry_limbs.simps [simp del]

section \<open>Reading digits\<close>

text \<open>Multiply the limbs by the base and add a digit: the limbs and carry after \<open>j\<close> iterations.\<close>

primrec muladd_loop :: "limbs \<Rightarrow> u32 \<Rightarrow> u64 \<Rightarrow> nat \<Rightarrow> limbs \<times> u64" where
  "muladd_loop limbs base digit 0 = ([], digit)"
| "muladd_loop limbs base digit (Suc j) =
     (case muladd_loop limbs base digit j of (res, carry) \<Rightarrow>
       let cur = ucast (limbs ! j) * ucast base + carry
       in (res @ [ucast cur], drop_bit 32 cur))"

fun parse_digits_loop ::
  "mem_env \<Rightarrow> nat \<Rightarrow> bool \<Rightarrow> bytes \<Rightarrow> limbs \<Rightarrow> nat \<Rightarrow> bool \<Rightarrow> bool \<Rightarrow> js_error + limbs \<times> bool \<times> bool"
where
  "parse_digits_loop m base allow_separators [] limbs cap has_digit prev_sep =
     Inr (limbs, has_digit, prev_sep)"
| "parse_digits_loop m base allow_separators (ch # rest) limbs cap has_digit prev_sep =
     (if ch = 95 then
        (if \<not> allow_separators \<or> \<not> has_digit \<or> prev_sep then Inl CannotConvertStringToBigInt
         else parse_digits_loop m base allow_separators rest limbs cap has_digit True)
      else
        (let digit = hex_digit ch
         in if digit < 0 \<or> digit \<ge> int base then Inl CannotConvertStringToBigInt
            else case muladd_loop limbs (of_nat base) (of_int digit) (length limbs) of (limbs, carry) \<Rightarrow>
              bind_err (if carry \<noteq> 0 then append_carry_limbs m limbs cap carry else Inr (limbs, cap))
                (\<lambda>(limbs, cap). parse_digits_loop m base allow_separators rest limbs cap True False)))"

text \<open>The base a literal announces with its prefix, and where its digits start.\<close>

definition literal_base :: "bytes \<Rightarrow> nat \<times> nat" where
  "literal_base digits =
     (if length digits \<ge> 2 \<and> digits ! 0 = 48 then
        (let p = digits ! 1 OR 0x20
         in if p = 120 then (16, 2) else if p = 111 then (8, 2) else if p = 98 then (2, 2) else (10, 0))
      else (10, 0))"

definition bigint_from_string_digits ::
  "mem_env \<Rightarrow> bytes \<Rightarrow> bool \<Rightarrow> bool \<Rightarrow> js_error + bigint" where
  "bigint_from_string_digits m digits negative allow_separators =
     (let len = length digits
      in if len = 0 then js_mkbigint_limbs m [0] 1 False
         else case literal_base digits of (base, start) \<Rightarrow>
           if start \<ge> len then Inl CannotConvertStringToBigInt
           else
             (let cap = len div 8 + 2;
                  cap = (if cap < 4 then 4 else cap)
              in if \<not> limb_alloc m cap then Inl Oom
                 else bind_err
                   (parse_digits_loop m base allow_separators (drop start digits) [0] cap False False)
                   (\<lambda>(limbs, has_digit, prev_sep).
                     if \<not> has_digit \<or> prev_sep then Inl CannotConvertStringToBigInt
                     else js_mkbigint_limbs m limbs (length limbs) negative)))"

definition js_mkbigint :: "mem_env \<Rightarrow> bytes \<Rightarrow> bool \<Rightarrow> js_error + bigint" where
  "js_mkbigint m digits negative = bigint_from_string_digits m digits negative True"

text \<open>The same scan over natural numbers.\<close>

fun scan_digits :: "nat \<Rightarrow> bool \<Rightarrow> bytes \<Rightarrow> nat \<Rightarrow> bool \<Rightarrow> bool \<Rightarrow> (nat \<times> bool \<times> bool) option" where
  "scan_digits base sep [] v has prev = Some (v, has, prev)"
| "scan_digits base sep (ch # rest) v has prev =
     (if ch = 95 then (if sep \<and> has \<and> \<not> prev then scan_digits base sep rest v has True else None)
      else if 0 \<le> hex_digit ch \<and> hex_digit ch < int base
      then scan_digits base sep rest (v * base + nat (hex_digit ch)) True False
      else None)"

lemma muladd_loop_inv:
  assumes "unat base \<le> 16" "unat digit < unat base"
  shows "j \<le> length xs \<Longrightarrow> muladd_loop xs base digit j = (r, c) \<Longrightarrow>
    length r = j \<and> unat c < unat base \<and>
    limbs_val r + base32 ^ j * unat c = limbs_val (take j xs) * unat base + unat digit"
proof (induction j arbitrary: r c)
  case 0
  then show ?case using assms by simp
next
  case (Suc j)
  obtain r0 c0 where st: "muladd_loop xs base digit j = (r0, c0)" by force
  have inv: "length r0 = j" "unat c0 < unat base"
    "limbs_val r0 + base32 ^ j * unat c0 = limbs_val (take j xs) * unat base + unat digit"
    using Suc.IH [OF _ st] Suc.prems(1) by simp_all
  define cur where "cur = ucast (xs ! j) * ucast base + c0"
  have res: "r = r0 @ [ucast cur]" "c = drop_bit 32 cur"
    using Suc.prems(2) st by (auto simp: Let_def cur_def)
  have x: "unat (xs ! j) + 1 \<le> base32" using unat_u32_bound [of "xs ! j"] by simp
  have lim: "unat (xs ! j) * unat base + unat c0 < base32 * unat base"
    using mult_le_mono1 [OF x, of "unat base"] inv(2) by (simp add: algebra_simps)
  have "base32 * unat base \<le> base32 * base32"
    using assms(1) by (intro mult_le_mono2) (simp add: base32_def)
  with lim have big: "unat (xs ! j) * unat base + unat c0 < base32 * base32" by linarith
  then have "unat (ucast (xs ! j) * ucast base :: u64) = unat (xs ! j) * unat base"
    by (subst unat_mult_u64) simp_all
  with big have cur: "unat cur = unat (xs ! j) * unat base + unat c0"
    unfolding cur_def by (subst unat_add_u64) simp_all
  have c: "unat c < unat base"
    using lim cur by (simp add: res less_mult_imp_div_less mult.commute)
  have "base32 ^ j * unat cur = base32 ^ j * (unat cur mod base32) + base32 ^ Suc j * unat c"
    using carry_split [of j "unat cur"] by (simp add: res)
  moreover have "base32 ^ j * unat cur = base32 ^ j * unat (xs ! j) * unat base + base32 ^ j * unat c0"
    by (simp add: cur algebra_simps)
  moreover have "limbs_val (take (Suc j) xs) * unat base
      = limbs_val (take j xs) * unat base + base32 ^ j * unat (xs ! j) * unat base"
    using Suc.prems(1) by (simp add: limbs_val_take_Suc limb_at_def algebra_simps)
  moreover have "limbs_val r = limbs_val r0 + base32 ^ j * (unat cur mod base32)"
    using inv(1) by (simp add: res limbs_val_snoc)
  ultimately have "limbs_val r + base32 ^ Suc j * unat c = limbs_val (take (Suc j) xs) * unat base + unat digit"
    using inv(3) by linarith
  with c inv(1) show ?case by (simp add: res)
qed

text \<open>A carry below \<open>2 ^ 32\<close> is appended as one limb, growing the buffer only when it is full.\<close>

lemma append_carry_one:
  assumes "carry \<noteq> 0" "unat carry < base32" "0 < length xs" "length xs \<le> cap"
  shows "append_carry_limbs m xs cap carry = Inl Oom \<and> \<not> (ample_memory m \<and> length xs < 2 ^ 62) \<or>
    (\<exists>cap'. append_carry_limbs m xs cap carry = Inr (xs @ [ucast carry], cap') \<and> length xs + 1 \<le> cap')"
proof -
  have stop: "append_carry_limbs m ys c (drop_bit 32 carry) = Inr (ys, c)" for ys c
  proof -
    have "drop_bit 32 carry = 0" using assms(2) by (simp add: unat_eq_zero [symmetric] del: unat_eq_zero)
    then show ?thesis by (subst append_carry_limbs.simps) simp
  qed
  show ?thesis
  proof (cases "length xs = cap")
    case False
    then have "append_carry_limbs m xs cap carry = Inr (xs @ [ucast carry], cap)"
      using assms stop by (subst append_carry_limbs.simps) simp
    then show ?thesis using False assms(4) by simp
  next
    case full: True
    show ?thesis
    proof (cases "grow_u32_buffer m cap")
      case None
      then have "\<not> (ample_memory m \<and> length xs < 2 ^ 62)"
        using full assms(3) by (auto simp: grow_u32_buffer_def Let_def size_max_def split: if_splits)
      moreover have "append_carry_limbs m xs cap carry = Inl Oom"
        using None full assms(1) by (subst append_carry_limbs.simps) simp
      ultimately show ?thesis by blast
    next
      case (Some cap')
      then have "cap' = cap * 2" by (auto simp: grow_u32_buffer_def Let_def split: if_splits)
      then have "length xs + 1 \<le> cap'" using full assms(3) by simp
      moreover have "append_carry_limbs m xs cap carry = Inr (xs @ [ucast carry], cap')"
        using Some full assms(1) stop calculation by (subst append_carry_limbs.simps) simp
      ultimately show ?thesis by blast
    qed
  qed
qed

text \<open>One digit: the limbs afterwards, or out of memory.\<close>

lemma parse_digit_step:
  fixes m :: mem_env and xs r :: limbs and c :: u64 and cap base :: nat and d :: int
  assumes "2 \<le> base" "base \<le> 16" "0 \<le> d" "d < int base" "0 < length xs" "length xs \<le> cap"
    and "muladd_loop xs (of_nat base) (of_int d) (length xs) = (r, c)"
  defines "out \<equiv> if c \<noteq> 0 then append_carry_limbs m r cap c else Inr (r, cap)"
  shows "out = Inl Oom \<and> \<not> (ample_memory m \<and> length xs < 2 ^ 62) \<or>
    (\<exists>ys cap'. out = Inr (ys, cap') \<and> 0 < length ys \<and> length ys \<le> cap' \<and> length ys \<le> length xs + 1 \<and>
      limbs_val ys = limbs_val xs * base + nat d)"
proof -
  have b: "unat (of_nat base :: u32) = base"
    using assms(2) by (simp add: unsigned_of_nat take_bit_nat_eq_self)
  have d: "unat (of_int d :: u64) = nat d"
  proof -
    have "of_int d = (of_nat (nat d) :: u64)" using assms(3) by simp
    moreover have "nat d < 2 ^ 64" using assms(2,4) by simp
    ultimately show ?thesis by (simp add: unsigned_of_nat take_bit_nat_eq_self)
  qed
  have "nat d < base" using assms(3,4) by linarith
  then have inv: "length r = length xs" "unat c < base"
    "limbs_val r + base32 ^ length xs * unat c = limbs_val xs * base + nat d"
    using muladd_loop_inv [OF _ _ order_refl assms(7)] assms(2) by (simp_all add: b d)
  show ?thesis
  proof (cases "c = 0")
    case True
    then show ?thesis using inv assms(5,6) by (simp add: out_def del: length_greater_0_conv)
  next
    case False
    have c: "unat c < base32" using inv(2) assms(2) by (simp add: base32_def)
    have "append_carry_limbs m r cap c = Inl Oom \<and> \<not> (ample_memory m \<and> length r < 2 ^ 62) \<or>
      (\<exists>cap'. append_carry_limbs m r cap c = Inr (r @ [ucast c], cap') \<and> length r + 1 \<le> cap')"
      using assms(5,6) inv(1) by (intro append_carry_one [OF False c]) simp_all
    moreover have "limbs_val (r @ [ucast c]) = limbs_val xs * base + nat d"
      using inv c by (simp add: limbs_val_snoc)
    ultimately show ?thesis using False inv(1) by (auto simp: out_def)
  qed
qed

lemma parse_digits_loop_refines:
  assumes "2 \<le> base" "base \<le> 16"
  shows "0 < length xs \<Longrightarrow> length xs \<le> cap \<Longrightarrow>
   (case parse_digits_loop m base sep cs xs cap has prev of
      Inl e \<Rightarrow> e = CannotConvertStringToBigInt \<and> scan_digits base sep cs (limbs_val xs) has prev = None
        \<or> e = Oom \<and> \<not> (ample_memory m \<and> length xs + length cs < 2 ^ 62)
    | Inr (ys, has', prev') \<Rightarrow> scan_digits base sep cs (limbs_val xs) has prev = Some (limbs_val ys, has', prev')
        \<and> 0 < length ys \<and> length ys \<le> length xs + length cs)"
proof (induction cs arbitrary: xs cap has prev)
  case Nil
  then show ?case by simp
next
  case (Cons ch cs)
  show ?case
  proof (cases "ch = 95")
    case True
    then show ?thesis
      using Cons.IH [OF Cons.prems, of has True] by (auto split: sum.splits)
  next
    case sep: False
    show ?thesis
    proof (cases "0 \<le> hex_digit ch \<and> hex_digit ch < int base")
      case False
      then show ?thesis using sep by auto
    next
      case True
      obtain r c where st: "muladd_loop xs (of_nat base) (of_int (hex_digit ch)) (length xs) = (r, c)" by force
      define out where "out = (if c \<noteq> 0 then append_carry_limbs m r cap c else Inr (r, cap))"
      have eq: "parse_digits_loop m base sep (ch # cs) xs cap has prev
          = bind_err out (\<lambda>(limbs, cap). parse_digits_loop m base sep cs limbs cap True False)"
        using sep True st by (simp add: out_def Let_def)
      from parse_digit_step [OF assms _ _ Cons.prems st, of m, folded out_def] True
      consider "out = Inl Oom" "\<not> (ample_memory m \<and> length xs < 2 ^ 62)"
        | ys cap' where "out = Inr (ys, cap')" "0 < length ys" "length ys \<le> cap'" "length ys \<le> length xs + 1"
            "limbs_val ys = limbs_val xs * base + nat (hex_digit ch)"
        by blast
      then show ?thesis
      proof cases
        case 1
        then have "\<not> (ample_memory m \<and> length xs + length (ch # cs) < 2 ^ 62)" by auto
        with 1 show ?thesis unfolding eq by simp
      next
        case 2
        then show ?thesis
          using Cons.IH [OF 2(2,3), of True False] sep True unfolding eq by (auto split: sum.splits)
      qed
    qed
  qed
qed

text \<open>
  The numerals: at least one digit of the base, single separators between digits only.
\<close>

definition numeral_ok :: "nat \<Rightarrow> bool \<Rightarrow> bytes \<Rightarrow> bool" where
  "numeral_ok base sep cs \<longleftrightarrow>
     cs \<noteq> [] \<and> hd cs \<noteq> 95 \<and> last cs \<noteq> 95 \<and>
     list_all (\<lambda>c. c = 95 \<and> sep \<or> c \<noteq> 95 \<and> 0 \<le> hex_digit c \<and> hex_digit c < int base) cs \<and>
     successively (\<lambda>a b. \<not> (a = 95 \<and> b = 95)) cs"

definition numeral_val :: "nat \<Rightarrow> bytes \<Rightarrow> nat" where
  "numeral_val base cs = digits_val base (map (\<lambda>c. nat (hex_digit c)) (filter (\<lambda>c. c \<noteq> 95) cs))"

lemma scan_digits_tail:
  "scan_digits base sep cs v True prev = Some (v', True, False) \<longleftrightarrow>
     (cs = [] \<longrightarrow> \<not> prev) \<and> (cs \<noteq> [] \<longrightarrow> last cs \<noteq> 95) \<and>
     list_all (\<lambda>c. c = 95 \<and> sep \<or> c \<noteq> 95 \<and> 0 \<le> hex_digit c \<and> hex_digit c < int base) cs \<and>
     successively (\<lambda>a b. \<not> (a = 95 \<and> b = 95)) (if prev then 95 # cs else cs) \<and>
     v' = foldl (\<lambda>acc d. acc * base + d) v (map (\<lambda>c. nat (hex_digit c)) (filter (\<lambda>c. c \<noteq> 95) cs))"
proof (induction cs arbitrary: v prev)
  case Nil
  then show ?case by auto
next
  case (Cons c cs)
  show ?case
  proof (cases "c = 95")
    case True
    then show ?thesis using Cons.IH [of v True] by (cases "sep \<and> \<not> prev") auto
  next
    case False
    then have "successively (\<lambda>a b. \<not> (a = 95 \<and> b = 95)) (c # cs) \<longleftrightarrow>
        successively (\<lambda>a b. \<not> (a = 95 \<and> b = 95)) cs"
      by (cases cs) auto
    with False show ?thesis
      by (cases "0 \<le> hex_digit c \<and> hex_digit c < int base") (auto simp: Cons.IH)
  qed
qed

lemma scan_digits_ok:
  "scan_digits base sep cs 0 False False = Some (v, True, False) \<longleftrightarrow> numeral_ok base sep cs \<and> v = numeral_val base cs"
proof (cases cs)
  case Nil
  then show ?thesis by (simp add: numeral_ok_def)
next
  case (Cons c cs')
  then show ?thesis
    by (cases cs') (auto simp: scan_digits_tail numeral_ok_def numeral_val_def digits_val_def successively_Cons)
qed

lemma literal_base_range: "literal_base cs = (base, start) \<Longrightarrow> 2 \<le> base \<and> base \<le> 16"
  by (auto simp: literal_base_def Let_def split: if_splits)

text \<open>Reading a literal: its value, or the error the source reports.\<close>

lemma bigint_from_string_digits_cases:
  assumes "cs \<noteq> []" "literal_base cs = (base, start)"
  shows "if numeral_ok base sep (drop start cs)
    then bigint_returns m (length cs + 1) (bigint_from_string_digits m cs neg sep)
           (if neg then - int (numeral_val base (drop start cs)) else int (numeral_val base (drop start cs)))
    else bigint_from_string_digits m cs neg sep = Inl CannotConvertStringToBigInt \<or>
      bigint_from_string_digits m cs neg sep = Inl Oom \<and> \<not> (ample_memory m \<and> length cs < 2 ^ 32)"
proof -
  define ds where "ds = drop start cs"
  define cap where "cap = (let cap = length cs div 8 + 2 in if cap < 4 then 4 else cap)"
  have cap: "length [0 :: u32] \<le> cap" by (simp add: cap_def Let_def)
  note base = conjunct1 [OF literal_base_range [OF assms(2)]] conjunct2 [OF literal_base_range [OF assms(2)]]
  consider "length cs \<le> start" | "\<not> length cs \<le> start" "\<not> limb_alloc m cap"
    | "\<not> length cs \<le> start" "limb_alloc m cap" by blast
  then show ?thesis
  proof cases
    case 1
    then have "bigint_from_string_digits m cs neg sep = Inl CannotConvertStringToBigInt"
      using assms by (simp add: bigint_from_string_digits_def)
    moreover have "\<not> numeral_ok base sep (drop start cs)" using 1 by (simp add: numeral_ok_def)
    ultimately show ?thesis by simp
  next
    case 2
    then have "bigint_from_string_digits m cs neg sep = Inl Oom"
      using assms by (simp add: bigint_from_string_digits_def cap_def Let_def split: if_splits)
    moreover have "\<not> ample_memory m" using 2(2) limb_alloc_ample by blast
    ultimately show ?thesis by (simp add: bigint_returns_def)
  next
    case 3
    define out where "out = parse_digits_loop m base sep ds [0] cap False False"
    have eq: "bigint_from_string_digits m cs neg sep = bind_err out (\<lambda>(limbs, has_digit, prev_sep).
        if \<not> has_digit \<or> prev_sep then Inl CannotConvertStringToBigInt
        else js_mkbigint_limbs m limbs (length limbs) neg)"
      using 3 assms
      by (simp add: bigint_from_string_digits_def Let_def out_def ds_def cap_def split: if_splits)
    note ref = parse_digits_loop_refines [OF base, where xs = "[0]" and cap = cap and m = m and sep = sep and cs = ds
        and has = False and prev = False, folded out_def, OF _ cap]
    have len: "length ds \<le> length cs" by (simp add: ds_def)
    show ?thesis
    proof (cases out)
      case (Inl e)
      then show ?thesis
        using ref len scan_digits_ok [of base sep ds "numeral_val base ds"]
        by (auto simp: eq bigint_returns_def simp flip: ds_def)
    next
      case (Inr res)
      obtain ys h p where res: "res = (ys, h, p)" by (metis prod_cases3)
      have sc: "scan_digits base sep ds 0 False False = Some (limbs_val ys, h, p)" "0 < length ys" "length ys \<le> length cs + 1"
        using ref len by (simp_all add: Inr res)
      show ?thesis
      proof (cases "h \<and> \<not> p")
        case True
        with sc scan_digits_ok [of base sep ds "limbs_val ys"]
        have ok: "numeral_ok base sep ds" "limbs_val ys = numeral_val base ds" by simp_all
        have "bigint_from_string_digits m cs neg sep = js_mkbigint_limbs m ys (length ys) neg"
          using True by (simp add: eq Inr res)
        with js_mkbigint_limbs_returns [OF sc(2) order_refl sc(3), of m neg] ok show ?thesis
          by (cases neg) (simp_all add: signed_mag_def flip: ds_def)
      next
        case False
        have "\<not> numeral_ok base sep ds"
          using scan_digits_ok [of base sep ds "numeral_val base ds"] sc(1) False by auto
        with False show ?thesis by (simp add: eq Inr res flip: ds_def)
      qed
    qed
  qed
qed

section \<open>Writing decimal\<close>

definition u32_dec_len :: "u32 \<Rightarrow> nat" where
  "u32_dec_len v =
     (if v \<ge> 1000000000 then 10 else if v \<ge> 100000000 then 9 else if v \<ge> 10000000 then 8
      else if v \<ge> 1000000 then 7 else if v \<ge> 100000 then 6 else if v \<ge> 10000 then 5
      else if v \<ge> 1000 then 4 else if v \<ge> 100 then 3 else if v \<ge> 10 then 2 else 1)"

text \<open>
  The groups of nine digits, least significant first, of a magnitude with at least one
  limb (which \<^verbatim>\<open>bigint_limbs\<close> guarantees); \<open>tmp\<close> is the live part of the scratch copy.
\<close>

lemma normalized_quotient_less:
  assumes "xs \<noteq> []" "\<not> limbs_is_zero xs (length xs)" "bigint_div_small_inplace xs d = (q, r)" "2 \<le> unat d"
  shows "limbs_val (take (bigint_normalize_limbs q (length q)) q) < limbs_val xs \<or>
    limbs_val (take (bigint_normalize_limbs q (length q)) q) = limbs_val xs \<and>
    bigint_normalize_limbs q (length q) < length xs"
proof -
  have "d \<noteq> 0" using assms(4) by auto
  note val = bigint_div_small_inplace_val [OF assms(3) this]
  have len: "0 < length q" using val(3) assms(1) by simp
  have v: "limbs_val (take (bigint_normalize_limbs q (length q)) q) = limbs_val xs div unat d"
    using limbs_count_val(1) [OF len refl] val(1) by simp
  show ?thesis
  proof (cases "limbs_val xs = 0")
    case False
    then show ?thesis using v assms(4) by (simp add: div_less_dividend)
  next
    case True
    have "take (bigint_normalize_limbs q (length q)) q = [0]"
      using limbs_norm_zero_iff [OF limbs_count_val(2) [OF len refl]] v True by simp
    then have "bigint_normalize_limbs q (length q) = 1"
      using normalize_le [of q "length q"] by (metis length_Cons length_take list.size(3) min.absorb2 One_nat_def)
    moreover have "1 < length xs"
      using assms(1,2) True by (cases xs; cases "tl xs") (auto simp: limbs_is_zero_def unat_eq_zero)
    ultimately show ?thesis using v True by simp
  qed
qed

function dec_groups_loop :: "mem_env \<Rightarrow> limbs \<Rightarrow> u32 list \<Rightarrow> nat \<Rightarrow> js_error + u32 list" where
  "dec_groups_loop m tmp groups cap =
     (if tmp = [] \<or> limbs_is_zero tmp (length tmp) then Inr groups
      else case (if length groups = cap then grow_u32_buffer m cap else Some cap) of
          None \<Rightarrow> Inl Oom
        | Some cap \<Rightarrow>
            if length groups \<ge> cap then Inl BufferOverrun
            else case bigint_div_small_inplace tmp 1000000000 of (q, rem) \<Rightarrow>
              dec_groups_loop m (take (bigint_normalize_limbs q (length q)) q) (groups @ [rem]) cap)"
  by pat_completeness auto
termination
proof (relation "measures [\<lambda>(m, tmp, groups, cap). limbs_val tmp, \<lambda>(m, tmp, groups, cap). length tmp]")
  fix m :: mem_env and tmp q :: limbs and groups :: "u32 list" and cap cap' :: nat and rem :: u32
  assume "\<not> (tmp = [] \<or> limbs_is_zero tmp (length tmp))" "(q, rem) = bigint_div_small_inplace tmp 1000000000"
  then have "limbs_val (take (bigint_normalize_limbs q (length q)) q) < limbs_val tmp \<or>
    limbs_val (take (bigint_normalize_limbs q (length q)) q) = limbs_val tmp \<and>
    bigint_normalize_limbs q (length q) < length tmp"
    by (intro normalized_quotient_less [where d = 1000000000 and r = rem]) auto
  then show "((m, take (bigint_normalize_limbs q (length q)) q, groups @ [rem], cap'), m, tmp, groups, cap)
      \<in> measures [\<lambda>(m, tmp, groups, cap). limbs_val tmp, \<lambda>(m, tmp, groups, cap). length tmp]"
    by auto
qed simp

declare dec_groups_loop.simps [simp del]

text \<open>One \<^verbatim>\<open>snprintf(out + pos, len + 1 - pos, \<dots>)\<close>: at most the room left is written.\<close>

definition snprintf_at :: "nat \<Rightarrow> bytes \<Rightarrow> bytes \<Rightarrow> bytes" where
  "snprintf_at len out s = out @ take (len - length out) s"

definition bigint_abs_to_decimal_string :: "mem_env \<Rightarrow> limbs \<Rightarrow> js_error + bytes" where
  "bigint_abs_to_decimal_string m limbs =
     (let count = length limbs
      in if limbs_is_zero limbs count then (if alloc_ok m 2 then Inr [48] else Inl Oom)
         else if \<not> limb_alloc m count then Inl Oom
         else if \<not> alloc_ok m ((count * 2 + 1) * 4) then Inl Oom
         else bind_err (dec_groups_loop m limbs [] (count * 2 + 1))
           (\<lambda>groups.
             let len = u32_dec_len (groups ! (length groups - 1)) + (length groups - 1) * 9
             in if \<not> alloc_ok m (len + 1) then Inl Oom
                else Inr (foldl (\<lambda>out g. snprintf_at len out (dec_string_pad9 (unat g)))
                       (snprintf_at len [] (dec_string (unat (groups ! (length groups - 1)))))
                       (rev (take (length groups - 1) groups)))))"

lemma u32_dec_len_eq: "u32_dec_len v = length (dec_string (unat v))"
proof -
  define n where "n = unat v"
  have n: "n < 10 ^ 10" using unat_u32_bound [of v] by (simp add: n_def base32_def)
  have "length (radix_repr 10 n) = (if 10 \<le> n then Suc (length (radix_repr 10 (n div 10))) else 1)" for n
    by (subst radix_repr.simps) simp
  note step = this
  have "length (radix_repr 10 n) =
      (if n \<ge> 1000000000 then 10 else if n \<ge> 100000000 then 9 else if n \<ge> 10000000 then 8
      else if n \<ge> 1000000 then 7 else if n \<ge> 100000 then 6 else if n \<ge> 10000 then 5
      else if n \<ge> 1000 then 4 else if n \<ge> 100 then 3 else if n \<ge> 10 then 2 else 1)"
    using n by (subst step, subst step, subst step, subst step, subst step, subst step, subst step,
        subst step, subst step, subst step) (simp add: div_mult2_eq [symmetric] less_eq_div_iff_mult_less_eq)
  then show ?thesis
    by (simp add: u32_dec_len_def dec_string_def n_def word_le_nat_alt)
qed

text \<open>The groups are the base \<open>10 ^ 9\<close> digits of the magnitude.\<close>

primrec groups_val :: "u32 list \<Rightarrow> nat" where
  "groups_val [] = 0"
| "groups_val (g # gs) = unat g + 10 ^ 9 * groups_val gs"

lemma groups_val_append: "groups_val (xs @ ys) = groups_val xs + (10 ^ 9) ^ length xs * groups_val ys"
  by (induction xs) (simp_all add: algebra_simps)

text \<open>
  Each step divides by \<open>10 ^ 9\<close>, so \<open>tmp\<close> is below \<open>(10 ^ 9) ^ k\<close> only after \<open>k\<close> steps
  and the loop needs at most \<open>2 * count\<close> groups: the buffer is never grown.
\<close>

lemma dec_groups_loop_val:
  "tmp \<noteq> [] \<Longrightarrow> limbs_norm tmp \<Longrightarrow> limbs_val tmp < (10 ^ 9) ^ (cap - length groups) \<Longrightarrow> length groups \<le> cap \<Longrightarrow>
   \<exists>gs. dec_groups_loop m tmp groups cap = Inr (groups @ gs) \<and> groups_val gs = limbs_val tmp \<and>
     list_all (\<lambda>g. unat g < 10 ^ 9) gs \<and> (gs \<noteq> [] \<longrightarrow> last gs \<noteq> 0) \<and> (limbs_val tmp \<noteq> 0 \<longrightarrow> gs \<noteq> [])"
proof (induction m tmp groups cap rule: dec_groups_loop.induct)
  case (1 m tmp groups cap)
  show ?case
  proof (cases "limbs_is_zero tmp (length tmp)")
    case True
    then have "limbs_val tmp = 0" by (simp add: limbs_is_zero_iff)
    with True show ?thesis by (subst dec_groups_loop.simps) simp
  next
    case False
    then have pos: "0 < limbs_val tmp"
      using limbs_norm_zero_iff [OF "1.prems"(2)] by (simp add: limbs_is_zero_iff)
    have room: "length groups < cap"
      using "1.prems"(3,4) pos by (cases "length groups = cap") auto
    obtain q rem where st: "bigint_div_small_inplace tmp 1000000000 = (q, rem)" by force
    have val: "limbs_val q = limbs_val tmp div 10 ^ 9" "unat rem = limbs_val tmp mod 10 ^ 9" "length q = length tmp"
      using bigint_div_small_inplace_val [OF st] by simp_all
    define tmp' where "tmp' = take (bigint_normalize_limbs q (length q)) q"
    have len: "0 < length q" using val(3) "1.prems"(1) by simp
    note cnt = limbs_count_val [OF len refl]
    have t': "tmp' \<noteq> []" "limbs_norm tmp'" "limbs_val tmp' = limbs_val tmp div 10 ^ 9"
      using cnt val(1) len by (auto simp: tmp'_def)
    have "limbs_val tmp < 10 ^ 9 * (10 ^ 9) ^ (cap - length (groups @ [rem]))"
      using "1.prems"(3) room by (simp add: power_Suc [symmetric] Suc_diff_Suc del: power_Suc)
    then have lt: "limbs_val tmp' < (10 ^ 9) ^ (cap - length (groups @ [rem]))"
      unfolding t'(3) by (simp add: less_mult_imp_div_less mult.commute)
    have "\<exists>gs. dec_groups_loop m tmp' (groups @ [rem]) cap = Inr ((groups @ [rem]) @ gs) \<and> groups_val gs = limbs_val tmp' \<and>
     list_all (\<lambda>g. unat g < 10 ^ 9) gs \<and> (gs \<noteq> [] \<longrightarrow> last gs \<noteq> 0) \<and> (limbs_val tmp' \<noteq> 0 \<longrightarrow> gs \<noteq> [])"
      unfolding tmp'_def
      using False "1.prems"(1) room t' lt by (intro "1.IH" [OF _ _ _ st [symmetric]]) (simp_all add: tmp'_def)
    then obtain gs where gs: "dec_groups_loop m tmp' (groups @ [rem]) cap = Inr (groups @ rem # gs)"
      "groups_val gs = limbs_val tmp'" "list_all (\<lambda>g. unat g < 10 ^ 9) gs" "gs \<noteq> [] \<longrightarrow> last gs \<noteq> 0"
      "limbs_val tmp' \<noteq> 0 \<longrightarrow> gs \<noteq> []" by auto
    have "dec_groups_loop m tmp groups cap = Inr (groups @ rem # gs)"
      using False "1.prems"(1) room st gs(1) by (subst dec_groups_loop.simps) (simp add: tmp'_def)
    moreover have "groups_val (rem # gs) = limbs_val tmp"
      using gs(2) t'(3) val(2) by simp
    moreover have "last (rem # gs) \<noteq> 0"
    proof (cases "gs = []")
      case True
      then have "limbs_val tmp div 10 ^ 9 = 0" using gs(5) t'(3) by auto
      then have "unat rem \<noteq> 0" using val(2) pos by (simp add: div_eq_0_iff)
      with True show ?thesis by auto
    next
      case False
      then show ?thesis using gs(4) by simp
    qed
    ultimately show ?thesis
      using gs(3) val(2) by (intro exI [of _ "rem # gs"]) simp
  qed
qed

text \<open>Writing the groups, most significant first.\<close>

lemma snprintf_groups:
  "list_all (\<lambda>g. unat g < 10 ^ 9) gs \<Longrightarrow> length out + 9 * length gs \<le> len \<Longrightarrow>
   foldl (\<lambda>out g. snprintf_at len out (dec_string_pad9 (unat g))) out gs
     = out @ concat (map (\<lambda>g. map digit_char (fixed_repr 10 9 (unat g))) gs)"
proof (induction gs arbitrary: out)
  case (Cons g gs)
  have "snprintf_at len out (dec_string_pad9 (unat g)) = out @ map digit_char (fixed_repr 10 9 (unat g))"
    using Cons.prems by (simp add: snprintf_at_def dec_string_pad9_eq)
  with Cons show ?case by simp
qed simp

lemma radix_repr_groups:
  "0 < q \<Longrightarrow> list_all (\<lambda>g. unat g < 10 ^ 9) gs \<Longrightarrow>
   radix_repr 10 (q * (10 ^ 9) ^ length gs + groups_val gs)
     = radix_repr 10 q @ concat (map (\<lambda>g. fixed_repr 10 9 (unat g)) (rev gs))"
proof (induction gs)
  case (Cons g gs)
  have "q * (10 ^ 9) ^ length (g # gs) + groups_val (g # gs)
      = (q * (10 ^ 9) ^ length gs + groups_val gs) * 10 ^ 9 + unat g"
    by (simp add: algebra_simps)
  also have "radix_repr 10 \<dots> = radix_repr 10 (q * (10 ^ 9) ^ length gs + groups_val gs) @ fixed_repr 10 9 (unat g)"
    using Cons.prems by (intro radix_repr_append) simp_all
  finally show ?case using Cons by simp
qed simp

lemma limbs_dec_groups_bound: "limbs_val xs < (10 ^ 9) ^ (length xs * 2 + 1)"
proof -
  have "base32 \<le> (10 ^ 9) ^ 2" by (simp add: base32_def)
  then have "base32 ^ length xs \<le> ((10 ^ 9) ^ 2) ^ length xs" by (rule power_mono) simp
  also have "\<dots> \<le> (10 ^ 9) ^ (length xs * 2 + 1)"
    by (simp only: power_mult [symmetric]) (intro power_increasing; simp)
  finally show ?thesis using limbs_val_bound [of xs] by (rule order_less_le_trans [rotated])
qed

lemma bigint_abs_to_decimal_string_cases:
  assumes "limbs_norm xs"
  shows "bigint_abs_to_decimal_string m xs = Inr (map digit_char (radix_repr 10 (limbs_val xs))) \<or>
    bigint_abs_to_decimal_string m xs = Inl Oom \<and> \<not> ample_memory m"
proof (cases "xs = [0]")
  case True
  have "map digit_char (radix_repr 10 0) = [48]" by code_simp
  with True show ?thesis
    by (auto simp: bigint_abs_to_decimal_string_def limbs_is_zero_def)
next
  case False
  let ?cap = "length xs * 2 + 1"
  have ne: "xs \<noteq> []" and nz: "\<not> limbs_is_zero xs (length xs)" "limbs_val xs \<noteq> 0"
    using assms False limbs_norm_zero_iff [OF assms] by (auto simp: limbs_norm_def limbs_is_zero_iff)
  obtain gs where gs: "dec_groups_loop m xs [] ?cap = Inr gs" "groups_val gs = limbs_val xs"
    "list_all (\<lambda>g. unat g < 10 ^ 9) gs" "last gs \<noteq> 0" "gs \<noteq> []"
    using dec_groups_loop_val [of xs ?cap "[]" m] limbs_dec_groups_bound [of xs] ne assms nz(2) by auto
  define lo top where "lo = butlast gs" and "top = last gs"
  have split: "gs = lo @ [top]" using gs(5) by (simp add: lo_def top_def)
  have idx: "length gs - Suc 0 = length lo" "gs ! length lo = top" "take (length lo) gs = lo"
    by (simp_all add: split)
  define len where "len = u32_dec_len top + length lo * 9"
  have lo: "list_all (\<lambda>g. unat g < 10 ^ 9) (rev lo)" using gs(3) by (simp add: split list_all_iff)
  have top: "0 < unat top" using gs(4) by (simp add: top_def unat_gt_0)
  have "snprintf_at len [] (dec_string (unat top)) = map digit_char (radix_repr 10 (unat top))"
    by (simp add: snprintf_at_def len_def u32_dec_len_eq dec_string_def)
  moreover have "length (map digit_char (radix_repr 10 (unat top))) + 9 * length (rev lo) \<le> len"
    by (simp add: len_def u32_dec_len_eq dec_string_def)
  ultimately have "foldl (\<lambda>out g. snprintf_at len out (dec_string_pad9 (unat g)))
      (snprintf_at len [] (dec_string (unat top))) (rev lo)
      = map digit_char (radix_repr 10 (unat top) @ concat (map (\<lambda>g. fixed_repr 10 9 (unat g)) (rev lo)))"
    using snprintf_groups [OF lo] by (simp add: map_concat comp_def)
  also have "\<dots> = map digit_char (radix_repr 10 (limbs_val xs))"
    using radix_repr_groups [OF top, of lo] lo gs(2)
    by (simp add: split groups_val_append mult.commute add.commute list_all_iff)
  finally show ?thesis
    using gs(1) nz(1) by (auto simp: bigint_abs_to_decimal_string_def Let_def idx len_def)
qed

section \<open>Writing in another radix\<close>

text \<open>
  The digits, least significant first, in a buffer of \<open>cap\<close> bytes that is doubled when it
  has room for one byte only; the radix is at least 2.
\<close>

function radix_digits_loop :: "mem_env \<Rightarrow> limbs \<Rightarrow> u32 \<Rightarrow> bytes \<Rightarrow> nat \<Rightarrow> js_error + bytes" where
  "radix_digits_loop m tmp radix out cap =
     (if tmp = [] \<or> unat radix < 2 \<or> limbs_is_zero tmp (length tmp) then Inr out
      else case (if length out + 1 \<ge> cap
                 then (if alloc_ok m (cap * 2) then Some (cap * 2) else None) else Some cap) of
          None \<Rightarrow> Inl Oom
        | Some cap \<Rightarrow>
            if length out \<ge> cap then Inl BufferOverrun
            else case bigint_div_small_inplace tmp radix of (q, rem) \<Rightarrow>
              radix_digits_loop m (take (bigint_normalize_limbs q (length q)) q) radix
                (out @ [digit_map ! unat rem]) cap)"
  by pat_completeness auto
termination
proof (relation "measures [\<lambda>(m, tmp, radix, out, cap). limbs_val tmp, \<lambda>(m, tmp, radix, out, cap). length tmp]")
  fix m :: mem_env and tmp q :: limbs and radix rem :: u32 and out :: bytes and cap cap' :: nat
  assume "\<not> (tmp = [] \<or> unat radix < 2 \<or> limbs_is_zero tmp (length tmp))" "(q, rem) = bigint_div_small_inplace tmp radix"
  then have "limbs_val (take (bigint_normalize_limbs q (length q)) q) < limbs_val tmp \<or>
    limbs_val (take (bigint_normalize_limbs q (length q)) q) = limbs_val tmp \<and>
    bigint_normalize_limbs q (length q) < length tmp"
    by (intro normalized_quotient_less [where d = radix and r = rem]) auto
  then show "((m, take (bigint_normalize_limbs q (length q)) q, radix, out @ [digit_map ! unat rem], cap'),
        m, tmp, radix, out, cap)
      \<in> measures [\<lambda>(m, tmp, radix, out, cap). limbs_val tmp, \<lambda>(m, tmp, radix, out, cap). length tmp]"
    by auto
qed simp

declare radix_digits_loop.simps [simp del]

text \<open>The in-place reversal: the array after \<open>i\<close> swaps.\<close>

primrec reverse_loop :: "bytes \<Rightarrow> nat \<Rightarrow> bytes" where
  "reverse_loop out 0 = out"
| "reverse_loop out (Suc i) =
     (let r = reverse_loop out i; t = r ! i; j = length out - 1 - i
      in (r[i := r ! j])[j := t])"

definition bigint_abs_to_radix_string :: "mem_env \<Rightarrow> limbs \<Rightarrow> u32 \<Rightarrow> js_error + bytes" where
  "bigint_abs_to_radix_string m limbs radix =
     (let count = length limbs
      in if limbs_is_zero limbs count then (if alloc_ok m 2 then Inr [48] else Inl Oom)
         else if \<not> limb_alloc m count then Inl Oom
         else if \<not> alloc_ok m (count * 32 + 2) then Inl Oom
         else bind_err (radix_digits_loop m limbs radix [] (count * 32 + 2))
           (\<lambda>out. Inr (reverse_loop out (length out div 2))))"

lemma reverse_loop_nth:
  "2 * i \<le> length xs \<Longrightarrow> length (reverse_loop xs i) = length xs \<and>
   (\<forall>k < length xs. reverse_loop xs i ! k =
      (if k < i \<or> length xs \<le> k + i then xs ! (length xs - 1 - k) else xs ! k))"
proof (induction i)
  case 0
  then show ?case by simp
next
  case (Suc i)
  then have IH: "length (reverse_loop xs i) = length xs"
    "k < length xs \<Longrightarrow> reverse_loop xs i ! k =
      (if k < i \<or> length xs \<le> k + i then xs ! (length xs - 1 - k) else xs ! k)" for k
    by simp_all
  show ?case
  proof (intro conjI allI impI)
    show "length (reverse_loop xs (Suc i)) = length xs" using IH(1) by (simp add: Let_def)
    fix k assume k: "k < length xs"
    let ?j = "length xs - 1 - i"
    have "2 * i + 2 \<le> length xs" using Suc.prems by simp
    then have j: "i < length xs" "?j < length xs" "i < ?j" by linarith+
    have b: "length xs - 1 - ?j = i" using j by linarith
    show "reverse_loop xs (Suc i) ! k =
      (if k < Suc i \<or> length xs \<le> k + Suc i then xs ! (length xs - 1 - k) else xs ! k)"
      using j k IH Suc.prems b by (auto simp: Let_def nth_list_update)
  qed
qed

lemma reverse_loop_rev: "reverse_loop xs (length xs div 2) = rev xs"
proof (rule nth_equalityI)
  have r: "length (reverse_loop xs (length xs div 2)) = length xs"
    "k < length xs \<Longrightarrow> reverse_loop xs (length xs div 2) ! k =
      (if k < length xs div 2 \<or> length xs \<le> k + length xs div 2 then xs ! (length xs - 1 - k) else xs ! k)" for k
    using reverse_loop_nth [of "length xs div 2" xs] by simp_all
  then show "length (reverse_loop xs (length xs div 2)) = length (rev xs)" by simp
  fix k assume "k < length (reverse_loop xs (length xs div 2))"
  then have k: "k < length xs" using r by simp
  have "length xs - 1 - k = k" if "\<not> k < length xs div 2" "\<not> length xs \<le> k + length xs div 2"
    using that by linarith
  then show "reverse_loop xs (length xs div 2) ! k = rev xs ! k"
    using r(2) [OF k] k by (auto simp: rev_nth)
qed

lemma radix_digits_loop_val:
  "tmp \<noteq> [] \<Longrightarrow> limbs_norm tmp \<Longrightarrow> 2 \<le> unat radix \<Longrightarrow> unat radix \<le> 36 \<Longrightarrow>
   limbs_val tmp < 2 ^ (cap - 1 - length out) \<Longrightarrow> length out < cap \<Longrightarrow>
   radix_digits_loop m tmp radix out cap
     = Inr (out @ (if limbs_val tmp = 0 then [] else rev (map digit_char (radix_repr (unat radix) (limbs_val tmp)))))"
proof (induction m tmp radix out cap rule: radix_digits_loop.induct)
  case (1 m tmp radix out cap)
  show ?case
  proof (cases "limbs_is_zero tmp (length tmp)")
    case True
    then have "limbs_val tmp = 0" by (simp add: limbs_is_zero_iff)
    with True show ?thesis by (subst radix_digits_loop.simps) simp
  next
    case False
    let ?b = "unat radix"
    have pos: "0 < limbs_val tmp"
      using False limbs_norm_zero_iff [OF "1.prems"(2)] by (simp add: limbs_is_zero_iff)
    have room: "length out + 1 < cap"
      using "1.prems"(5,6) pos by (cases "cap - 1 - length out") auto
    obtain q rem where st: "bigint_div_small_inplace tmp radix = (q, rem)" by force
    have "radix \<noteq> 0" using "1.prems"(3) by auto
    note val = bigint_div_small_inplace_val [OF st this]
    define tmp' where "tmp' = take (bigint_normalize_limbs q (length q)) q"
    have len: "0 < length q" using val(3) "1.prems"(1) by simp
    note cnt = limbs_count_val [OF len refl]
    have t': "tmp' \<noteq> []" "limbs_norm tmp'" "limbs_val tmp' = limbs_val tmp div ?b"
      using cnt val(1) len by (auto simp: tmp'_def)
    have "limbs_val tmp < 2 * 2 ^ (cap - 1 - length (out @ [digit_map ! unat rem]))"
      using "1.prems"(5) room by (simp add: power_Suc [symmetric] Suc_diff_Suc del: power_Suc)
    moreover have "limbs_val tmp' * 2 \<le> limbs_val tmp"
      using t'(3) "1.prems"(3) by (metis div_times_less_eq_dividend le_trans mult_le_mono2)
    ultimately have lt: "limbs_val tmp' < 2 ^ (cap - 1 - length (out @ [digit_map ! unat rem]))"
      by linarith
    have rec: "radix_digits_loop m tmp' radix (out @ [digit_map ! unat rem]) cap = Inr ((out @ [digit_map ! unat rem]) @
        (if limbs_val tmp' = 0 then [] else rev (map digit_char (radix_repr ?b (limbs_val tmp')))))"
      unfolding tmp'_def
      using False "1.prems"(1,3,4) room t' lt
      by (intro "1.IH" [OF _ _ _ st [symmetric]]) (simp_all add: tmp'_def)
    have "radix_digits_loop m tmp radix out cap = radix_digits_loop m tmp' radix (out @ [digit_map ! unat rem]) cap"
      using False "1.prems"(1,3) room st by (subst radix_digits_loop.simps) (simp add: tmp'_def)
    moreover have "radix_repr ?b (limbs_val tmp)
        = (if limbs_val tmp' = 0 then [] else radix_repr ?b (limbs_val tmp')) @ [unat rem]"
      using "1.prems"(3) unfolding t'(3) val(2) by (subst radix_repr.simps) (auto simp: div_eq_0_iff)
    ultimately show ?thesis using rec pos by (simp add: digit_char_def [symmetric])
  qed
qed

lemma bigint_abs_to_radix_string_cases:
  assumes "limbs_norm xs" "2 \<le> unat radix" "unat radix \<le> 36"
  shows "bigint_abs_to_radix_string m xs radix = Inr (map digit_char (radix_repr (unat radix) (limbs_val xs))) \<or>
    bigint_abs_to_radix_string m xs radix = Inl Oom \<and> \<not> ample_memory m"
proof (cases "xs = [0]")
  case True
  have "radix_repr (unat radix) 0 = [0]" using assms(2) by (subst radix_repr.simps) simp
  moreover have "digit_char 0 = 48" by code_simp
  ultimately show ?thesis using True
    by (auto simp: bigint_abs_to_radix_string_def limbs_is_zero_def)
next
  case False
  have ne: "xs \<noteq> []" and nz: "\<not> limbs_is_zero xs (length xs)" "limbs_val xs \<noteq> 0"
    using assms(1) False limbs_norm_zero_iff [OF assms(1)] by (auto simp: limbs_norm_def limbs_is_zero_iff)
  have "limbs_val xs < 2 ^ (32 * length xs)" using limbs_val_bound [of xs] by (simp add: base32_power)
  also have "(2 :: nat) ^ (32 * length xs) \<le> 2 ^ (length xs * 32 + 2 - 1 - length ([] :: bytes))"
    by (intro power_increasing) simp_all
  finally have "radix_digits_loop m xs radix [] (length xs * 32 + 2)
      = Inr (rev (map digit_char (radix_repr (unat radix) (limbs_val xs))))"
    using radix_digits_loop_val [OF ne assms] nz(2) by simp
  then show ?thesis
    using nz(1) reverse_loop_rev by (auto simp: bigint_abs_to_radix_string_def Let_def)
qed

end
