(* ===== verification/Bigint_Literals.thy ===== *)
theory Bigint_Literals
  imports Bigint_Text
begin

unbundle bit_operations_syntax

text \<open>
  What a BigInt literal denotes, written down without the scanner of \<^verbatim>\<open>src/modules/bigint.c\<close>: a table of
  digits, a table of prefixes and the positional value. The scanner agrees with it.
\<close>

section \<open>Digits\<close>

definition digit_value :: "u8 \<Rightarrow> nat option" where
  "digit_value c = map_of (zip (map of_char ''0123456789abcdef'') [0..<16] @ zip (map of_char ''ABCDEF'') [10..<16]) (unat c)"

lemma digit_table:
  "digit_value c = map_of
     [(48, 0), (49, 1), (50, 2), (51, 3), (52, 4), (53, 5), (54, 6), (55, 7), (56, 8), (57, 9), (97, 10),
      (98, 11), (99, 12), (100, 13), (101, 14), (102, 15), (65, 10), (66, 11), (67, 12), (68, 13), (69, 14), (70, 15)]
     (unat c)"
proof -
  have "zip (map of_char ''0123456789abcdef'') [0..<16] @ zip (map of_char ''ABCDEF'') [10..<16] =
     ([(48, 0), (49, 1), (50, 2), (51, 3), (52, 4), (53, 5), (54, 6), (55, 7), (56, 8), (57, 9), (97, 10),
      (98, 11), (99, 12), (100, 13), (101, 14), (102, 15), (65, 10), (66, 11), (67, 12), (68, 13), (69, 14), (70, 15)] :: (nat \<times> nat) list)"
    by code_simp
  then show ?thesis by (simp only: digit_value_def)
qed

lemma hex_digit_value: "hex_digit c = (case digit_value c of None \<Rightarrow> - 1 | Some d \<Rightarrow> int d)"
proof -
  define n where "n = unat c"
  have "n = 48 \<or> n = 49 \<or> n = 50 \<or> n = 51 \<or> n = 52 \<or> n = 53 \<or> n = 54 \<or> n = 55 \<or> n = 56 \<or> n = 57" if "48 \<le> n \<and> n \<le> 57"
    using that by presburger
  moreover have "n = 97 \<or> n = 98 \<or> n = 99 \<or> n = 100 \<or> n = 101 \<or> n = 102" if "97 \<le> n \<and> n \<le> 102"
    using that by presburger
  moreover have "n = 65 \<or> n = 66 \<or> n = 67 \<or> n = 68 \<or> n = 69 \<or> n = 70" if "65 \<le> n \<and> n \<le> 70"
    using that by presburger
  ultimately show ?thesis
    unfolding hex_digit_def digit_table n_def [symmetric] Let_def by auto
qed

section \<open>Numerals\<close>

text \<open>At least one digit of the base; single underscores between digits where separators are allowed.\<close>

definition numeral_value :: "nat \<Rightarrow> bool \<Rightarrow> bytes \<Rightarrow> nat option" where
  "numeral_value base sep cs =
     (if cs \<noteq> [] \<and> hd cs \<noteq> 95 \<and> last cs \<noteq> 95 \<and> successively (\<lambda>a b. \<not> (a = 95 \<and> b = 95)) cs \<and>
         (\<forall>c \<in> set cs. c = 95 \<and> sep \<or> (\<exists>d < base. digit_value c = Some d))
      then Some (foldl (\<lambda>v d. v * base + d) 0 (List.map_filter digit_value cs)) else None)"

lemma digit_underscore: "digit_value 95 = None"
  unfolding digit_table by code_simp

lemma digit_ok_iff:
  "c = 95 \<and> sep \<or> c \<noteq> 95 \<and> 0 \<le> hex_digit c \<and> hex_digit c < int base \<longleftrightarrow>
   c = 95 \<and> sep \<or> (\<exists>d < base. digit_value c = Some d)"
  using digit_underscore by (auto simp: hex_digit_value split: option.splits)

lemma numeral_digits:
  assumes "\<forall>c \<in> set cs. c = 95 \<and> sep \<or> (\<exists>d < base. digit_value c = Some d)"
  shows "map (\<lambda>c. nat (hex_digit c)) (filter (\<lambda>c. c \<noteq> 95) cs) = List.map_filter digit_value cs"
  using assms by (induction cs) (auto simp: List.map_filter_simps digit_underscore hex_digit_value)

lemma numeral_value_eq: "numeral_value base sep cs = (if numeral_ok base sep cs then Some (numeral_val base cs) else None)"
proof -
  have ok: "numeral_ok base sep cs \<longleftrightarrow> cs \<noteq> [] \<and> hd cs \<noteq> 95 \<and> last cs \<noteq> 95 \<and>
      successively (\<lambda>a b. \<not> (a = 95 \<and> b = 95)) cs \<and> (\<forall>c \<in> set cs. c = 95 \<and> sep \<or> (\<exists>d < base. digit_value c = Some d))"
    unfolding numeral_ok_def list_all_iff digit_ok_iff by blast
  then show ?thesis
    using numeral_digits [of cs sep base] by (auto simp: numeral_value_def numeral_val_def digits_val_def)
qed

section \<open>Literals\<close>

definition literal_prefixes :: "(string \<times> nat) list" where
  "literal_prefixes = [(''0x'', 16), (''0X'', 16), (''0o'', 8), (''0O'', 8), (''0b'', 2), (''0B'', 2)]"

definition literal_value :: "bool \<Rightarrow> bytes \<Rightarrow> nat option" where
  "literal_value sep cs =
     (if cs = [] then Some 0
      else case find (\<lambda>(p, base). take 2 cs = ascii p) literal_prefixes of
          Some (p, base) \<Rightarrow> numeral_value base sep (drop 2 cs)
        | None \<Rightarrow> numeral_value 10 sep cs)"

lemma bit_push_one: "bit (push_bit 5 (1 :: u8)) n \<longleftrightarrow> n = 5"
proof -
  have "n - 5 = 0 \<and> 5 \<le> n \<longleftrightarrow> n = 5" by arith
  then show ?thesis by (auto simp only: bit_push_bit_iff bit_1_iff possible_bit_word) simp
qed

lemma or_case_bit: "c = c OR push_bit 5 1 \<or> c = (c OR push_bit 5 1) XOR push_bit 5 (1 :: u8)"
proof (cases "bit c 5")
  case True
  then have "c = c OR push_bit 5 1" by (intro bit_word_eqI) (auto simp only: bit_or_iff bit_push_one)
  then show ?thesis by blast
next
  case False
  then have "c = (c OR push_bit 5 1) XOR push_bit 5 1"
    by (intro bit_word_eqI) (auto simp only: bit_or_iff bit_xor_iff bit_push_one)
  then show ?thesis by blast
qed

lemma prefix_letters:
  fixes c :: u8
  shows "c OR 0x20 = 120 \<longleftrightarrow> c = 120 \<or> c = 88" "c OR 0x20 = 111 \<longleftrightarrow> c = 111 \<or> c = 79" "c OR 0x20 = 98 \<longleftrightarrow> c = 98 \<or> c = 66"
  using or_case_bit [of c] by auto

lemma prefix_bytes:
  "ascii ''0x'' = [48, 120]" "ascii ''0X'' = [48, 88]" "ascii ''0o'' = [48, 111]" "ascii ''0O'' = [48, 79]"
  "ascii ''0b'' = [48, 98]" "ascii ''0B'' = [48, 66]"
  by code_simp+

lemma literal_value_eq:
  assumes "cs \<noteq> []" and "literal_base cs = (base, start)"
  shows "literal_value sep cs = numeral_value base sep (drop start cs)"
proof (cases "2 \<le> length cs \<and> cs ! 0 = 48")
  case True
  then obtain c ds where cs: "cs = 48 # c # ds" by (cases cs; cases "tl cs") auto
  show ?thesis
    using assms(2) by (auto simp: cs literal_value_def literal_prefixes_def literal_base_def Let_def prefix_letters prefix_bytes split: if_splits)
next
  case False
  then have "take 2 cs \<noteq> [48, c]" for c by (cases cs; cases "tl cs") auto
  moreover have "base = 10" "start = 0" using assms(2) False by (auto simp: literal_base_def split: if_splits)
  ultimately show ?thesis using assms(1) by (simp add: literal_value_def literal_prefixes_def prefix_bytes)
qed

text \<open>The scanner reads what the literal denotes, or reports the error.\<close>

definition reads_literal :: "mem_env \<Rightarrow> nat \<Rightarrow> js_error + bigint \<Rightarrow> int option \<Rightarrow> bool" where
  "reads_literal m c out z \<longleftrightarrow>
     (case z of
        Some z \<Rightarrow> bigint_returns m c out z
      | None \<Rightarrow> out = Inl CannotConvertStringToBigInt \<or> out = Inl Oom \<and> \<not> (ample_memory m \<and> c \<le> 2 ^ 32))"

definition signed_value :: "bool \<Rightarrow> nat \<Rightarrow> int" where
  "signed_value neg n = (if neg then - int n else int n)"

lemma from_string_digits_reads:
  "reads_literal m (length cs + 1) (bigint_from_string_digits m cs neg sep) (map_option (signed_value neg) (literal_value sep cs))"
proof (cases "cs = []")
  case True
  have "bigint_returns m 1 (js_mkbigint_limbs m [0] 1 False) 0"
    using js_mkbigint_limbs_returns [of 1 "[0]" 1 m False] by (simp add: signed_mag_def)
  with True show ?thesis
    by (auto simp: reads_literal_def bigint_from_string_digits_def literal_value_def signed_value_def)
next
  case False
  obtain base start where base: "literal_base cs = (base, start)" by (cases "literal_base cs")
  show ?thesis
    using bigint_from_string_digits_cases [OF False base, of sep m neg] literal_value_eq [OF False base, of sep]
    by (auto simp: reads_literal_def numeral_value_eq signed_value_def split: if_splits)
qed

end
