(* ===== verification/Bigint_Builtins.thy ===== *)
theory Bigint_Builtins
  imports Complex_Main Bigint_Literals
begin

unbundle bit_operations_syntax

text \<open>
  The BigInt functions that scripts call (\<^verbatim>\<open>src/modules/bigint.c\<close>): conversion from and to
  64-bit integers, powers of two, exponentiation, \<^verbatim>\<open>BigInt.asIntN\<close> and \<^verbatim>\<open>BigInt.asUintN\<close>,
  \<^verbatim>\<open>BigInt(value)\<close>, \<^verbatim>\<open>toString\<close> and the console formatter \<^verbatim>\<open>strbigint\<close>.
\<close>

section \<open>64-bit integers\<close>

definition bigint_from_uint64 :: "mem_env \<Rightarrow> u64 \<Rightarrow> js_error + bigint" where
  "bigint_from_uint64 m value =
     (let limbs = [ucast (value AND 0xFFFFFFFF), ucast (drop_bit 32 value)];
          count = (if limbs ! 1 = 0 then 1 else 2)
      in js_mkbigint_limbs m limbs count False)"

text \<open>An \<^verbatim>\<open>int64_t\<close> is the same 64 bits read with a sign.\<close>

definition bigint_from_int64 :: "mem_env \<Rightarrow> u64 \<Rightarrow> js_error + bigint" where
  "bigint_from_int64 m value =
     (let magnitude = (if sint value < 0 then word_of_int (- (sint value + 1)) + 1 else value);
          limbs = [ucast (magnitude AND 0xFFFFFFFF), ucast (drop_bit 32 magnitude)];
          count = (if limbs ! 1 = 0 then 1 else 2)
      in js_mkbigint_limbs m limbs count (sint value < 0))"

definition bigint_low_u64 :: "bigint \<Rightarrow> u64" where
  "bigint_low_u64 v =
     (let limbs = bi_limbs v; count = length limbs;
          out = (if count > 0 then ucast (limbs ! 0) else 0)
      in if count > 1 then out OR push_bit 32 (ucast (limbs ! 1)) else out)"

definition bigint_to_uint64_wrapping :: "bigint \<Rightarrow> u64" where
  "bigint_to_uint64_wrapping v =
     (let low = bigint_low_u64 v in if bigint_is_negative v then 0 - low else low)"

definition bigint_to_int64_wrapping :: "bigint \<Rightarrow> int" where
  "bigint_to_int64_wrapping v = sint (bigint_to_uint64_wrapping v)"

definition bigint_parse_abs_u64 :: "bigint \<Rightarrow> u64 option" where
  "bigint_parse_abs_u64 v =
     (let limbs = bi_limbs v; count = length limbs
      in if count > 2 then None
         else Some (if count = 2 then ucast (limbs ! 0) OR push_bit 32 (ucast (limbs ! 1)) else ucast (limbs ! 0)))"

definition bigint_parse_u64 :: "bigint \<Rightarrow> u64 option" where
  "bigint_parse_u64 v = (if bigint_is_negative v then None else bigint_parse_abs_u64 v)"

definition bigint_to_u64 :: "bigint \<Rightarrow> js_error + u64" where
  "bigint_to_u64 v = (case bigint_parse_u64 v of None \<Rightarrow> Inl InvalidBits | Some bits \<Rightarrow> Inr bits)"

lemma two_limbs:
  fixes a b :: u32
  shows "unat (ucast a OR push_bit 32 (ucast b) :: u64) = limbs_val [a, b]"
  using unat_push32_or [of "ucast b" a] unat_u32_bound [of b] by (simp add: or.commute mult.commute)

lemma limbs_val_u64: "limbs_val [ucast (x AND 0xFFFFFFFF), ucast (drop_bit 32 x)] = unat (x :: u64)"
proof -
  have "unat x div base32 < base32"
    using unat_u64_bound [of x] by (simp add: less_mult_imp_div_less)
  then show ?thesis by simp
qed

lemma u64_limbs_returns:
  fixes x :: u64
  defines "limbs \<equiv> [ucast (x AND 0xFFFFFFFF), ucast (drop_bit 32 x)] :: limbs"
  defines "count \<equiv> if limbs ! 1 = 0 then 1 else 2 :: nat"
  shows "bigint_returns m 2 (js_mkbigint_limbs m limbs count neg) (if neg then - int (unat x) else int (unat x))"
proof -
  have n: "0 < count" "count \<le> length limbs" "count \<le> 2" by (simp_all add: count_def limbs_def)
  have "limbs_val (take (if hi = 0 then 1 else 2) [lo, hi]) = limbs_val [lo, hi]" for lo hi :: u32
    by simp
  then have "limbs_val (take count limbs) = limbs_val limbs"
    unfolding count_def limbs_def by (simp only: nth_Cons_0 nth_Cons_Suc One_nat_def)
  then have "limbs_val (take count limbs) = unat x"
    using limbs_val_u64 [of x] by (simp only: limbs_def)
  then have "signed_mag neg (take count limbs) = (if neg then - int (unat x) else int (unat x))"
    by (simp add: signed_mag_def)
  with js_mkbigint_limbs_returns [OF n, of m neg] show ?thesis by simp
qed

lemma bigint_from_uint64_returns: "bigint_returns m 2 (bigint_from_uint64 m x) (uint x)"
  using u64_limbs_returns [of m x False] by (simp add: bigint_from_uint64_def Let_def)

lemma neg_magnitude_u64:
  fixes x :: u64
  assumes "sint x < 0"
  shows "int (unat (word_of_int (- (sint x + 1)) + 1 :: u64)) = - sint x"
proof -
  have "- (2 ^ 63) \<le> sint x" using sint_ge [of x] by simp
  with assms have "uint (word_of_int (- sint x) :: u64) = - sint x"
    by (subst uint_word_of_int) (simp add: take_bit_int_eq_self del: word_of_int_minus)
  moreover have "word_of_int (- (sint x + 1)) + 1 = (word_of_int (- sint x) :: u64)"
    by simp
  ultimately show ?thesis by (simp only: uint_nat)
qed

lemma sint_nonneg_u64:
  fixes x :: u64
  assumes "0 \<le> sint x"
  shows "sint x = uint x"
proof -
  have "sint x < 2 ^ 63" using sint_lt [of x] by simp
  with assms have "uint (word_of_int (sint x) :: u64) = sint x"
    by (subst uint_word_of_int) (simp add: take_bit_int_eq_self)
  then show ?thesis by simp
qed

lemma bigint_from_int64_returns: "bigint_returns m 2 (bigint_from_int64 m x) (sint x)"
proof (cases "sint x < 0")
  case True
  then show ?thesis
    using u64_limbs_returns [of m "word_of_int (- (sint x + 1)) + 1" True] neg_magnitude_u64 [OF True]
    by (simp add: bigint_from_int64_def Let_def)
next
  case False
  then have "sint x = uint x" by (intro sint_nonneg_u64) simp
  then show ?thesis
    using u64_limbs_returns [of m x False] False by (simp add: bigint_from_int64_def Let_def)
qed

lemma low_u64_val:
  assumes "bigint_wf v"
  shows "unat (bigint_low_u64 v) = limbs_val (bi_limbs v) mod 2 ^ 64"
proof -
  obtain a xs where v: "bi_limbs v = a # xs" using bigint_wfD(2) [OF assms] by (cases "bi_limbs v") auto
  show ?thesis
  proof (cases xs)
    case Nil
    have "unat a < 2 ^ 64" using unat_u32_bound [of a] by (simp add: base32_def)
    with Nil show ?thesis by (simp add: bigint_low_u64_def v)
  next
    case (Cons b ys)
    have "base32 * (base32 * limbs_val ys) = 2 ^ 64 * limbs_val ys"
      by (simp only: mult.assoc [symmetric] base32_sq)
    then have "limbs_val (a # b # ys) = limbs_val [a, b] + 2 ^ 64 * limbs_val ys"
      by (simp add: add_mult_distrib2)
    moreover have "limbs_val [a, b] < 2 ^ 64"
      using limbs_val_bound [of "[a, b]"] by (simp add: base32_def power2_eq_square)
    ultimately have "limbs_val (a # b # ys) mod 2 ^ 64 = limbs_val [a, b]"
      by (metis mod_less mod_mult_self2)
    moreover have "bigint_low_u64 v = ucast a OR push_bit 32 (ucast b)"
      by (simp add: bigint_low_u64_def v Cons)
    ultimately show ?thesis using two_limbs [of a b] by (simp only: v Cons)
  qed
qed

lemma to_uint64_wrapping_val:
  assumes "bigint_wf v"
  shows "uint (bigint_to_uint64_wrapping v) = bigint_val v mod 2 ^ 64"
proof -
  have low: "uint (bigint_low_u64 v) = int (limbs_val (bi_limbs v)) mod 2 ^ 64"
    using arg_cong [OF low_u64_val [OF assms], of int] by (simp add: zmod_int)
  show ?thesis
  proof (cases "bi_sign v")
    case True
    have "uint (0 - bigint_low_u64 v) = (- uint (bigint_low_u64 v)) mod 2 ^ 64"
      by (simp add: uint_word_ariths)
    also have "\<dots> = (- int (limbs_val (bi_limbs v))) mod 2 ^ 64"
      unfolding low by (rule mod_minus_eq)
    finally show ?thesis
      using True by (simp add: bigint_to_uint64_wrapping_def bigint_is_negative_def bigint_val_def signed_mag_def)
  next
    case False
    then show ?thesis
      using low by (simp add: bigint_to_uint64_wrapping_def bigint_is_negative_def bigint_val_def signed_mag_def)
  qed
qed

lemma parse_u64_val:
  assumes "bigint_wf v"
  shows "map_option uint (bigint_parse_u64 v)
    = (if 0 \<le> bigint_val v \<and> bigint_val v < 2 ^ 64 then Some (bigint_val v) else None)"
proof (cases "bi_sign v")
  case True
  then show ?thesis using bigint_neg_val [OF assms] by (simp add: bigint_parse_u64_def bigint_is_negative_def)
next
  case False
  then have v: "bigint_val v = int (limbs_val (bi_limbs v))" by (simp add: bigint_val_def signed_mag_def)
  show ?thesis
  proof (cases "length (bi_limbs v) > 2")
    case True
    then have "base32 ^ 2 \<le> base32 ^ (length (bi_limbs v) - 1)" by (intro power_increasing) simp_all
    also have "\<dots> \<le> limbs_val (bi_limbs v)"
      using True by (intro limbs_norm_lower bigint_wfD [OF assms]) simp
    finally have "2 ^ 64 \<le> limbs_val (bi_limbs v)" by (simp add: base32_def)
    then have "2 ^ 64 \<le> int (limbs_val (bi_limbs v))" by (metis of_nat_le_iff of_nat_numeral of_nat_power)
    then show ?thesis
      using True False by (simp add: bigint_parse_u64_def bigint_parse_abs_u64_def bigint_is_negative_def v)
  next
    case short: False
    then have "limbs_val (bi_limbs v) < base32 ^ 2" by (intro limbs_val_less) simp
    then have "limbs_val (bi_limbs v) < 2 ^ 64" by (simp add: base32_def)
    moreover have "bigint_parse_abs_u64 v = Some (bigint_low_u64 v)"
      using short bigint_wfD(2) [OF assms]
      by (auto simp: bigint_parse_abs_u64_def bigint_low_u64_def Let_def less_Suc_eq numeral_2_eq_2)
    moreover have "uint (bigint_low_u64 v) = int (limbs_val (bi_limbs v) mod 2 ^ 64)"
      using low_u64_val [OF assms] by (metis uint_nat)
    ultimately show ?thesis
      using False by (simp add: bigint_parse_u64_def bigint_is_negative_def v)
  qed
qed

section \<open>Powers of two, \<^verbatim>\<open>asUintN\<close> and \<^verbatim>\<open>asIntN\<close>\<close>

definition bigint_pow2 :: "mem_env \<Rightarrow> u64 \<Rightarrow> js_error + bigint" where
  "bigint_pow2 m bits =
     (let limb_index = shift_limbs bits
      in if limb_index > size_max - 1 then Inl Oom
         else let count = limb_index + 1
              in if \<not> limb_alloc m count then Inl Oom
                 else js_mkbigint_limbs m ((replicate count 0)[limb_index := push_bit (shift_bits bits) 1])
                        count False)"

text \<open>
  Arguments of the builtins. A number is not finite, the negative zero, or the value it
  denotes; \<open>ArgOther\<close> is an object, a symbol or a function. \<open>js_to_number\<close> leaves the number of
  a string (\<^verbatim>\<open>ant_number_parse\<close>), of a BigInt (\<^verbatim>\<open>bigint_to_double\<close>) and of an object
  (\<^verbatim>\<open>js_to_primitive\<close>) to its parameter \<open>conv\<close>.
\<close>

datatype js_number = NonFinite | NegZero | Finite rat

datatype js_arg =
    ArgBigint bigint
  | ArgNumber js_number
  | ArgString bytes
  | ArgBool bool
  | ArgNull
  | ArgUndef
  | ArgOther

fun js_to_number :: "(js_arg \<Rightarrow> js_number) \<Rightarrow> js_arg \<Rightarrow> js_number" where
  "js_to_number conv ArgNull = Finite 0"
| "js_to_number conv ArgUndef = NonFinite"
| "js_to_number conv (ArgNumber d) = d"
| "js_to_number conv (ArgBool b) = Finite (if b then 1 else 0)"
| "js_to_number conv arg = conv arg"

text \<open>
  The double an integer literal of the source stands for: 53 significant bits, rounded to
  the nearest, ties to even. The conversion of a double to \<^verbatim>\<open>uint64_t\<close> is undefined for a value out
  of range.
\<close>

fun bit_len :: "nat \<Rightarrow> nat" where
  "bit_len n = (if n = 0 then 0 else Suc (bit_len (n div 2)))"

declare bit_len.simps [simp del]

definition double_literal :: "nat \<Rightarrow> nat" where
  "double_literal n =
     (let e = bit_len n - 53;
          q = n div 2 ^ e;
          r = n mod 2 ^ e
      in (if 2 * r > 2 ^ e \<or> 2 * r = 2 ^ e \<and> odd q then q + 1 else q) * 2 ^ e)"

definition double_to_u64 :: "rat \<Rightarrow> js_error + u64" where
  "double_to_u64 d = (if 0 \<le> d \<and> d < 2 ^ 64 then Inr (word_of_int \<lfloor>d\<rfloor>) else Inl ConversionUndefined)"

definition bigint_asint_bits :: "(js_arg \<Rightarrow> js_number) \<Rightarrow> js_arg \<Rightarrow> js_error + u64" where
  "bigint_asint_bits conv arg =
     (case arg of
        ArgBigint v \<Rightarrow> bigint_to_u64 v
      | _ \<Rightarrow>
          (case js_to_number conv arg of
             NonFinite \<Rightarrow> Inl InvalidBits
           | NegZero \<Rightarrow> double_to_u64 0
           | Finite bits \<Rightarrow>
               if bits < 0 \<or> bits \<noteq> of_int \<lfloor>bits\<rfloor> then Inl InvalidBits
               else if bits > of_nat (double_literal 18446744073709551615) then Inl InvalidBits
               else double_to_u64 bits))"

text \<open>The arguments of a call as a list.\<close>

fun builtin_BigInt_asUintN :: "mem_env \<Rightarrow> (js_arg \<Rightarrow> js_number) \<Rightarrow> js_arg list \<Rightarrow> js_error + bigint" where
  "builtin_BigInt_asUintN m conv (arg # ArgBigint v # args) =
     bind_err (bigint_asint_bits conv arg) (\<lambda>bits.
       if bits = 0 then js_mkbigint m (ascii ''0'') False
       else bind_err (bigint_pow2 m bits) (\<lambda>modulus.
         bind_err (bigint_mod m v modulus) (\<lambda>res.
           if bigint_is_negative res then bigint_add m res modulus else Inr res)))"
| "builtin_BigInt_asUintN m conv (arg # value # args) =
     bind_err (bigint_asint_bits conv arg) (\<lambda>bits. Inl CannotConvertToBigInt)"
| "builtin_BigInt_asUintN m conv args = Inl TwoArgumentsRequired"

fun builtin_BigInt_asIntN :: "mem_env \<Rightarrow> (js_arg \<Rightarrow> js_number) \<Rightarrow> js_arg list \<Rightarrow> js_error + bigint" where
  "builtin_BigInt_asIntN m conv (arg # ArgBigint v # args) =
     bind_err (bigint_asint_bits conv arg) (\<lambda>bits.
       if bits = 0 then js_mkbigint m (ascii ''0'') False
       else bind_err (bigint_pow2 m bits) (\<lambda>modulus.
         bind_err (bigint_mod m v modulus) (\<lambda>res.
           bind_err (if bigint_is_negative res then bigint_add m res modulus else Inr res) (\<lambda>res.
             bind_err (bigint_pow2 m (bits - 1)) (\<lambda>threshold.
               if bigint_compare res threshold \<ge> 0 then bigint_sub m res modulus else Inr res)))))"
| "builtin_BigInt_asIntN m conv (arg # value # args) =
     bind_err (bigint_asint_bits conv arg) (\<lambda>bits. Inl CannotConvertToBigInt)"
| "builtin_BigInt_asIntN m conv args = Inl TwoArgumentsRequired"

text \<open>The greatest width the check is meant to admit is one below the double it is written as.\<close>

lemma double_literal_u64: "double_literal 18446744073709551615 = 2 ^ 64"
proof -
  have "bit_len 18446744073709551615 = 64" by (simp add: bit_len.simps)
  then show ?thesis by (simp add: double_literal_def)
qed

lemma asint_bits_undefined: "bigint_asint_bits conv (ArgNumber (Finite (2 ^ 64))) = Inl ConversionUndefined"
  by (simp add: bigint_asint_bits_def double_literal_u64 double_to_u64_def)

lemma bigint_pow2_returns: "bigint_returns m (shift_limbs bits + 1) (bigint_pow2 m bits) (2 ^ unat bits)"
proof -
  let ?i = "shift_limbs bits" and ?b = "shift_bits bits"
  have i: "\<not> ?i > size_max - 1"
  proof -
    have "32 * ?i + ?b < 2 ^ 64"
      using shift_decompose [of bits] unat_u64_bound [of bits] by (simp add: base32_sq)
    then show ?thesis by (simp add: size_max_def)
  qed
  have eq: "(replicate (n + 1) 0)[n := x] = replicate n 0 @ [x]" for n and x :: u32
    by (induction n) simp_all
  have "unat (push_bit ?b (1 :: u32)) = 2 ^ ?b"
  proof -
    have "push_bit ?b (1 :: u32) = of_nat (2 ^ ?b)" by (simp add: push_bit_eq_mult)
    moreover have "(2 :: nat) ^ ?b < 2 ^ 32" using shift_bits_less [of bits] by (intro power_strict_increasing) simp_all
    ultimately show ?thesis
      using shift_bits_less [of bits] by (simp only: unsigned_of_nat) (simp add: take_bit_nat_eq_self)
  qed
  then have "limbs_val (replicate ?i 0 @ [push_bit ?b 1]) = 2 ^ unat bits"
    by (simp add: limbs_val_append base32_power shift_decompose [of bits] power_add)
  then have "signed_mag False (take (?i + 1) (replicate ?i 0 @ [push_bit ?b 1])) = 2 ^ unat bits"
    by (simp add: signed_mag_def)
  with js_mkbigint_limbs_returns [of "?i + 1" "replicate ?i 0 @ [push_bit ?b 1]" "?i + 1" m False] i
  show ?thesis
    by (auto simp: bigint_pow2_def Let_def eq [of _ "push_bit n 1" for n, simplified]
        intro: bigint_returns_oom dest: limb_alloc_ample)
qed

text \<open>Sequencing: what follows a successful operation sees the value it returned.\<close>

lemma bigint_returns_bind:
  assumes "bigint_returns m c out z" "c \<le> c'"
    and "\<And>r. bigint_wf r \<Longrightarrow> bigint_val r = z \<Longrightarrow> bigint_returns m c' (f r) z'"
  shows "bigint_returns m c' (bind_err out f) z'"
  using assms by (cases out) (auto simp: bigint_returns_def)

lemma wf_length_le:
  assumes "bigint_wf r" "\<bar>bigint_val r\<bar> < int (base32 ^ k)" "0 < k"
  shows "length (bi_limbs r) \<le> k"
proof (rule ccontr)
  assume "\<not> length (bi_limbs r) \<le> k"
  then have l: "k \<le> length (bi_limbs r) - 1" "1 < length (bi_limbs r)" using assms(3) by simp_all
  have "base32 ^ k \<le> base32 ^ (length (bi_limbs r) - 1)" using l(1) by (intro power_increasing) simp_all
  also have "\<dots> \<le> limbs_val (bi_limbs r)" by (rule limbs_norm_lower [OF bigint_wfD(1) [OF assms(1)] l(2)])
  finally have "int (base32 ^ k) \<le> int (limbs_val (bi_limbs r))" by simp
  with assms(2) val_abs_limbs [OF assms(1)] show False by linarith
qed

lemma literal_returns:
  assumes "cs \<noteq> []" "literal_base cs = (10, 0)" "numeral_ok 10 True cs"
  shows "bigint_returns m (length cs + 1) (js_mkbigint m cs False) (int (numeral_val 10 cs))"
  using bigint_from_string_digits_cases [OF assms(1,2), of True m False] assms(3)
  by (simp add: js_mkbigint_def)

lemma literal_0_1:
  "bigint_returns m 2 (js_mkbigint m (ascii ''0'') False) 0"
  "bigint_returns m 2 (js_mkbigint m (ascii ''1'') False) 1"
proof -
  have "ascii ''0'' \<noteq> [] \<and> length (ascii ''0'') + 1 = 2 \<and> literal_base (ascii ''0'') = (10, 0) \<and>
      numeral_ok 10 True (ascii ''0'') \<and> numeral_val 10 (ascii ''0'') = 0" by code_simp
  then show "bigint_returns m 2 (js_mkbigint m (ascii ''0'') False) 0"
    using literal_returns [of "ascii ''0''" m] by (simp add: numeral_2_eq_2)
  have "ascii ''1'' \<noteq> [] \<and> length (ascii ''1'') + 1 = 2 \<and> literal_base (ascii ''1'') = (10, 0) \<and>
      numeral_ok 10 True (ascii ''1'') \<and> numeral_val 10 (ascii ''1'') = 1" by code_simp
  then show "bigint_returns m 2 (js_mkbigint m (ascii ''1'') False) 1"
    using literal_returns [of "ascii ''1''" m] by (simp add: numeral_2_eq_2)
qed

text \<open>The reduction both functions start with.\<close>

lemma mod_pow2_returns:
  assumes "bigint_wf v" "bigint_wf p" "bigint_val p = 2 ^ k"
  shows "bigint_returns m (max (length (bi_limbs v)) (length (bi_limbs p) + 1))
    (bind_err (bigint_mod m v p) (\<lambda>res. if bigint_is_negative res then bigint_add m res p else Inr res))
    (bigint_val v mod 2 ^ k)"
proof (rule bigint_returns_bind)
  have pos: "\<not> bi_sign p" using bigint_neg_val [OF assms(2)] assms(3) by simp
  then have lp: "int (limbs_val (bi_limbs p)) = 2 ^ k" using assms(3) by (simp add: bigint_val_def signed_mag_def)
  then have "limbs_val (bi_limbs p) = 2 ^ k" by (metis of_nat_eq_iff of_nat_numeral of_nat_power)
  then have "divmod_exact (bi_limbs v) (bi_limbs p)"
    by (intro divmod_exact_power_of_two bigint_wfD(1) [OF assms(2)])
  then show "bigint_returns m (length (bi_limbs v)) (bigint_mod m v p) (tmod (bigint_val v) (2 ^ k))"
    using bigint_div_mod_returns(2) [OF assms(1,2)] assms(3) by simp
  show "length (bi_limbs v) \<le> max (length (bi_limbs v)) (length (bi_limbs p) + 1)" by simp
  fix r assume r: "bigint_wf r" "bigint_val r = tmod (bigint_val v) (2 ^ k)"
  have sm: "\<bar>bigint_val r\<bar> < 2 ^ k"
    by (simp add: r(2) tmod_def abs_mult abs_sgn_eq)
  have modeq: "bigint_val r mod 2 ^ k = bigint_val v mod 2 ^ k"
  proof -
    have "bigint_val v = tdiv (bigint_val v) (2 ^ k) * 2 ^ k + bigint_val r"
      using tdiv_tmod [of "bigint_val v" "2 ^ k"] r(2) by simp
    then show ?thesis by (metis mod_mult_self3)
  qed
  show "bigint_returns m (max (length (bi_limbs v)) (length (bi_limbs p) + 1))
    (if bigint_is_negative r then bigint_add m r p else Inr r) (bigint_val v mod 2 ^ k)"
  proof (cases "bi_sign r")
    case False
    then have "bigint_val r = bigint_val v mod 2 ^ k"
      using bigint_neg_val [OF r(1)] sm modeq by (metis abs_of_nonneg mod_pos_pos_trivial not_less)
    with False r(1) show ?thesis by (simp add: bigint_is_negative_def bigint_returns_def)
  next
    case True
    then have "bigint_val r + 2 ^ k = bigint_val v mod 2 ^ k"
      using bigint_neg_val [OF r(1)] sm modeq
      by (smt (verit) mod_add_self2 mod_pos_pos_trivial)
    moreover have "int (limbs_val (bi_limbs p)) < int (base32 ^ length (bi_limbs p))"
      using limbs_val_bound [of "bi_limbs p"] by simp
    then have "length (bi_limbs r) \<le> length (bi_limbs p)"
      using sm lp by (intro wf_length_le [OF r(1)] bigint_wfD(3) [OF assms(2)]) linarith
    then have "bin_capacity r p \<le> max (length (bi_limbs v)) (length (bi_limbs p) + 1)"
      by (simp add: bin_capacity_def)
    ultimately show ?thesis
      using bigint_returns_mono [OF bigint_add_returns [OF r(1) assms(2), of m]] True assms(3)
      by (simp add: bigint_is_negative_def)
  qed
qed

lemma pow2_bits_less: "(2 :: int) ^ unat bits < int (base32 ^ (shift_limbs bits + 1))"
proof -
  have "unat bits < 32 * (shift_limbs bits + 1)"
    using shift_decompose [of bits] shift_bits_less [of bits] by simp
  then have "(2 :: int) ^ unat bits < 2 ^ (32 * (shift_limbs bits + 1))" by (intro power_strict_increasing) simp_all
  then show ?thesis by (simp only: base32_power of_nat_power of_nat_numeral)
qed

lemma shift_limbs_pow2:
  assumes "bigint_wf p" "bigint_val p = 2 ^ unat bits"
  shows "length (bi_limbs p) \<le> shift_limbs bits + 1"
proof (rule wf_length_le [OF assms(1)])
  show "\<bar>bigint_val p\<bar> < int (base32 ^ (shift_limbs bits + 1))"
    unfolding assms(2) power_abs using pow2_bits_less [of bits] by (simp only: abs_numeral)
qed simp

text \<open>Limbs the two functions may need.\<close>

definition asN_capacity :: "u64 \<Rightarrow> bigint \<Rightarrow> nat" where
  "asN_capacity bits v = max (length (bi_limbs v)) (shift_limbs bits + 2)"

lemma asUintN_returns:
  assumes "bigint_wf v" "bigint_asint_bits conv arg = Inr bits"
  shows "bigint_returns m (asN_capacity bits v) (builtin_BigInt_asUintN m conv (arg # ArgBigint v # args)) (take_bit (unat bits) (bigint_val v))"
proof (cases "bits = 0")
  case True
  then have eq: "builtin_BigInt_asUintN m conv (arg # ArgBigint v # args) = js_mkbigint m (ascii ''0'') False"
    using assms(2) by simp
  show ?thesis
    unfolding eq using bigint_returns_mono [OF literal_0_1(1)] True by (simp add: asN_capacity_def)
next
  case False
  then have eq: "builtin_BigInt_asUintN m conv (arg # ArgBigint v # args) = bind_err (bigint_pow2 m bits) (\<lambda>modulus.
       bind_err (bigint_mod m v modulus) (\<lambda>res. if bigint_is_negative res then bigint_add m res modulus else Inr res))"
    using assms(2) by simp
  show ?thesis
    unfolding eq take_bit_eq_mod
  proof (rule bigint_returns_bind [OF bigint_pow2_returns])
    show "shift_limbs bits + 1 \<le> asN_capacity bits v" by (simp add: asN_capacity_def)
    fix p assume p: "bigint_wf p" "bigint_val p = 2 ^ unat bits"
    show "bigint_returns m (asN_capacity bits v) (bind_err (bigint_mod m v p)
        (\<lambda>res. if bigint_is_negative res then bigint_add m res p else Inr res)) (bigint_val v mod 2 ^ unat bits)"
      using shift_limbs_pow2 [OF p]
      by (intro bigint_returns_mono [OF mod_pow2_returns [OF assms(1) p]]) (auto simp: asN_capacity_def)
  qed
qed

lemma signed_take_bit_wrap:
  fixes a :: int
  shows "signed_take_bit n a =
    (if 2 ^ n \<le> a mod 2 ^ Suc n then a mod 2 ^ Suc n - 2 ^ Suc n else a mod 2 ^ Suc n)"
proof -
  have "signed_take_bit n a = signed_take_bit n (take_bit (Suc n) a)"
    by (simp add: signed_take_bit_take_bit)
  also have "\<dots> = (if 2 ^ n \<le> take_bit (Suc n) a then take_bit (Suc n) a - 2 ^ Suc n else take_bit (Suc n) a)"
  proof (cases "2 ^ n \<le> take_bit (Suc n) a")
    case True
    have "signed_take_bit n (take_bit (Suc n) a) = signed_take_bit n (take_bit (Suc n) a - 2 ^ Suc n)"
      by (subst signed_take_bit_eq_iff_take_bit_eq) (simp add: take_bit_eq_mod)
    also have "\<dots> = take_bit (Suc n) a - 2 ^ Suc n"
      using True take_bit_int_less_exp [of "Suc n" a] by (intro signed_take_bit_int_eq_self) simp_all
    finally show ?thesis using True by simp
  next
    case False
    have "signed_take_bit n (take_bit (Suc n) a) = take_bit (Suc n) a"
    proof (rule signed_take_bit_int_eq_self)
      have "0 \<le> take_bit (Suc n) a" by simp
      then show "- (2 ^ n) \<le> take_bit (Suc n) a" by (smt (verit) zero_less_power)
    qed (use False in simp)
    then show ?thesis using False by simp
  qed
  finally show ?thesis by (simp only: take_bit_eq_mod)
qed

lemma asIntN_returns:
  assumes "bigint_wf v" "bigint_asint_bits conv arg = Inr bits"
  shows "bigint_returns m (asN_capacity bits v) (builtin_BigInt_asIntN m conv (arg # ArgBigint v # args))
    (if bits = 0 then 0 else signed_take_bit (unat bits - 1) (bigint_val v))"
proof (cases "bits = 0")
  case True
  then have eq: "builtin_BigInt_asIntN m conv (arg # ArgBigint v # args) = js_mkbigint m (ascii ''0'') False"
    using assms(2) by simp
  show ?thesis
    unfolding eq using bigint_returns_mono [OF literal_0_1(1)] True by (simp add: asN_capacity_def)
next
  case False
  define k where "k = unat bits - 1"
  have k: "unat bits = Suc k" using False by (simp add: k_def unat_gt_0)
  have k1: "unat (bits - 1) = k" using False by (simp add: k_def unat_minus_one)
  have eq: "builtin_BigInt_asIntN m conv (arg # ArgBigint v # args) = bind_err (bigint_pow2 m bits) (\<lambda>modulus.
       bind_err (bind_err (bigint_mod m v modulus)
           (\<lambda>res. if bigint_is_negative res then bigint_add m res modulus else Inr res)) (\<lambda>res.
         bind_err (bigint_pow2 m (bits - 1)) (\<lambda>threshold.
           if bigint_compare res threshold \<ge> 0 then bigint_sub m res modulus else Inr res)))"
    using False assms(2) by (simp add: bind_err_def split: sum.splits)
  have sl: "shift_limbs (bits - 1) \<le> shift_limbs bits"
    using shift_decompose [of bits] shift_decompose [of "bits - 1"] shift_bits_less [of bits] k k1 by linarith
  let ?C = "asN_capacity bits v"
  have "bigint_returns m ?C (builtin_BigInt_asIntN m conv (arg # ArgBigint v # args)) (signed_take_bit k (bigint_val v))"
    unfolding eq
  proof (rule bigint_returns_bind [OF bigint_pow2_returns])
    show "shift_limbs bits + 1 \<le> ?C" by (simp add: asN_capacity_def)
    fix p assume p: "bigint_wf p" "bigint_val p = 2 ^ unat bits"
    note lp = shift_limbs_pow2 [OF p]
    show "bigint_returns m ?C (bind_err (bind_err (bigint_mod m v p)
        (\<lambda>res. if bigint_is_negative res then bigint_add m res p else Inr res)) (\<lambda>res.
          bind_err (bigint_pow2 m (bits - 1)) (\<lambda>threshold.
            if bigint_compare res threshold \<ge> 0 then bigint_sub m res p else Inr res))) (signed_take_bit k (bigint_val v))"
    proof (rule bigint_returns_bind [OF mod_pow2_returns [OF assms(1) p]])
      show "max (length (bi_limbs v)) (length (bi_limbs p) + 1) \<le> ?C" using lp by (auto simp: asN_capacity_def)
      fix r assume r: "bigint_wf r" "bigint_val r = bigint_val v mod 2 ^ unat bits"
      have "\<bar>bigint_val r\<bar> < 2 ^ unat bits" by (simp add: r(2))
      moreover note pow2_bits_less [of bits]
      ultimately have lr: "length (bi_limbs r) \<le> shift_limbs bits + 1"
        by (intro wf_length_le [OF r(1)]) linarith+
      show "bigint_returns m ?C (bind_err (bigint_pow2 m (bits - 1)) (\<lambda>threshold.
            if bigint_compare r threshold \<ge> 0 then bigint_sub m r p else Inr r)) (signed_take_bit k (bigint_val v))"
      proof (rule bigint_returns_bind [OF bigint_pow2_returns])
        show "shift_limbs (bits - 1) + 1 \<le> ?C" using sl by (simp add: asN_capacity_def)
        fix t assume t: "bigint_wf t" "bigint_val t = 2 ^ unat (bits - 1)"
        have cmp: "bigint_compare r t \<ge> 0 \<longleftrightarrow> 2 ^ k \<le> bigint_val v mod 2 ^ Suc k"
          using bigint_compare_sgn [OF r(1) t(1)] r(2) t(2) k k1 by (simp add: sgn_if)
        have cap: "bin_capacity r p \<le> ?C" using lr lp by (simp add: bin_capacity_def asN_capacity_def)
        show "bigint_returns m ?C (if bigint_compare r t \<ge> 0 then bigint_sub m r p else Inr r) (signed_take_bit k (bigint_val v))"
          using bigint_returns_mono [OF bigint_sub_returns [OF r(1) p(1)] cap, of m] r p k
          by (auto simp: cmp signed_take_bit_wrap intro: bigint_returns_self)
      qed
    qed
  qed
  with False show ?thesis by (simp add: k_def)
qed

section \<open>Exponentiation\<close>

text \<open>
  Square and multiply, with fuel for the loop. The source does not check the first
  \<^verbatim>\<open>js_mkbigint\<close> for an error, so \<open>result\<close> may be an error value that a multiplication
  then reads as a BigInt.
\<close>

fun bigint_exp_loop ::
  "mem_env \<Rightarrow> nat \<Rightarrow> js_error + bigint \<Rightarrow> bigint \<Rightarrow> bigint \<Rightarrow> (js_error + bigint) option"
where
  "bigint_exp_loop m 0 result b e = None"
| "bigint_exp_loop m (Suc fuel) result b e =
     (if bigint_is_zero e then Some result
      else
        (let mul = (if bigint_is_odd e
                    then (case result of Inl _ \<Rightarrow> Inl NotABigint | Inr r \<Rightarrow> bigint_mul m r b)
                    else result)
         in if bigint_is_odd e \<and> isl mul then Some mul
            else case bigint_mul m b b of
                Inl err \<Rightarrow> Some (Inl err)
              | Inr b \<Rightarrow>
                  (case bigint_shift_right m e 1 of
                     Inl err \<Rightarrow> Some (Inl err)
                   | Inr e \<Rightarrow> bigint_exp_loop m fuel mul b e)))"

definition bigint_exp :: "mem_env \<Rightarrow> nat \<Rightarrow> bigint \<Rightarrow> bigint \<Rightarrow> (js_error + bigint) option" where
  "bigint_exp m fuel base ex =
     (if bigint_is_negative ex then Some (Inl ExponentMustBePositive)
      else if bigint_is_zero ex then Some (js_mkbigint m (ascii ''1'') False)
      else bigint_exp_loop m fuel (js_mkbigint m (ascii ''1'') False) base ex)"

text \<open>Without the constant one, every odd exponent makes the loop read the error value.\<close>

lemma bigint_exp_reads_error_value:
  assumes "js_mkbigint m (ascii ''1'') False = Inl err" and "\<not> bigint_is_negative ex" and "\<not> bigint_is_zero ex"
    and "bigint_is_odd ex"
  shows "bigint_exp m (Suc fuel) base ex = Some (Inl NotABigint)"
  using assms by (simp add: bigint_exp_def)

lemma returns_length:
  assumes "bigint_returns m c out z" "out = Inr r"
  shows "bigint_wf r" "bigint_val r = z"
  using assms by (simp_all add: bigint_returns_def)

lemma mul_length:
  assumes "bigint_wf a" "bigint_wf b" "bigint_wf r" "bigint_val r = bigint_val a * bigint_val b"
  shows "length (bi_limbs r) \<le> length (bi_limbs a) + length (bi_limbs b)"
proof (rule wf_length_le [OF assms(3)])
  have "limbs_val (bi_limbs a) * limbs_val (bi_limbs b) < base32 ^ length (bi_limbs a) * base32 ^ length (bi_limbs b)"
    using limbs_val_bound by (intro mult_strict_mono) simp_all
  then have "int (limbs_val (bi_limbs a) * limbs_val (bi_limbs b)) < int (base32 ^ (length (bi_limbs a) + length (bi_limbs b)))"
    by (simp only: of_nat_less_iff power_add)
  then show "\<bar>bigint_val r\<bar> < int (base32 ^ (length (bi_limbs a) + length (bi_limbs b)))"
    using assms by (simp add: abs_mult val_abs_limbs)
  show "0 < length (bi_limbs a) + length (bi_limbs b)" using bigint_wfD(3) [OF assms(1)] by simp
qed

text \<open>
  With \<open>e < 2 ^ n\<close> the loop ends within \<open>n + 1\<close> iterations. It returns \<open>r * b ^ e\<close>, or
  out of memory when the allocator fails or the squares outgrow \<open>2 ^ 32\<close> limbs.
\<close>

definition exp_outcome :: "mem_env \<Rightarrow> nat \<Rightarrow> (js_error + bigint) option \<Rightarrow> int \<Rightarrow> bool" where
  "exp_outcome m c out z \<longleftrightarrow> (case out of None \<Rightarrow> False | Some o' \<Rightarrow> bigint_returns m c o' z)"

lemma pow_halve:
  fixes b :: int and k :: nat
  shows "b ^ k = (if odd k then b else 1) * (b * b) ^ (k div 2)"
  by (cases "even k") (auto elim!: evenE oddE simp: power_mult power2_eq_square [symmetric])

lemma bigint_exp_loop_outcome:
  "bigint_wf r \<Longrightarrow> bigint_wf b \<Longrightarrow> bigint_wf e \<Longrightarrow> 0 \<le> bigint_val e \<Longrightarrow> bigint_val e < 2 ^ n \<Longrightarrow> n < fuel \<Longrightarrow>
   length (bi_limbs b) * 2 ^ n + 1 \<le> c \<Longrightarrow>
   length (bi_limbs r) + length (bi_limbs b) * (2 ^ n - 1) + 1 \<le> c \<Longrightarrow> length (bi_limbs e) + 1 \<le> c \<Longrightarrow>
   exp_outcome m c (bigint_exp_loop m fuel (Inr r) b e) (bigint_val r * bigint_val b ^ nat (bigint_val e))"
proof (induction n arbitrary: fuel r b e)
  case 0
  then have "bigint_val e = 0" by simp
  with 0 show ?case
    by (cases fuel) (simp_all add: bigint_is_zero_val exp_outcome_def bigint_returns_self)
next
  case (Suc n)
  obtain f where f: "fuel = Suc f" "n < f" using Suc.prems(6) by (cases fuel) auto
  show ?case
  proof (cases "bigint_val e = 0")
    case True
    then show ?thesis
      using Suc.prems(1,3) by (simp add: f bigint_is_zero_val exp_outcome_def bigint_returns_self)
  next
    case False
    let ?R = "length (bi_limbs r)" and ?P = "length (bi_limbs b)"
    define mul where "mul = (if bigint_is_odd e then bigint_mul m r b else Inr r)"
    have nz: "\<not> bigint_is_zero e" using False Suc.prems(3) by (simp add: bigint_is_zero_val)
    have "(1 :: nat) \<le> 2 ^ n" by simp
    then have two: "(2 :: nat) \<le> 2 ^ Suc n" unfolding power_Suc by linarith
    then have one: "(1 :: nat) \<le> 2 ^ Suc n - 1" by linarith
    note grow = mult_le_mono2 [OF one, of ?P] mult_le_mono2 [OF two, of ?P]
    have mulr: "bigint_returns m c mul (bigint_val r * (if odd (bigint_val e) then bigint_val b else 1))"
    proof (cases "odd (bigint_val e)")
      case True
      have "?R + ?P + 1 \<le> c" using grow(1) Suc.prems(8) by linarith
      then show ?thesis
        using bigint_returns_mono [OF bigint_mul_returns [OF Suc.prems(1,2), of m]] True Suc.prems(3)
        by (simp add: mul_def bigint_is_odd_val)
    next
      case False
      then show ?thesis using Suc.prems(1,3) by (simp add: mul_def bigint_is_odd_val bigint_returns_self)
    qed
    have sq: "bigint_returns m c (bigint_mul m b b) (bigint_val b * bigint_val b)"
      using grow(2) Suc.prems(7) by (intro bigint_returns_mono [OF bigint_mul_returns [OF Suc.prems(2,2)]]) linarith
    have sh: "bigint_returns m c (bigint_shift_right m e 1) (bigint_val e div 2)"
      using bigint_returns_mono [OF bigint_shift_right_returns [OF Suc.prems(3), of m 1] Suc.prems(9)] by simp
    have step: "bigint_exp_loop m fuel (Inr r) b e =
        (case mul of Inl err \<Rightarrow> Some (Inl err)
         | Inr r' \<Rightarrow> (case bigint_mul m b b of Inl err \<Rightarrow> Some (Inl err)
           | Inr b' \<Rightarrow> (case bigint_shift_right m e 1 of Inl err \<Rightarrow> Some (Inl err)
             | Inr e' \<Rightarrow> bigint_exp_loop m f (Inr r') b' e')))"
      using nz by (auto simp: f mul_def Let_def split: sum.splits)
    show ?thesis
    proof (cases "\<exists>r' b' e'. mul = Inr r' \<and> bigint_mul m b b = Inr b' \<and> bigint_shift_right m e 1 = Inr e'")
      case False
      then show ?thesis
        using mulr sq sh unfolding step by (auto simp: exp_outcome_def bigint_returns_def split: sum.splits)
    next
      case True
      then obtain r' b' e' where res: "mul = Inr r'" "bigint_mul m b b = Inr b'" "bigint_shift_right m e 1 = Inr e'"
        by blast
      note wf = returns_length [OF mulr res(1)] returns_length [OF sq res(2)] returns_length [OF sh res(3)]
      have lb: "length (bi_limbs b') \<le> ?P + ?P" by (rule mul_length [OF Suc.prems(2,2) wf(3,4)])
      have lr: "length (bi_limbs r') \<le> ?R + ?P"
        using mul_length [OF Suc.prems(1,2) wf(1)] wf(2) bigint_wf_inj [OF wf(1) Suc.prems(1)]
        by (cases "odd (bigint_val e)") auto
      have le: "length (bi_limbs e') \<le> length (bi_limbs e)"
      proof (rule wf_length_le [OF wf(5)])
        have "\<bar>bigint_val e'\<bar> \<le> \<bar>bigint_val e\<bar>" using wf(6) Suc.prems(4) by simp
        also have "\<dots> < int (base32 ^ length (bi_limbs e))"
          unfolding val_abs_limbs [OF Suc.prems(3)] of_nat_less_iff by (rule limbs_val_bound)
        finally show "\<bar>bigint_val e'\<bar> < int (base32 ^ length (bi_limbs e))" .
      qed (rule bigint_wfD(3) [OF Suc.prems(3)])
      have "(?P + ?P) * 2 ^ n = ?P * 2 ^ Suc n" by (simp add: algebra_simps)
      then have cb: "length (bi_limbs b') * 2 ^ n + 1 \<le> c"
        using mult_le_mono1 [OF lb, of "2 ^ n"] Suc.prems(7) by linarith
      have "length (bi_limbs b') * (2 ^ n - 1) + ?P \<le> ?P * (2 * (2 ^ n - 1) + 1)"
        using mult_le_mono1 [OF lb, of "2 ^ n - 1"] by (simp add: algebra_simps)
      moreover have "2 * (2 ^ n - 1) + 1 = (2 :: nat) ^ Suc n - 1"
        unfolding power_Suc using \<open>1 \<le> 2 ^ n\<close> by linarith
      ultimately have "length (bi_limbs b') * (2 ^ n - 1) + ?P \<le> ?P * (2 ^ Suc n - 1)" by (simp only:)
      then have cr: "length (bi_limbs r') + length (bi_limbs b') * (2 ^ n - 1) + 1 \<le> c"
        using Suc.prems(8) lr by linarith
      have e': "0 \<le> bigint_val e'" "bigint_val e' < 2 ^ n" "length (bi_limbs e') + 1 \<le> c"
        using wf(6) Suc.prems(4,5,9) le by auto
      have "exp_outcome m c (bigint_exp_loop m f (Inr r') b' e')
          (bigint_val r' * bigint_val b' ^ nat (bigint_val e'))"
        by (rule Suc.IH [OF wf(1,3,5) e'(1,2) f(2) cb cr e'(3)])
      moreover have "bigint_val r' * bigint_val b' ^ nat (bigint_val e')
          = bigint_val r * bigint_val b ^ nat (bigint_val e)"
        using pow_halve [of "bigint_val b" "nat (bigint_val e)"] Suc.prems(4) wf(2,4,6)
        by (simp add: even_nat_iff nat_div_distrib)
      ultimately show ?thesis by (simp add: step res)
    qed
  qed
qed

lemma bigint_exp_outcome:
  assumes "bigint_wf base" "bigint_wf ex" "0 \<le> bigint_val ex" "bigint_val ex < 2 ^ n" "n < fuel"
    and "isl (js_mkbigint m (ascii ''1'') False) \<Longrightarrow> bigint_val ex = 0"
  shows "exp_outcome m (max (length (bi_limbs base) * 2 ^ n + 1) (length (bi_limbs ex) + 1))
    (bigint_exp m fuel base ex) (bigint_val base ^ nat (bigint_val ex))"
proof (cases "bigint_val ex = 0")
  case True
  let ?c = "max (length (bi_limbs base) * 2 ^ n + 1) (length (bi_limbs ex) + 1)"
  have "2 \<le> ?c" using bigint_wfD(3) [OF assms(2)] by linarith
  with True show ?thesis
    using assms(2) bigint_neg_val [OF assms(2)] bigint_returns_mono [OF literal_0_1(2), of ?c m]
    by (simp add: bigint_exp_def bigint_is_negative_def bigint_is_zero_val exp_outcome_def)
next
  case False
  let ?c = "max (length (bi_limbs base) * 2 ^ n + 1) (length (bi_limbs ex) + 1)"
  obtain r where r: "js_mkbigint m (ascii ''1'') False = Inr r"
    using assms(6) False by (cases "js_mkbigint m (ascii ''1'') False") auto
  note wf = returns_length [OF literal_0_1(2) r]
  have len: "length (bi_limbs r) \<le> 1" using wf by (intro wf_length_le) simp_all
  have "1 \<le> length (bi_limbs base)" using bigint_wfD(3) [OF assms(1)] by linarith
  moreover have "(1 :: nat) \<le> 2 ^ n" by simp
  ultimately have "length (bi_limbs r) + length (bi_limbs base) * (2 ^ n - 1) + 1 \<le> length (bi_limbs base) * 2 ^ n + 1"
    using len by (simp add: diff_mult_distrib2)
  then have "exp_outcome m ?c (bigint_exp_loop m fuel (Inr r) base ex) (bigint_val r * bigint_val base ^ nat (bigint_val ex))"
    using assms wf by (intro bigint_exp_loop_outcome [where n = n]) simp_all
  then show ?thesis
    using False assms(2,3) bigint_neg_val [OF assms(2)] wf(2) r
    by (simp add: bigint_exp_def bigint_is_negative_def bigint_is_zero_val)
qed

section \<open>Strings\<close>

definition bigint_digits_len :: "mem_env \<Rightarrow> bigint \<Rightarrow> nat" where
  "bigint_digits_len m v =
     (case bigint_abs_to_decimal_string m (bi_limbs v) of Inl _ \<Rightarrow> 0 | Inr digits \<Rightarrow> length digits)"

text \<open>\<^verbatim>\<open>toString\<close>, with the radix the argument checks leave.\<close>

definition builtin_bigint_toString :: "mem_env \<Rightarrow> bigint \<Rightarrow> int \<Rightarrow> js_error + bytes" where
  "builtin_bigint_toString m v radix =
     (if radix < 2 \<or> radix > 36 then Inl InvalidRadix
      else
        (let neg = bigint_is_negative v; limbs = bi_limbs v
         in bind_err (if radix = 10 then bigint_abs_to_decimal_string m limbs
                      else bigint_abs_to_radix_string m limbs (word_of_int radix))
              (\<lambda>digits. if \<not> neg then Inr digits
                        else if \<not> alloc_ok m (length digits + 2) then Inl Oom
                        else Inr (45 # digits))))"

text \<open>
  \<^verbatim>\<open>strbigint\<close>: the caller's buffer of \<open>len\<close> bytes after the call, and the length the text
  needs. A write past the buffer is an error of the model.
\<close>

definition write_at :: "bytes \<Rightarrow> nat \<Rightarrow> bytes \<Rightarrow> bytes option" where
  "write_at buf pos data =
     (if pos + length data > length buf then None
      else Some (take pos buf @ data @ drop (pos + length data) buf))"

definition strbigint :: "mem_env \<Rightarrow> bigint \<Rightarrow> bytes \<Rightarrow> (bytes \<times> nat) option" where
  "strbigint m v buf =
     (let neg = bigint_is_negative v; len = length buf
      in case bigint_abs_to_decimal_string m (bi_limbs v) of
           Inl _ \<Rightarrow> Some (buf, 0)
         | Inr digits \<Rightarrow>
             (let dlen = length digits; total = dlen + (if neg then 1 else 0)
              in if len = 0 then Some (buf, total)
                 else
                   (let n = (if neg then 1 else 0);
                        avail = (if n < len then len - n - 1 else 0);
                        copy_len = (if dlen < avail then dlen else avail);
                        term = (if n + copy_len \<ge> len then len - 1 else n + copy_len)
                    in Option.bind (if neg \<and> 0 < len - 1 then write_at buf 0 [45] else Some buf) (\<lambda>buf.
                       Option.bind (if copy_len > 0 then write_at buf n (take copy_len digits) else Some buf) (\<lambda>buf.
                       Option.bind (write_at buf term [0]) (\<lambda>buf. Some (buf, total)))))))"

text \<open>The text of a value: its sign and its digits in a radix.\<close>

definition bigint_text :: "nat \<Rightarrow> int \<Rightarrow> bytes" where
  "bigint_text b z = (if z < 0 then [45] else []) @ map digit_char (radix_repr b (nat \<bar>z\<bar>))"

lemma limbs_abs: "bigint_wf v \<Longrightarrow> nat \<bar>bigint_val v\<bar> = limbs_val (bi_limbs v)"
  by (simp add: val_abs_limbs)

lemma decimal_cases:
  assumes "bigint_wf v"
  obtains "bigint_abs_to_decimal_string m (bi_limbs v) = Inr (map digit_char (radix_repr 10 (nat \<bar>bigint_val v\<bar>)))"
  | "bigint_abs_to_decimal_string m (bi_limbs v) = Inl Oom" "\<not> ample_memory m"
  using bigint_abs_to_decimal_string_cases [OF bigint_wfD(1) [OF assms], of m] limbs_abs [OF assms] by auto

lemma toString_cases:
  assumes "bigint_wf v" "2 \<le> radix" "radix \<le> 36"
  shows "builtin_bigint_toString m v radix = Inr (bigint_text (nat radix) (bigint_val v)) \<or>
    builtin_bigint_toString m v radix = Inl Oom \<and> \<not> ample_memory m"
proof -
  define digits where "digits = map digit_char (radix_repr (nat radix) (nat \<bar>bigint_val v\<bar>))"
  have "unat (word_of_int radix :: u32) = nat radix"
    using assms(2,3) by (simp add: unat_eq_nat_uint uint_word_of_int take_bit_int_eq_self)
  then have "(if radix = 10 then bigint_abs_to_decimal_string m (bi_limbs v)
      else bigint_abs_to_radix_string m (bi_limbs v) (word_of_int radix)) = Inr digits \<or>
    (if radix = 10 then bigint_abs_to_decimal_string m (bi_limbs v)
      else bigint_abs_to_radix_string m (bi_limbs v) (word_of_int radix)) = Inl Oom \<and> \<not> ample_memory m"
    using bigint_abs_to_decimal_string_cases [OF bigint_wfD(1) [OF assms(1)], of m]
      bigint_abs_to_radix_string_cases [OF bigint_wfD(1) [OF assms(1)], of "word_of_int radix" m] assms
    by (auto simp: digits_def limbs_abs)
  then show ?thesis
    using assms(2,3) bigint_neg_val [OF assms(1)]
    by (auto simp: builtin_bigint_toString_def bigint_is_negative_def bigint_text_def digits_def [symmetric] Let_def)
qed

lemma write_at_Some: "pos + length data \<le> length buf \<Longrightarrow>
   write_at buf pos data = Some (take pos buf @ data @ drop (pos + length data) buf)"
  by (simp add: write_at_def)

text \<open>The buffer receives as much of the text as fits, terminated, and nothing past its end.\<close>

lemma strbigint_text:
  assumes "bigint_wf v" "ample_memory m" "buf \<noteq> []"
  defines "t \<equiv> bigint_text 10 (bigint_val v)"
  shows "\<exists>buf'. strbigint m v buf = Some (buf', length t) \<and> length buf' = length buf \<and>
    take (Suc (min (length t) (length buf - 1))) buf' = take (length buf - 1) t @ [0]"
proof -
  define ds where "ds = map digit_char (radix_repr 10 (nat \<bar>bigint_val v\<bar>))"
  have dec: "bigint_abs_to_decimal_string m (bi_limbs v) = Inr ds"
    using decimal_cases [OF assms(1), of m] assms(2) by (metis ds_def)
  have t: "t = (if bi_sign v then [45] else []) @ ds"
    using bigint_neg_val [OF assms(1)] by (simp add: t_def bigint_text_def ds_def)
  have ne: "ds \<noteq> []" by (simp add: ds_def)
  obtain L where L: "length buf = Suc L" using assms(3) by (cases buf) auto
  show ?thesis
    using L dec t ne
    by (cases "bi_sign v"; cases L)
      (auto simp: strbigint_def bigint_is_negative_def Let_def write_at_Some min_def take_Cons' not_less less_Suc_eq_le)
qed

section \<open>\<^verbatim>\<open>BigInt(value)\<close>\<close>

definition is_space :: "u8 \<Rightarrow> bool" where
  "is_space c \<longleftrightarrow> c = 9 \<or> c = 10 \<or> c = 13 \<or> c = 32"

fun bigint_from_value :: "mem_env \<Rightarrow> js_arg \<Rightarrow> js_error + bigint" where
  "bigint_from_value m (ArgBigint v) = Inr v"
| "bigint_from_value m (ArgNumber NonFinite) = Inl NotFinite"
| "bigint_from_value m (ArgNumber NegZero) =
     (let buf = ascii ''-0'' in if \<not> alloc_ok m (length buf + 1) then Inl Oom else js_mkbigint m buf False)"
| "bigint_from_value m (ArgNumber (Finite d)) =
     (if d \<noteq> of_int \<lfloor>d\<rfloor> then Inl NotAnInteger
      else let neg = d < 0; buf = dec_string (nat \<lfloor>\<bar>d\<bar>\<rfloor>)
           in if \<not> alloc_ok m (length buf + 1) then Inl Oom else js_mkbigint m buf neg)"
| "bigint_from_value m (ArgString str) =
     (let str = rev (dropWhile is_space (rev (dropWhile is_space str)))
      in if str = [] then js_mkbigint m (ascii ''0'') False
         else case (if hd str = 45 then (True, tl str)
                    else if hd str = 43 then (False, tl str) else (False, str)) of
           (neg, digits) \<Rightarrow>
             if digits = [] then Inl CannotConvertStringToBigInt
             else bigint_from_string_digits m digits neg False)"
| "bigint_from_value m (ArgBool b) = js_mkbigint m (ascii (if b then ''1'' else ''0'')) False"
| "bigint_from_value m arg = Inl CannotConvertToBigInt"

lemma digit_char_10:
  assumes "d < 10"
  shows "\<not> is_space (digit_char d)" "digit_char d \<noteq> 45" "digit_char d \<noteq> 43" "digit_char d = 48 \<longleftrightarrow> d = 0"
proof -
  have "\<forall>d \<in> set [0..<10]. \<not> is_space (digit_char d) \<and> digit_char d \<noteq> 45 \<and> digit_char d \<noteq> 43 \<and> (digit_char d = 48 \<longleftrightarrow> d = 0)"
    by code_simp
  with assms show "\<not> is_space (digit_char d)" "digit_char d \<noteq> 45" "digit_char d \<noteq> 43" "digit_char d = 48 \<longleftrightarrow> d = 0"
    by (simp_all only: set_upt atLeastLessThan_iff) simp_all
qed

text \<open>A decimal numeral as written: it has no prefix, no separator, and reads back as its value.\<close>

lemma decimal_numeral:
  fixes n :: nat
  defines "s \<equiv> map digit_char (radix_repr 10 n)"
  shows "literal_base s = (10, 0)" "numeral_ok 10 sep s" "numeral_val 10 s = n" "s \<noteq> []"
proof -
  have dig: "d < 10" if "d \<in> set (radix_repr 10 n)" for d
    using radix_repr_digits [OF _ that] by simp
  show ne: "s \<noteq> []" by (simp add: s_def)
  have "\<not> (2 \<le> length s \<and> s ! 0 = 48)"
  proof (cases "n = 0")
    case True
    have "radix_repr 10 0 = [0]" by code_simp
    with True show ?thesis by (simp add: s_def)
  next
    case False
    have "hd (radix_repr 10 n) \<in> set (radix_repr 10 n)" by (rule hd_in_set) simp
    then have "digit_char (hd (radix_repr 10 n)) \<noteq> 48"
      using digit_char_10(4) [OF dig] radix_repr_hd [of 10 n] False by auto
    moreover have "s ! 0 = digit_char (hd (radix_repr 10 n))" by (simp add: s_def hd_conv_nth)
    ultimately show ?thesis by simp
  qed
  then show "literal_base s = (10, 0)" by (auto simp: literal_base_def)
  have u: "c \<noteq> 95 \<and> 0 \<le> hex_digit c \<and> hex_digit c < 10" if "c \<in> set s" for c
    using that dig by (force simp: s_def digit_char_not_underscore hex_digit_digit_char)
  then have "successively (\<lambda>a b. \<not> (a = 95 \<and> b = 95)) s"
    by (induction s) (auto simp: successively_Cons)
  then show "numeral_ok 10 sep s"
    using u ne hd_in_set [OF ne] last_in_set [OF ne] by (auto simp: numeral_ok_def list_all_iff)
  have "filter (\<lambda>c. c \<noteq> 95) s = s" using u by (simp add: filter_id_conv)
  moreover have "map (\<lambda>c. nat (hex_digit c)) s = radix_repr 10 n"
    unfolding s_def map_map by (rule map_idI) (use dig in \<open>force simp: hex_digit_digit_char\<close>)
  ultimately show "numeral_val 10 s = n" by (simp add: numeral_val_def radix_repr_val)
qed

lemma from_string_decimal:
  "bigint_returns m (length (map digit_char (radix_repr 10 n)) + 1)
    (bigint_from_string_digits m (map digit_char (radix_repr 10 n)) neg sep) (if neg then - int n else int n)"
proof -
  have "bigint_returns m (length (map digit_char (radix_repr 10 n)) + 1)
    (bigint_from_string_digits m (map digit_char (radix_repr 10 n)) neg sep)
    (if neg then - int (numeral_val 10 (map digit_char (radix_repr 10 n)))
     else int (numeral_val 10 (map digit_char (radix_repr 10 n))))"
    using bigint_from_string_digits_cases [OF decimal_numeral(4) [of n] decimal_numeral(1) [of n], of sep m neg]
      decimal_numeral(2) [of sep n] by (simp only: drop0 if_True)
  then show ?thesis by (simp only: decimal_numeral(3))
qed

lemma dropWhile_none: "(\<And>x. x \<in> set xs \<Longrightarrow> \<not> P x) \<Longrightarrow> dropWhile P xs = xs"
  by (cases xs) auto

lemma from_value_text:
  "bigint_returns m (length (bigint_text 10 z) + 1) (bigint_from_value m (ArgString (bigint_text 10 z))) z"
proof -
  let ?ds = "map digit_char (radix_repr 10 (nat \<bar>z\<bar>))"
  have sp: "\<not> is_space c \<and> c \<noteq> 45 \<and> c \<noteq> 43" if "c \<in> set ?ds" for c
    using that radix_repr_digits [of 10] digit_char_10 by force
  have "\<not> is_space 45" by code_simp
  then have "\<not> is_space c" if "c \<in> set (bigint_text 10 z)" for c
    using that sp by (auto simp: bigint_text_def split: if_splits)
  then have "dropWhile is_space (bigint_text 10 z) = bigint_text 10 z"
    "dropWhile is_space (rev (bigint_text 10 z)) = rev (bigint_text 10 z)"
    by (intro dropWhile_none; simp)+
  then have trim: "rev (dropWhile is_space (rev (dropWhile is_space (bigint_text 10 z)))) = bigint_text 10 z"
    by simp
  have ne: "?ds \<noteq> []" by simp
  then have hd: "hd ?ds \<noteq> 45 \<and> hd ?ds \<noteq> 43" using sp hd_in_set [of ?ds] by blast
  define ds where "ds = ?ds"
  have ds: "ds \<noteq> []" "hd ds \<noteq> 45" "hd ds \<noteq> 43" using hd ne by (simp_all only: ds_def) blast+
  have txt_eq: "bigint_text 10 z = (if z < 0 then [45] else []) @ ds" by (simp add: bigint_text_def ds_def)
  have "bigint_from_value m (ArgString (bigint_text 10 z)) = bigint_from_string_digits m ds (z < 0) False"
    unfolding bigint_from_value.simps Let_def trim unfolding txt_eq
    using ds by (cases "z < 0") simp_all
  moreover have "(if z < 0 then - int (nat \<bar>z\<bar>) else int (nat \<bar>z\<bar>)) = z" by simp
  ultimately have "bigint_returns m (length ds + 1) (bigint_from_value m (ArgString (bigint_text 10 z))) z"
    using from_string_decimal [of m "nat \<bar>z\<bar>" "z < 0" False] by (simp only: ds_def)
  then show ?thesis by (rule bigint_returns_mono) (simp add: txt_eq)
qed

lemma from_value_number:
  "bigint_returns m (length (dec_string (nat \<bar>z\<bar>)) + 1) (bigint_from_value m (ArgNumber (Finite (of_int z)))) z"
proof (cases "alloc_ok m (length (dec_string (nat \<bar>z\<bar>)) + 1)")
  case True
  have "\<lfloor>\<bar>of_int z :: rat\<bar>\<rfloor> = \<bar>z\<bar>" by (metis floor_of_int of_int_abs)
  with True have "bigint_from_value m (ArgNumber (Finite (of_int z)))
      = bigint_from_string_digits m (dec_string (nat \<bar>z\<bar>)) (z < 0) True"
    by (simp add: js_mkbigint_def Let_def)
  moreover have "(if z < 0 then - int (nat \<bar>z\<bar>) else int (nat \<bar>z\<bar>)) = z" by simp
  ultimately show ?thesis
    using from_string_decimal [of m "nat \<bar>z\<bar>" "z < 0" True] by (simp only: dec_string_def)
next
  case False
  have "\<lfloor>\<bar>of_int z :: rat\<bar>\<rfloor> = \<bar>z\<bar>" by (metis floor_of_int of_int_abs)
  with False have "bigint_from_value m (ArgNumber (Finite (of_int z))) = Inl Oom" by (simp add: Let_def)
  then show ?thesis using False by (auto simp: bigint_returns_def)
qed

text \<open>A string: blanks around it, a sign, and what the rest denotes.\<close>

definition blank :: "u8 \<Rightarrow> bool" where
  "blank c \<longleftrightarrow> c \<in> set (map word_of_nat [9, 10, 13, 32])"

lemma is_space_blank: "is_space = blank"
  by (auto simp: is_space_def blank_def fun_eq_iff)

lemma from_value_string:
  assumes "\<forall>c \<in> set pre. blank c" and "\<forall>c \<in> set post. blank c"
    and sign: "sign \<in> {[], [43], [45]}" and ds: "ds \<noteq> []" "\<not> blank (hd ds)" "\<not> blank (last ds)"
    and unsigned: "sign = [] \<Longrightarrow> hd ds \<noteq> 43 \<and> hd ds \<noteq> 45"
  shows "bigint_from_value m (ArgString (pre @ (sign @ ds) @ post)) = bigint_from_string_digits m ds (sign = [45]) False"
proof -
  have "\<not> blank 43" "\<not> blank 45" by (simp_all add: blank_def)
  then have "\<not> blank (hd (sign @ ds)) \<and> \<not> blank (last (sign @ ds))" using sign ds by auto
  from trim_blanks [of pre blank post "sign @ ds", OF assms(1,2) this]
  have trim: "rev (dropWhile is_space (rev (dropWhile is_space (pre @ (sign @ ds) @ post)))) = sign @ ds"
    unfolding is_space_blank .
  show ?thesis
    unfolding bigint_from_value.simps Let_def trim using sign ds(1) unsigned by (auto split: list.splits)
qed

lemma from_value_blank:
  assumes "\<forall>c \<in> set pre. blank c"
  shows "bigint_from_value m (ArgString pre) = js_mkbigint m (ascii ''0'') False"
  using trim_blanks [of pre is_space "[]" "[]"] assms by (simp add: is_space_blank)

lemma from_value_neg_zero:
  assumes "ample_memory m"
  shows "bigint_from_value m (ArgNumber NegZero) = Inl CannotConvertStringToBigInt"
proof -
  have bytes: "ascii ''-0'' = [45, 48]" by code_simp
  have "digit_value 45 = None" unfolding digit_table by simp
  then have "literal_value True [45, 48] = None"
    by (simp add: literal_value_def literal_prefixes_def prefix_bytes numeral_value_def)
  with from_string_digits_reads [of m "[45, 48]" False True] assms show ?thesis
    by (simp add: reads_literal_def js_mkbigint_def bytes)
qed

end
