(* ===== verification/Bigint_Spec.thy ===== *)
theory Bigint_Spec
  imports Bigint_Builtins
begin

unbundle bit_operations_syntax

text \<open>
  What the BigInt component promises, operation by operation, over the integer a value
  denotes. Each theorem covers the successful path and the error path: \<open>bigint_returns\<close>
  says that the result is the stated integer in normal form, or out of memory with an
  allocator that refused or a result of \<open>2 ^ 32\<close> limbs, and nothing else.
\<close>

section \<open>Evaluating on concrete operands\<close>

lemma alloc_full_mem: "n < 2 ^ 32 \<Longrightarrow> bigint_alloc_payload full_mem n = Inr ()"
  using bigint_alloc_payload_cases [of full_mem n] by simp

lemma normalize_one: "bigint_normalize_limbs xs (Suc 0) = Suc 0"
  by (subst bigint_normalize_limbs.simps) simp

text \<open>With ample memory the operation succeeds with the integer stated.\<close>

definition succeeds_with :: "js_error + bigint \<Rightarrow> int \<Rightarrow> bool" where
  "succeeds_with out z \<longleftrightarrow> (\<exists>r. out = Inr r \<and> bigint_wf r \<and> bigint_val r = z)"

lemma returns_ample: "bigint_returns m c out z \<Longrightarrow> ample_memory m \<Longrightarrow> c < 2 ^ 32 \<Longrightarrow> succeeds_with out z"
  by (cases out) (auto simp: bigint_returns_def succeeds_with_def)

lemma returns_full: "bigint_returns full_mem c out z \<Longrightarrow> c < 2 ^ 32 \<Longrightarrow> succeeds_with out z"
  by (cases out) (auto simp: bigint_returns_def succeeds_with_def)

lemmas bigint_val_eval = bigint_val_def signed_mag_def base32_def

lemmas mkbigint_eval =
  js_mkbigint_limbs_def alloc_full_mem normalize_one bigint_finish_payload_def Let_def

section \<open>Arithmetic\<close>

text \<open>
  C1: Addition, subtraction, multiplication and negation of BigInt values compute the
  integer sum, difference, product and opposite, in the unique normal form (no leading
  zero limb, no negative zero), without overrunning the limb buffer they chose.
\<close>

theorem bigint_ring_operations:
  assumes "bigint_wf a" "bigint_wf b"
  shows "bigint_returns m (bin_capacity a b) (bigint_add m a b) (bigint_val a + bigint_val b) \<and>
    bigint_returns m (bin_capacity a b) (bigint_sub m a b) (bigint_val a - bigint_val b) \<and>
    bigint_returns m (length (bi_limbs a) + length (bi_limbs b) + 1) (bigint_mul m a b) (bigint_val a * bigint_val b) \<and>
    bigint_returns m (length (bi_limbs a)) (bigint_neg m a) (- bigint_val a)"
  using bigint_add_returns [OF assms] bigint_sub_returns [OF assms] bigint_mul_returns [OF assms]
    bigint_neg_returns [OF assms(1)] by blast

theorem bigint_ring_operations_witness:
  "succeeds_with
     (bigint_add full_mem \<lparr>bi_sign = True, bi_limbs = [0, 1]\<rparr> \<lparr>bi_sign = False, bi_limbs = [0xFFFFFFFF, 0xFFFFFFFF]\<rparr>)
     (- 4294967296 + 18446744073709551615)"
proof -
  have wf: "bigint_wf \<lparr>bi_sign = True, bi_limbs = [0, 1]\<rparr>" "bigint_wf \<lparr>bi_sign = False, bi_limbs = [0xFFFFFFFF, 0xFFFFFFFF]\<rparr>"
    by code_simp+
  have "bigint_val \<lparr>bi_sign = True, bi_limbs = [0, 1]\<rparr> = - 4294967296"
    "bigint_val \<lparr>bi_sign = False, bi_limbs = [0xFFFFFFFF, 0xFFFFFFFF]\<rparr> = 18446744073709551615"
    by (simp_all add: bigint_val_eval)
  then show ?thesis
    using bigint_ring_operations [OF wf, of full_mem] by (auto simp: bin_capacity_def dest!: returns_full)
qed

text \<open>
  C2: BigInt left shift multiplies by a power of two; right shift is division by a power
  of two rounded towards minus infinity, also for negative values and for shifts longer
  than the number; the unsigned right shift is always refused.
\<close>

theorem bigint_shift_operations:
  assumes "bigint_wf v"
  shows "bigint_returns m (length (bi_limbs v) + shift_limbs s + 1) (bigint_shift_left m v s) (bigint_val v * 2 ^ unat s) \<and>
    bigint_returns m (length (bi_limbs v) + 1) (bigint_shift_right m v s) (bigint_val v div 2 ^ unat s) \<and>
    bigint_shift_right_logical v s = Inl NoUnsignedRightShift"
  using bigint_shift_left_returns [OF assms] bigint_shift_right_returns [OF assms]
  by (simp add: bigint_shift_right_logical_def)

theorem bigint_shift_operations_witness:
  "succeeds_with (bigint_shift_right full_mem \<lparr>bi_sign = True, bi_limbs = [1, 1]\<rparr> 33) (- 1)"
proof -
  have wf: "bigint_wf \<lparr>bi_sign = True, bi_limbs = [1, 1]\<rparr>" by code_simp
  have "bigint_val \<lparr>bi_sign = True, bi_limbs = [1, 1]\<rparr> div 2 ^ unat (33 :: u64) = - 1"
    by (simp add: bigint_val_eval)
  then show ?thesis using bigint_shift_operations [OF wf, of full_mem 33] by (auto dest!: returns_full)
qed

text \<open>
  C3: The bitwise operators of BigInt values are those of the integers in two's
  complement, of whatever sign and length.
\<close>

theorem bigint_bitwise_operations:
  assumes "bigint_wf a" "bigint_wf b"
  shows "bigint_returns m (bin_capacity a b) (bigint_bitand m a b) (bigint_val a AND bigint_val b) \<and>
    bigint_returns m (bin_capacity a b) (bigint_bitor m a b) (bigint_val a OR bigint_val b) \<and>
    bigint_returns m (bin_capacity a b) (bigint_bitxor m a b) (bigint_val a XOR bigint_val b) \<and>
    bigint_returns m (length (bi_limbs a) + 1) (bigint_bitnot m a) (NOT (bigint_val a))"
  using bigint_bitwise_binary_returns [OF assms, of m BIGINT_BAND]
    bigint_bitwise_binary_returns [OF assms, of m BIGINT_BOR]
    bigint_bitwise_binary_returns [OF assms, of m BIGINT_BXOR] bigint_bitnot_returns [OF assms(1), of m]
  by (simp add: bigint_bitand_def bigint_bitor_def bigint_bitxor_def)

theorem bigint_bitwise_operations_witness:
  "succeeds_with
     (bigint_bitxor full_mem \<lparr>bi_sign = True, bi_limbs = [1, 1]\<rparr> \<lparr>bi_sign = False, bi_limbs = [0xFFFF]\<rparr>)
     (- 4294967297 XOR 65535)"
proof -
  have wf: "bigint_wf \<lparr>bi_sign = True, bi_limbs = [1, 1]\<rparr>" "bigint_wf \<lparr>bi_sign = False, bi_limbs = [0xFFFF]\<rparr>"
    by code_simp+
  have "bigint_val \<lparr>bi_sign = True, bi_limbs = [1, 1]\<rparr> = - 4294967297"
    "bigint_val \<lparr>bi_sign = False, bi_limbs = [0xFFFF]\<rparr> = 65535" by (simp_all add: bigint_val_eval)
  then show ?thesis
    using bigint_bitwise_operations [OF wf, of full_mem] by (auto simp: bin_capacity_def dest!: returns_full)
qed

text \<open>
  C4: Division and remainder of BigInt values truncate towards zero and the remainder has
  the sign of the dividend, for every pair of operands on which the long division is
  exact (smaller dividend, one-limb divisor, or no clamped trial digit with an overlong
  trial remainder); a zero divisor is reported.
\<close>

theorem bigint_div_mod_exact:
  assumes "bigint_wf a" "bigint_wf b"
  shows "(bigint_val b = 0 \<longrightarrow> bigint_div m a b = Inl DivisionByZero \<and> bigint_mod m a b = Inl DivisionByZero) \<and>
    (bigint_val b \<noteq> 0 \<and> divmod_exact (bi_limbs a) (bi_limbs b) \<longrightarrow>
       bigint_returns m (length (bi_limbs a)) (bigint_div m a b) (tdiv (bigint_val a) (bigint_val b)) \<and>
       bigint_returns m (length (bi_limbs a)) (bigint_mod m a b) (tmod (bigint_val a) (bigint_val b)))"
  using bigint_div_zero [OF assms(2)] bigint_div_mod_returns [OF assms] by blast

theorem bigint_div_mod_exact_witness:
  "succeeds_with
     (bigint_mod full_mem \<lparr>bi_sign = True, bi_limbs = [7, 0, 1]\<rparr> \<lparr>bi_sign = False, bi_limbs = [5, 1]\<rparr>)
     (- 32)"
proof -
  have wf: "bigint_wf \<lparr>bi_sign = True, bi_limbs = [7, 0, 1]\<rparr>" "bigint_wf \<lparr>bi_sign = False, bi_limbs = [5, 1]\<rparr>"
    by code_simp+
  have v: "bigint_val \<lparr>bi_sign = True, bi_limbs = [7, 0, 1]\<rparr> = - 18446744073709551623"
    "bigint_val \<lparr>bi_sign = False, bi_limbs = [5, 1]\<rparr> = 4294967301" by (simp_all add: bigint_val_eval)
  have "divmod_exact [7, 0, 1] [5, 1]" by code_simp
  then show ?thesis
    using bigint_div_mod_exact [OF wf, of full_mem] by (auto simp: v tmod_def dest!: returns_full)
qed

text \<open>
  C5: The exactness condition is needed: on a 96-bit dividend and a 64-bit divisor the
  unchecked shift of the trial remainder wraps, a correct digit is decremented, and
  \<^verbatim>\<open>0x800000008000000000000000n / 0x80000000FFFFFFFFn\<close> gives \<^verbatim>\<open>4294967294n\<close>, one less than
  the quotient.
\<close>

theorem bigint_div_inexact:
  "bigint_div full_mem \<lparr>bi_sign = False, bi_limbs = [0, 0x80000000, 0x80000000]\<rparr>
       \<lparr>bi_sign = False, bi_limbs = [0xFFFFFFFF, 0x80000000]\<rparr>
     = Inr \<lparr>bi_sign = False, bi_limbs = [4294967294]\<rparr> \<and>
   tdiv (bigint_val \<lparr>bi_sign = False, bi_limbs = [0, 0x80000000, 0x80000000]\<rparr>)
        (bigint_val \<lparr>bi_sign = False, bi_limbs = [0xFFFFFFFF, 0x80000000]\<rparr>) = 4294967295"
proof -
  have "bigint_divmod_abs_limbs full_mem [0, 0x80000000, 0x80000000] [0xFFFFFFFF, 0x80000000] True False
      = Some (Some ([4294967294, 0], 1), None)"
    by code_simp
  then show ?thesis
    by (simp add: bigint_div_def bigint_is_negative_def mkbigint_eval bigint_val_eval tdiv_def)
qed

text \<open>
  C6: Comparison of BigInt values is the order of the integers, and since the stored form
  of an integer is unique, it is zero exactly for equal payloads.
\<close>

theorem bigint_compare_order:
  assumes "bigint_wf a" "bigint_wf b"
  shows "bigint_compare a b = sgn (bigint_val a - bigint_val b) \<and> (bigint_compare a b = 0 \<longleftrightarrow> a = b)"
  using bigint_compare_sgn [OF assms] bigint_wf_inj [OF assms] by (auto simp: sgn_if)

theorem bigint_compare_order_witness:
  "bigint_compare \<lparr>bi_sign = True, bi_limbs = [0, 2]\<rparr> \<lparr>bi_sign = True, bi_limbs = [9, 1]\<rparr> = - 1"
proof -
  have wf: "bigint_wf \<lparr>bi_sign = True, bi_limbs = [0, 2]\<rparr>" "bigint_wf \<lparr>bi_sign = True, bi_limbs = [9, 1]\<rparr>"
    by code_simp+
  have "sgn (bigint_val \<lparr>bi_sign = True, bi_limbs = [0, 2]\<rparr> - bigint_val \<lparr>bi_sign = True, bi_limbs = [9, 1]\<rparr>) = - 1"
    by (simp add: bigint_val_eval)
  then show ?thesis using bigint_compare_order [OF wf] by simp
qed

section \<open>Exponentiation and fixed-width reductions\<close>

text \<open>
  C7: BigInt exponentiation ends: with \<open>e < 2 ^ n\<close> the square-and-multiply loop needs at
  most \<open>n + 1\<close> iterations, and then it returns the power, or out of memory when the
  allocator refuses or the last square (computed even when no longer needed) would
  exceed \<open>2 ^ 32\<close> limbs. A negative exponent is reported.
\<close>

theorem bigint_exp_terminates:
  assumes "bigint_wf base" "bigint_wf ex" "bigint_val ex < 2 ^ n" "n < fuel" "ample_memory m"
  shows "(bigint_val ex < 0 \<longrightarrow> bigint_exp m fuel base ex = Some (Inl ExponentMustBePositive)) \<and>
    (0 \<le> bigint_val ex \<longrightarrow>
      (\<exists>out. bigint_exp m fuel base ex = Some out \<and>
        bigint_returns m (max (length (bi_limbs base) * 2 ^ n + 1) (length (bi_limbs ex) + 1)) out
          (bigint_val base ^ nat (bigint_val ex))))"
proof -
  have one: "\<not> isl (js_mkbigint m (ascii ''1'') False)"
    using literal_0_1(2) [of m] assms(5) by (cases "js_mkbigint m (ascii ''1'') False") (auto simp: bigint_returns_def)
  show ?thesis
    using bigint_exp_outcome [OF assms(1,2) _ assms(3,4), of m] one bigint_neg_val [OF assms(2)]
    by (auto simp: exp_outcome_def bigint_exp_def bigint_is_negative_def split: option.splits)
qed

theorem bigint_exp_terminates_witness:
  "\<exists>out. bigint_exp full_mem 4 \<lparr>bi_sign = True, bi_limbs = [3]\<rparr> \<lparr>bi_sign = False, bi_limbs = [5]\<rparr> = Some out \<and>
     succeeds_with out (- 243)"
proof -
  have wf: "bigint_wf \<lparr>bi_sign = True, bi_limbs = [3]\<rparr>" "bigint_wf \<lparr>bi_sign = False, bi_limbs = [5]\<rparr>"
    by code_simp+
  have v: "bigint_val \<lparr>bi_sign = True, bi_limbs = [3]\<rparr> = - 3" "bigint_val \<lparr>bi_sign = False, bi_limbs = [5]\<rparr> = 5"
    by (simp_all add: bigint_val_eval)
  show ?thesis
    using bigint_exp_terminates [OF wf, of 3 4 full_mem] by (auto simp: v dest!: returns_full)
qed

text \<open>
  C8: \<^verbatim>\<open>BigInt.asUintN\<close> and \<^verbatim>\<open>BigInt.asIntN\<close> reduce modulo a power of two to the unsigned and
  to the two's complement range, for operands of either sign and every width argument that is accepted; their
  division by a power of two is never affected by the inexact long division.
\<close>

theorem bigint_asN_reduce:
  assumes "bigint_wf v" "bigint_asint_bits conv arg = Inr bits"
  shows "bigint_returns m (asN_capacity bits v) (builtin_BigInt_asUintN m conv (arg # ArgBigint v # args)) (take_bit (unat bits) (bigint_val v)) \<and>
    bigint_returns m (asN_capacity bits v) (builtin_BigInt_asIntN m conv (arg # ArgBigint v # args))
      (if bits = 0 then 0 else signed_take_bit (unat bits - 1) (bigint_val v))"
  using asUintN_returns [OF assms] asIntN_returns [OF assms] by blast

theorem bigint_asN_reduce_witness:
  "succeeds_with (builtin_BigInt_asUintN full_mem (\<lambda>_. NonFinite) [ArgNumber (Finite 8), ArgBigint \<lparr>bi_sign = True, bi_limbs = [1]\<rparr>]) 255"
proof -
  have wf: "bigint_wf \<lparr>bi_sign = True, bi_limbs = [1]\<rparr>" by code_simp
  have v: "bigint_val \<lparr>bi_sign = True, bi_limbs = [1]\<rparr> = - 1" by (simp add: bigint_val_eval)
  have "bigint_asint_bits (\<lambda>_. NonFinite) (ArgNumber (Finite 8)) = Inr 8"
    by (simp add: bigint_asint_bits_def double_to_u64_def double_literal_u64)
  moreover have "shift_limbs 8 = 0" by code_simp
  moreover have "take_bit 8 (- 1 :: int) = 255" by code_simp
  ultimately show ?thesis
    using bigint_asN_reduce [OF wf, of "\<lambda>_. NonFinite" "ArgNumber (Finite 8)" 8 full_mem "[]"] by (auto simp: v asN_capacity_def dest!: returns_full)
qed

text \<open>
  C9: Conversions to and from 64-bit integers: from both kinds of 64-bit integer exactly,
  to them modulo \<open>2 ^ 64\<close>, and the checked conversion succeeds exactly on the values in range.
\<close>

theorem bigint_64_bit_conversions:
  assumes "bigint_wf v"
  shows "bigint_returns m 2 (bigint_from_uint64 m x) (uint x) \<and> bigint_returns m 2 (bigint_from_int64 m x) (sint x) \<and>
    uint (bigint_to_uint64_wrapping v) = bigint_val v mod 2 ^ 64 \<and>
    bigint_to_int64_wrapping v = signed_take_bit 63 (bigint_val v) \<and>
    bigint_to_u64 v = (if 0 \<le> bigint_val v \<and> bigint_val v < 2 ^ 64 then Inr (word_of_int (bigint_val v)) else Inl InvalidBits)"
proof -
  note u = to_uint64_wrapping_val [OF assms]
  have "bigint_to_int64_wrapping v = signed_take_bit 63 (uint (bigint_to_uint64_wrapping v))"
    by (simp add: bigint_to_int64_wrapping_def sint_uint)
  also have "\<dots> = signed_take_bit 63 (take_bit 64 (bigint_val v))" by (simp only: u take_bit_eq_mod)
  also have "\<dots> = signed_take_bit 63 (bigint_val v)" by (simp add: signed_take_bit_take_bit)
  finally have s: "bigint_to_int64_wrapping v = signed_take_bit 63 (bigint_val v)" .
  have "bigint_to_u64 v = (if 0 \<le> bigint_val v \<and> bigint_val v < 2 ^ 64 then Inr (word_of_int (bigint_val v)) else Inl InvalidBits)"
    using parse_u64_val [OF assms]
    by (cases "bigint_parse_u64 v") (auto simp: bigint_to_u64_def split: if_splits dest: arg_cong [of _ _ "word_of_int :: int \<Rightarrow> u64"])
  with u s show ?thesis
    using bigint_from_uint64_returns [of m x] bigint_from_int64_returns [of m x] by blast
qed

theorem bigint_64_bit_conversions_witness:
  "bigint_to_int64_wrapping \<lparr>bi_sign = False, bi_limbs = [0, 0x80000000]\<rparr> = - 9223372036854775808"
proof -
  have wf: "bigint_wf \<lparr>bi_sign = False, bi_limbs = [0, 0x80000000]\<rparr>" by code_simp
  have "bigint_val \<lparr>bi_sign = False, bi_limbs = [0, 0x80000000]\<rparr> = 9223372036854775808"
    by (simp add: bigint_val_eval)
  moreover have "signed_take_bit 63 (9223372036854775808 :: int) = - 9223372036854775808" by code_simp
  ultimately show ?thesis using bigint_64_bit_conversions [OF wf] by simp
qed

section \<open>Text\<close>

text \<open>
  C10: Reading digits: the text denotes a number in base 16, 8 or 2 after the prefix \<^verbatim>\<open>0x\<close>, \<^verbatim>\<open>0o\<close> or \<^verbatim>\<open>0b\<close> in
  either case and in base 10 without one, with single underscores between digits where separators
  are allowed. The scanner returns that number with the sign, and for any other text the conversion
  error; the growing limb buffer is never overrun. The digits, the prefixes and the value are
  tables of their own here, not those of the scanner.
\<close>

theorem bigint_literal_value:
  "case literal_value sep cs of
     Some n \<Rightarrow> bigint_returns m (length cs + 1) (bigint_from_string_digits m cs neg sep) (if neg then - int n else int n)
   | None \<Rightarrow> bigint_from_string_digits m cs neg sep = Inl CannotConvertStringToBigInt \<or>
       bigint_from_string_digits m cs neg sep = Inl Oom \<and> \<not> (ample_memory m \<and> length cs < 2 ^ 32)"
  using from_string_digits_reads [of m cs neg sep] by (auto simp: reads_literal_def signed_value_def split: option.splits)

theorem bigint_literal_value_witness:
  "succeeds_with (bigint_from_string_digits full_mem [48, 111, 49, 95, 55] True True) (- 15) \<and>
   bigint_from_string_digits full_mem [48, 98, 50] False False = Inl CannotConvertStringToBigInt"
proof -
  have "literal_value True [48, 111, 49, 95, 55] = Some 15" "literal_value False [48, 98, 50] = None"
    by (simp_all add: literal_value_def literal_prefixes_def prefix_bytes numeral_value_def digit_table List.map_filter_simps)
  then show ?thesis
    using bigint_literal_value [of full_mem "[48, 111, 49, 95, 55]" True True] bigint_literal_value [of full_mem "[48, 98, 50]" False False]
      returns_ample [OF _ ample_full_mem] ample_full_mem by fastforce
qed

text \<open>
  C11: \<^verbatim>\<open>BigInt(value)\<close>. A number that is an integer gives exactly that integer, of any size; other numbers are
  refused, and so is the negative zero, which is printed with its sign and read back as a text
  that is no numeral. A string may have blanks around it and one sign, and then denotes what its
  digits denote; a blank string is zero. Separators are not allowed here.
\<close>

theorem bigint_from_value_exact:
  assumes "ample_memory m" and "\<forall>c \<in> set pre. blank c" and "\<forall>c \<in> set post. blank c" and "sign \<in> {[], [43], [45]}"
    and "ds \<noteq> []" "\<not> blank (hd ds)" "\<not> blank (last ds)" and "sign = [] \<longrightarrow> hd ds \<noteq> 43 \<and> hd ds \<noteq> 45" and "length ds < 2 ^ 32 - 1"
  shows "(length (dec_string (nat \<bar>z\<bar>)) < 2 ^ 32 - 1 \<longrightarrow> succeeds_with (bigint_from_value m (ArgNumber (Finite (of_int z)))) z) \<and>
    (d \<notin> \<int> \<longrightarrow> bigint_from_value m (ArgNumber (Finite d)) = Inl NotAnInteger) \<and>
    bigint_from_value m (ArgNumber NonFinite) = Inl NotFinite \<and>
    bigint_from_value m (ArgNumber NegZero) = Inl CannotConvertStringToBigInt \<and>
    succeeds_with (bigint_from_value m (ArgString (pre @ post))) 0 \<and>
    (case literal_value False ds of
       Some n \<Rightarrow> succeeds_with (bigint_from_value m (ArgString (pre @ sign @ ds @ post))) (if sign = [45] then - int n else int n)
     | None \<Rightarrow> bigint_from_value m (ArgString (pre @ sign @ ds @ post)) = Inl CannotConvertStringToBigInt)"
proof -
  have "succeeds_with (bigint_from_value m (ArgNumber (Finite (of_int z)))) z" if "length (dec_string (nat \<bar>z\<bar>)) < 2 ^ 32 - 1"
    using from_value_number [of m z] returns_ample [OF _ assms(1)] that by fastforce
  moreover have "bigint_from_value m (ArgNumber (Finite d)) = Inl NotAnInteger" if "d \<notin> \<int>"
    using that by (auto simp: Ints_def)
  moreover have "succeeds_with (bigint_from_value m (ArgString (pre @ post))) 0"
    using from_value_blank [of "pre @ post" m] assms(2,3) literal_0_1(1) [of m] returns_ample [OF _ assms(1)] by fastforce
  moreover have "bigint_from_value m (ArgString (pre @ sign @ ds @ post)) = bigint_from_string_digits m ds (sign = [45]) False"
    using from_value_string [of pre post sign ds m] assms(2-8) by auto
  moreover note from_string_digits_reads [of m ds "sign = [45]" False] from_value_neg_zero [OF assms(1)]
  ultimately show ?thesis
    using returns_ample [OF _ assms(1)] assms(1,9)
    by (auto simp: reads_literal_def signed_value_def split: option.splits)
qed

theorem bigint_from_value_exact_witness:
  "succeeds_with (bigint_from_value full_mem (ArgString [32, 45, 48, 120, 102, 102, 10])) (- 255)"
proof -
  have ds: "[48, 120, 102, 102] \<noteq> ([] :: bytes)" "\<not> blank (hd [48, 120, 102, 102])" "\<not> blank (last [48, 120, 102, 102])"
    by (simp_all add: blank_def)
  have blanks: "\<forall>c \<in> set [32]. blank c" "\<forall>c \<in> set [10]. blank c" by (simp_all add: blank_def)
  have "literal_value False [48, 120, 102, 102] = Some 255"
    by (simp add: literal_value_def literal_prefixes_def prefix_bytes numeral_value_def digit_table List.map_filter_simps)
  then show ?thesis
    using bigint_from_value_exact [OF ample_full_mem blanks _ ds, of "[45]"] by simp
qed

text \<open>
  C12: \<^verbatim>\<open>toString\<close> writes the sign and the digits of the value in the radix, without leading
  zeros; what \<^verbatim>\<open>toString()\<close> writes in decimal, \<^verbatim>\<open>BigInt(string)\<close> reads back as the same value.
\<close>

theorem bigint_text_roundtrip:
  assumes "bigint_wf v" "ample_memory m" "2 \<le> radix" "radix \<le> 36"
  shows "builtin_bigint_toString m v radix = Inr (bigint_text (nat radix) (bigint_val v)) \<and>
    (\<exists>s. builtin_bigint_toString m v 10 = Inr s \<and>
       (length s < 2 ^ 32 - 1 \<longrightarrow> bigint_from_value m (ArgString s) = Inr v))"
proof -
  have dec: "builtin_bigint_toString m v 10 = Inr (bigint_text 10 (bigint_val v))"
    using toString_cases [OF assms(1), of 10 m] assms(2) by simp
  have "bigint_from_value m (ArgString (bigint_text 10 (bigint_val v))) = Inr v"
    if "length (bigint_text 10 (bigint_val v)) < 2 ^ 32 - 1"
    using from_value_text [of m "bigint_val v"] that assms(1,2) bigint_wf_inj [OF _ assms(1)]
    by (auto simp: bigint_returns_def split: sum.splits)
  with dec show ?thesis
    using toString_cases [OF assms(1,3,4), of m] assms(2) by auto
qed

theorem bigint_text_roundtrip_witness:
  "builtin_bigint_toString full_mem \<lparr>bi_sign = True, bi_limbs = [255]\<rparr> 16 = Inr (ascii ''-ff'')"
proof -
  have wf: "bigint_wf \<lparr>bi_sign = True, bi_limbs = [255]\<rparr>" by code_simp
  have "bigint_val \<lparr>bi_sign = True, bi_limbs = [255]\<rparr> = - 255" by (simp add: bigint_val_eval)
  moreover have "bigint_text 16 (- 255) = ascii ''-ff''" by code_simp
  ultimately show ?thesis using bigint_text_roundtrip [OF wf, of full_mem 16] by simp
qed

text \<open>
  C13: The console formatter stays inside the caller's buffer, terminates what it writes,
  truncates a text that does not fit, and returns the length the whole text needs.
\<close>

theorem strbigint_bounded:
  assumes "bigint_wf v" "ample_memory m" "buf \<noteq> []"
  shows "\<exists>buf'. strbigint m v buf = Some (buf', length (bigint_text 10 (bigint_val v))) \<and> length buf' = length buf \<and>
    take (Suc (min (length (bigint_text 10 (bigint_val v))) (length buf - 1))) buf'
      = take (length buf - 1) (bigint_text 10 (bigint_val v)) @ [0]"
  by (rule strbigint_text [OF assms])

theorem strbigint_bounded_witness:
  "\<exists>buf'. strbigint full_mem \<lparr>bi_sign = True, bi_limbs = [255]\<rparr> (replicate 3 7) = Some (buf', 4) \<and> buf' = [45, 50, 0]"
proof -
  have wf: "bigint_wf \<lparr>bi_sign = True, bi_limbs = [255]\<rparr>" by code_simp
  have v: "bigint_val \<lparr>bi_sign = True, bi_limbs = [255]\<rparr> = - 255" by (simp add: bigint_val_eval)
  have "bigint_text 10 (- 255) = [45, 50, 53, 53]" by code_simp
  then show ?thesis
    using strbigint_bounded [OF wf, of full_mem "replicate 3 7"] by (auto simp: v min_def)
qed

end
