(* ===== verification/Utf8_Codec.thy ===== *)
theory Utf8_Codec
  imports Text_Digits
begin

unbundle bit_operations_syntax

text \<open>
  Text of the runtime. A script string is stored as generalised UTF-8 (WTF-8, in which the
  surrogate code points may occur) and seen by scripts as UTF-16 code units. The first
  section is the specification: a text is a list of code points, \<open>wtf8\<close> its bytes and
  \<open>utf16\<close> its code units. The others model the byte-level routines of \<^verbatim>\<open>src/utf8.c\<close> and
  \<^verbatim>\<open>include/utf8.h\<close> that keep no state: the sequence decoders, the validator, the character
  counts and the Latin-1 conversions.
\<close>

section \<open>Texts as code points\<close>

definition code_point :: "nat \<Rightarrow> bool" where
  "code_point c \<longleftrightarrow> c < 0x110000"

definition surrogate :: "nat \<Rightarrow> bool" where
  "surrogate c \<longleftrightarrow> 0xD800 \<le> c \<and> c \<le> 0xDFFF"

definition scalar_value :: "nat \<Rightarrow> bool" where
  "scalar_value c \<longleftrightarrow> code_point c \<and> \<not> surrogate c"

definition byte :: "nat \<Rightarrow> u8" where
  "byte n = word_of_nat n"

lemma unat_byte [simp]: "n < 256 \<Longrightarrow> unat (byte n) = n"
  by (simp add: byte_def unsigned_of_nat take_bit_nat_eq_self)

lemma byte_eq_iff: "n < 256 \<Longrightarrow> c = byte n \<longleftrightarrow> unat c = n"
  by (metis unat_byte word_unat_eq_iff)

definition wtf8_char :: "nat \<Rightarrow> bytes" where
  "wtf8_char c =
     (if c < 0x80 then [byte c]
      else if c < 0x800 then [byte (0xC0 + c div 64), byte (0x80 + c mod 64)]
      else if c < 0x10000 then
        [byte (0xE0 + c div 4096), byte (0x80 + c div 64 mod 64),
         byte (0x80 + c mod 64)]
      else
        [byte (0xF0 + c div 262144), byte (0x80 + c div 4096 mod 64),
         byte (0x80 + c div 64 mod 64), byte (0x80 + c mod 64)])"

definition utf16_char :: "nat \<Rightarrow> nat list" where
  "utf16_char c =
     (if c < 0x10000 then [c]
      else [0xD800 + (c - 0x10000) div 0x400, 0xDC00 + (c - 0x10000) mod 0x400])"

definition wtf8 :: "nat list \<Rightarrow> bytes" where
  "wtf8 cs = concat (map wtf8_char cs)"

definition utf16 :: "nat list \<Rightarrow> nat list" where
  "utf16 cs = concat (map utf16_char cs)"

lemma wtf8_simps [simp]:
  "wtf8 [] = []" "wtf8 (c # cs) = wtf8_char c @ wtf8 cs" "wtf8 (cs @ ds) = wtf8 cs @ wtf8 ds"
  by (simp_all add: wtf8_def)

lemma utf16_simps [simp]:
  "utf16 [] = []" "utf16 (c # cs) = utf16_char c @ utf16 cs" "utf16 (cs @ ds) = utf16 cs @ utf16 ds"
  by (simp_all add: utf16_def)

lemma wtf8_char_length: "length (wtf8_char c) =
    (if c < 0x80 then 1 else if c < 0x800 then 2 else if c < 0x10000 then 3 else 4)"
  by (simp add: wtf8_char_def)

lemma wtf8_char_nonempty [simp]: "wtf8_char c \<noteq> []" "0 < length (wtf8_char c)"
  by (simp_all add: wtf8_char_def)

lemma utf16_char_length: "length (utf16_char c) = (if c < 0x10000 then 1 else 2)"
  by (simp add: utf16_char_def)

lemma utf16_char_nonempty [simp]: "utf16_char c \<noteq> []" "0 < length (utf16_char c)"
  by (simp_all add: utf16_char_def)

lemma utf16_char_le_wtf8_char: "length (utf16_char c) \<le> length (wtf8_char c)"
  by (simp add: utf16_char_length wtf8_char_length)

lemma utf16_le_wtf8: "length (utf16 cs) \<le> length (wtf8 cs)"
  by (induction cs) (simp_all add: add_mono utf16_char_le_wtf8_char)

section \<open>Bytes\<close>

lemma unat_and_not_mask: "unat ((c :: u8) AND NOT (mask k)) = unat c div 2 ^ k * 2 ^ k"
proof -
  have "unat c div 2 ^ k * 2 ^ k \<le> unat c"
    by simp
  also have "\<dots> < 2 ^ 8"
    using unat_u8_bound [of c] by simp
  finally have small: "unat c div 2 ^ k * 2 ^ k < 2 ^ 8" .
  have "unat (drop_bit k c) = unat c div 2 ^ k"
    using unat_u8_bound [of c]
    by (simp add: unsigned_drop_bit_eq drop_bit_eq_div [where ?'a = nat] take_bit_nat_eq_self)
  moreover have "c AND NOT (mask k) = push_bit k (drop_bit k c)"
    by (rule bit_eqI) (auto simp: bit_simps)
  ultimately show ?thesis
    using small
    by (simp add: unsigned_push_bit_eq push_bit_eq_mult [where ?'a = nat]
        take_bit_nat_eq_self)
qed

lemma byte_classes:
  "c < 0x80 \<longleftrightarrow> unat (c :: u8) < 0x80"
  "c AND 0x80 = 0 \<longleftrightarrow> unat c < 0x80"
  "c AND 0xE0 = 0xC0 \<longleftrightarrow> 0xC0 \<le> unat c \<and> unat c < 0xE0"
  "c AND 0xF0 = 0xE0 \<longleftrightarrow> 0xE0 \<le> unat c \<and> unat c < 0xF0"
  "c AND 0xF8 = 0xF0 \<longleftrightarrow> 0xF0 \<le> unat c \<and> unat c < 0xF8"
  "c AND 0xC0 = 0x80 \<longleftrightarrow> 0x80 \<le> unat c \<and> unat c < 0xC0"
proof -
  have masks: "(0x80 :: u8) = NOT (mask 7)" "(0xE0 :: u8) = NOT (mask 5)"
    "(0xF0 :: u8) = NOT (mask 4)" "(0xF8 :: u8) = NOT (mask 3)" "(0xC0 :: u8) = NOT (mask 6)"
    by (simp_all add: mask_eq_exp_minus_1)
  have fields: "unat (c AND 0x80) = unat c div 128 * 128" "unat (c AND 0xE0) = unat c div 32 * 32"
    "unat (c AND 0xF0) = unat c div 16 * 16" "unat (c AND 0xF8) = unat c div 8 * 8"
    "unat (c AND 0xC0) = unat c div 64 * 64"
    by (simp_all only: masks unat_and_not_mask) simp_all
  note bound = unat_u8_bound [of c]
  show "c < 0x80 \<longleftrightarrow> unat c < 0x80"
    by (simp add: word_less_nat_alt)
  show "c AND 0x80 = 0 \<longleftrightarrow> unat c < 0x80"
    unfolding word_unat_eq_iff fields using bound by simp arith
  show "c AND 0xE0 = 0xC0 \<longleftrightarrow> 0xC0 \<le> unat c \<and> unat c < 0xE0"
    unfolding word_unat_eq_iff fields using bound by simp arith
  show "c AND 0xF0 = 0xE0 \<longleftrightarrow> 0xE0 \<le> unat c \<and> unat c < 0xF0"
    unfolding word_unat_eq_iff fields using bound by simp arith
  show "c AND 0xF8 = 0xF0 \<longleftrightarrow> 0xF0 \<le> unat c \<and> unat c < 0xF8"
    unfolding word_unat_eq_iff fields using bound by simp arith
  show "c AND 0xC0 = 0x80 \<longleftrightarrow> 0x80 \<le> unat c \<and> unat c < 0xC0"
    unfolding word_unat_eq_iff fields using bound by simp arith
qed

lemma byte_fields:
  "unat (c AND 0x3F :: u8) = unat c mod 64"
  "unat (c AND 0x1F :: u8) = unat c mod 32"
  "unat (c AND 0x0F :: u8) = unat c mod 16"
  "unat (c AND 0x07 :: u8) = unat c mod 8"
  using unat_mask_and [of c 6] unat_mask_and [of c 5] unat_mask_and [of c 4] unat_mask_and [of c 3]
  by (simp_all add: mask_eq_exp_minus_1)

lemma unat_ucast_u8_u32 [simp]: "unat (ucast (c :: u8) :: u32) = unat c"
proof -
  have "unat c < 2 ^ 32"
    using unat_u8_bound [of c] by simp
  then show ?thesis
    by (simp add: unsigned_ucast_eq take_bit_nat_eq_self)
qed

lemma ucast_byte [simp]: "n < 256 \<Longrightarrow> (ucast (byte n) :: u32) = word_of_nat n"
  by (simp add: word_unat_eq_iff unsigned_of_nat take_bit_nat_eq_self)

text \<open>The code points that two, three and four bytes spell, as the decoders assemble them.\<close>

definition cp_of_2 :: "u8 \<Rightarrow> u8 \<Rightarrow> u32" where
  "cp_of_2 a b = push_bit 6 (ucast (a AND 0x1F)) OR ucast (b AND 0x3F)"

definition cp_of_3 :: "u8 \<Rightarrow> u8 \<Rightarrow> u8 \<Rightarrow> u32" where
  "cp_of_3 a b c =
     push_bit 12 (ucast (a AND 0x0F)) OR push_bit 6 (ucast (b AND 0x3F)) OR ucast (c AND 0x3F)"

definition cp_of_4 :: "u8 \<Rightarrow> u8 \<Rightarrow> u8 \<Rightarrow> u8 \<Rightarrow> u32" where
  "cp_of_4 a b c d =
     push_bit 18 (ucast (a AND 0x07)) OR push_bit 12 (ucast (b AND 0x3F))
     OR push_bit 6 (ucast (c AND 0x3F)) OR ucast (d AND 0x3F)"

lemma unat_cp_of_2: "unat (cp_of_2 a b) = unat a mod 32 * 64 + unat b mod 64"
  unfolding cp_of_2_def by (subst unat_push_or) (simp_all add: byte_fields)

lemma unat_cp_of_3: "unat (cp_of_3 a b c) = unat a mod 16 * 4096 + unat b mod 64 * 64 + unat c mod 64"
proof -
  have low: "unat (push_bit 6 (ucast (b AND 0x3F)) OR ucast (c AND 0x3F) :: u32)
      = unat b mod 64 * 64 + unat c mod 64"
    by (subst unat_push_or) (simp_all add: byte_fields)
  have "unat b mod 64 * 64 + unat c mod 64 < 4096"
    using mod_less_divisor [of 64 "unat b"] mod_less_divisor [of 64 "unat c"] by linarith
  then show ?thesis
    unfolding cp_of_3_def or.assoc
    by (subst unat_push_or) (simp_all add: low byte_fields)
qed

lemma unat_cp_of_4: "unat (cp_of_4 a b c d)
    = unat a mod 8 * 262144 + unat b mod 64 * 4096 + unat c mod 64 * 64 + unat d mod 64"
proof -
  have low: "unat (push_bit 6 (ucast (c AND 0x3F)) OR ucast (d AND 0x3F) :: u32)
      = unat c mod 64 * 64 + unat d mod 64"
    by (subst unat_push_or) (simp_all add: byte_fields)
  have small: "unat c mod 64 * 64 + unat d mod 64 < 4096"
    using mod_less_divisor [of 64 "unat c"] mod_less_divisor [of 64 "unat d"] by linarith
  have mid: "unat (push_bit 12 (ucast (b AND 0x3F)) OR
        (push_bit 6 (ucast (c AND 0x3F)) OR ucast (d AND 0x3F)) :: u32)
      = unat b mod 64 * 4096 + unat c mod 64 * 64 + unat d mod 64"
    using small by (subst unat_push_or) (simp_all add: low byte_fields)
  have "unat b mod 64 * 4096 + unat c mod 64 * 64 + unat d mod 64 < 262144"
    using mod_less_divisor [of 64 "unat b"] small by linarith
  then show ?thesis
    unfolding cp_of_4_def or.assoc
    by (subst unat_push_or) (simp_all add: mid byte_fields)
qed

section \<open>Sequence decoders\<close>

definition utf8_sequence_length :: "u8 \<Rightarrow> int" where
  "utf8_sequence_length first_byte =
     (if first_byte AND 0x80 = 0 then 1
      else if first_byte AND 0xE0 = 0xC0 then 2
      else if first_byte AND 0xF0 = 0xE0 then 3
      else if first_byte AND 0xF8 = 0xF0 then 4
      else - 1)"

text \<open>
  \<open>utf16_scan_decode s p e want\<close> is the decoder at position \<open>p\<close> of a scan that ends at \<open>e\<close>;
  \<open>want\<close> says whether the caller passes a place for the code point. It returns the length of
  the sequence, the number of code units and the code point (0 when none is asked for). With
  a code point the sequence has to end before \<open>e\<close>, without one only the first byte is read.
\<close>

definition utf16_scan_decode :: "bytes \<Rightarrow> nat \<Rightarrow> nat \<Rightarrow> bool \<Rightarrow> nat \<times> nat \<times> u32" where
  "utf16_scan_decode s p e want =
     (let c = s ! p;
          single = (1, 1, if want then ucast c else 0)
      in if c < 0x80 then single
         else if c AND 0xE0 = 0xC0 then
           (if want \<and> p + 1 < e then (2, 1, cp_of_2 c (s ! (p + 1)))
            else if \<not> want then (2, 1, 0) else single)
         else if c AND 0xF0 = 0xE0 then
           (if want \<and> p + 2 < e then (3, 1, cp_of_3 c (s ! (p + 1)) (s ! (p + 2)))
            else if \<not> want then (3, 1, 0) else single)
         else if c AND 0xF8 = 0xF0 then
           (if want \<and> p + 3 < e
            then (4, 2, cp_of_4 c (s ! (p + 1)) (s ! (p + 2)) (s ! (p + 3)))
            else if \<not> want then (4, 2, 0) else single)
         else single)"

text \<open>\<open>None\<close> is the result 0 of \<^verbatim>\<open>wtf8_decode_at\<close>: no complete sequence starts at \<open>i\<close>.\<close>

function wtf8_decode_loop :: "bytes \<Rightarrow> nat \<Rightarrow> nat \<Rightarrow> nat \<Rightarrow> u32 \<Rightarrow> u32 option" where
  "wtf8_decode_loop s i n k cp =
     (if k < n then
        if s ! (i + k) AND 0xC0 \<noteq> 0x80 then None
        else wtf8_decode_loop s i n (k + 1) (push_bit 6 cp OR ucast (s ! (i + k) AND 0x3F))
      else Some cp)"
  by pat_completeness auto
termination
  by (relation "measure (\<lambda>(s, i, n, k, cp). n - k)") auto

declare wtf8_decode_loop.simps [simp del]

definition wtf8_decode_at :: "bytes \<Rightarrow> nat \<Rightarrow> nat \<Rightarrow> (nat \<times> u32) option" where
  "wtf8_decode_at s byte_len i =
     (let c = s ! i
      in if c < 0x80 then Some (1, ucast c)
         else let n = (if c < 0xC0 then 0 else if c < 0xE0 then 2 else if c < 0xF0 then 3 else 4)
              in if n = 0 \<or> i + n > byte_len then None
                 else map_option (Pair n)
                   (wtf8_decode_loop s i n 1 (ucast (c AND drop_bit n 0x7F))))"

definition wtf8_is_high_surrogate :: "u32 \<Rightarrow> bool" where
  "wtf8_is_high_surrogate cp \<longleftrightarrow> cp \<ge> 0xD800 \<and> cp \<le> 0xDBFF"

definition wtf8_is_low_surrogate :: "u32 \<Rightarrow> bool" where
  "wtf8_is_low_surrogate cp \<longleftrightarrow> cp \<ge> 0xDC00 \<and> cp \<le> 0xDFFF"

lemma code_point_cases [consumes 1, case_names one two three four]:
  assumes "code_point c"
  obtains "c < 0x80" "wtf8_char c = [byte c]" "utf16_char c = [c]"
  | "0x80 \<le> c" "c < 0x800"
      "wtf8_char c = [byte (0xC0 + c div 64), byte (0x80 + c mod 64)]"
      "0xC0 + c div 64 < 0xE0" "utf16_char c = [c]"
  | "0x800 \<le> c" "c < 0x10000"
      "wtf8_char c = [byte (0xE0 + c div 4096), byte (0x80 + c div 64 mod 64),
         byte (0x80 + c mod 64)]"
      "0xE0 + c div 4096 < 0xF0" "utf16_char c = [c]"
  | "0x10000 \<le> c" "c < 0x110000"
      "wtf8_char c = [byte (0xF0 + c div 262144), byte (0x80 + c div 4096 mod 64),
         byte (0x80 + c div 64 mod 64), byte (0x80 + c mod 64)]"
      "0xF0 + c div 262144 < 0xF5"
      "utf16_char c = [0xD800 + (c - 0x10000) div 0x400, 0xDC00 + (c - 0x10000) mod 0x400]"
proof -
  consider "c < 0x80" | "0x80 \<le> c" "c < 0x800" | "0x800 \<le> c" "c < 0x10000"
    | "0x10000 \<le> c" "c < 0x110000"
    using assms unfolding code_point_def by linarith
  then show thesis
  proof cases
    case 1
    then show ?thesis by (intro that(1)) (simp_all add: wtf8_char_def utf16_char_def)
  next
    case 2
    then show ?thesis by (intro that(2)) (simp_all add: wtf8_char_def utf16_char_def)
  next
    case 3
    then show ?thesis by (intro that(3)) (simp_all add: wtf8_char_def utf16_char_def)
  next
    case 4
    then show ?thesis by (intro that(4)) (simp_all add: wtf8_char_def utf16_char_def)
  qed
qed

lemma cont_byte [simp]: "unat (byte (0x80 + n mod 64)) = 0x80 + n mod 64"
proof -
  have "n mod 64 < 64" by simp
  then have "0x80 + n mod 64 < 256" by linarith
  then show ?thesis by (rule unat_byte)
qed

lemma sextets_3: "c div 4096 * 4096 + c div 64 mod 64 * 64 + c mod 64 = (c :: nat)"
proof -
  have "c div 4096 = c div 64 div 64" by (simp add: div_mult2_eq)
  then show ?thesis
    using div_mult_mod_eq [of c 64] div_mult_mod_eq [of "c div 64" 64] by linarith
qed

lemma sextets_4:
  "c div 262144 * 262144 + c div 4096 mod 64 * 4096 + c div 64 mod 64 * 64 + c mod 64 = (c :: nat)"
proof -
  have "c div 262144 = c div 4096 div 64" by (simp add: div_mult2_eq)
  then show ?thesis
    using sextets_3 [of c] div_mult_mod_eq [of "c div 4096" 64] by linarith
qed

lemma sextets_3_fields:
  assumes "y < 64" and "z < 64"
  shows "(x * 4096 + y * 64 + z) div 4096 = (x :: nat)" "(x * 4096 + y * 64 + z) div 64 mod 64 = y"
    "(x * 4096 + y * 64 + z) mod 64 = z"
proof -
  have eq: "x * 4096 + y * 64 + z = (x * 64 + y) * 64 + z" by simp
  have "((x * 64 + y) * 64 + z) div 64 = x * 64 + y" using assms(2) by simp
  then have q: "(x * 4096 + y * 64 + z) div 64 = x * 64 + y" by (simp only: eq)
  show "(x * 4096 + y * 64 + z) div 64 mod 64 = y" unfolding q using assms(1) by simp
  have "(x * 4096 + y * 64 + z) div 4096 = (x * 4096 + y * 64 + z) div 64 div 64"
    by (simp add: div_mult2_eq)
  then show "(x * 4096 + y * 64 + z) div 4096 = x" unfolding q using assms(1) by simp
  show "(x * 4096 + y * 64 + z) mod 64 = z" unfolding eq mod_mult_self3 using assms(2) by simp
qed

lemma sextets_4_fields:
  fixes x y z w :: nat
  assumes "y < 64" and "z < 64" and "w < 64"
  defines "c \<equiv> x * 262144 + y * 4096 + z * 64 + w"
  shows "c div 262144 = x" "c div 4096 mod 64 = y" "c div 64 mod 64 = z" "c mod 64 = w"
proof -
  have c: "c = (x * 64 + y) * 4096 + z * 64 + w" by (simp add: c_def)
  note low = sextets_3_fields [OF assms(2,3), of "x * 64 + y", folded c]
  show "c div 64 mod 64 = z" "c mod 64 = w" by (fact low(2), fact low(3))
  show "c div 4096 mod 64 = y" unfolding low(1) using assms(1) by simp
  have "c div 262144 = c div 4096 div 64" by (simp add: div_mult2_eq)
  then show "c div 262144 = x" unfolding low(1) using assms(1) by simp
qed

lemma cp_of_wtf8_char:
  "0x80 \<le> c \<Longrightarrow> c < 0x800 \<Longrightarrow>
    cp_of_2 (byte (0xC0 + c div 64)) (byte (0x80 + c mod 64)) = word_of_nat c"
  "c < 0x10000 \<Longrightarrow>
    cp_of_3 (byte (0xE0 + c div 4096)) (byte (0x80 + c div 64 mod 64))
      (byte (0x80 + c mod 64)) = word_of_nat c"
  "c < 0x110000 \<Longrightarrow>
    cp_of_4 (byte (0xF0 + c div 262144)) (byte (0x80 + c div 4096 mod 64))
      (byte (0x80 + c div 64 mod 64)) (byte (0x80 + c mod 64)) = word_of_nat c"
proof -
  have cp: "unat (word_of_nat c :: u32) = c" if "c < 0x110000"
    using that by (simp add: unsigned_of_nat take_bit_nat_eq_self)
  have unat_lead: "unat (byte n) = n" if "n < 256" for n
    using that by simp
  have low: "(0x80 + n mod 64) mod 64 = n mod 64" for n :: nat
    by (simp flip: mod_add_left_eq)
  show "cp_of_2 (byte (0xC0 + c div 64)) (byte (0x80 + c mod 64)) = word_of_nat c"
    if "0x80 \<le> c" "c < 0x800"
  proof (rule unsigned_word_eqI)
    have "c div 64 < 32" using that by simp
    then have lead: "(0xC0 + c div 64) mod 32 = c div 64" "0xC0 + c div 64 < 256"
      by (simp_all flip: mod_add_left_eq)
    show "unat (cp_of_2 (byte (0xC0 + c div 64)) (byte (0x80 + c mod 64)))
        = unat (word_of_nat c :: u32)"
      unfolding unat_cp_of_2 cont_byte low unat_lead [OF lead(2)] lead(1)
      using that by (simp add: cp)
  qed
  show "cp_of_3 (byte (0xE0 + c div 4096)) (byte (0x80 + c div 64 mod 64))
      (byte (0x80 + c mod 64)) = word_of_nat c" if "c < 0x10000"
  proof (rule unsigned_word_eqI)
    have "c div 4096 < 16" using that by simp
    then have lead: "(0xE0 + c div 4096) mod 16 = c div 4096" "0xE0 + c div 4096 < 256"
      by (simp_all flip: mod_add_left_eq)
    show "unat (cp_of_3 (byte (0xE0 + c div 4096)) (byte (0x80 + c div 64 mod 64))
        (byte (0x80 + c mod 64))) = unat (word_of_nat c :: u32)"
      unfolding unat_cp_of_3 cont_byte low unat_lead [OF lead(2)] lead(1) sextets_3
      using that by (simp add: cp)
  qed
  show "cp_of_4 (byte (0xF0 + c div 262144)) (byte (0x80 + c div 4096 mod 64))
      (byte (0x80 + c div 64 mod 64)) (byte (0x80 + c mod 64)) = word_of_nat c"
    if "c < 0x110000"
  proof (rule unsigned_word_eqI)
    have "c div 262144 < 8" using that by simp
    then have lead: "(0xF0 + c div 262144) mod 8 = c div 262144" "0xF0 + c div 262144 < 256"
      by (simp_all flip: mod_add_left_eq)
    show "unat (cp_of_4 (byte (0xF0 + c div 262144)) (byte (0x80 + c div 4096 mod 64))
        (byte (0x80 + c div 64 mod 64)) (byte (0x80 + c mod 64)))
      = unat (word_of_nat c :: u32)"
      unfolding unat_cp_of_4 cont_byte low unat_lead [OF lead(2)] lead(1) sextets_4
      using that by (simp add: cp)
  qed
qed

lemma utf16_scan_decode_char:
  assumes "code_point c" and "length xs + length (wtf8_char c) \<le> e"
  shows "utf16_scan_decode (xs @ wtf8_char c @ ys) (length xs) e want =
    (length (wtf8_char c), length (utf16_char c), if want then word_of_nat c else 0)"
  using assms(1)
proof (cases rule: code_point_cases)
  case one
  then show ?thesis
    by (simp add: utf16_scan_decode_def Let_def byte_classes nth_append ucast_byte)
next
  case two
  then show ?thesis
    using assms(2) cp_of_wtf8_char(1) [of c]
    by (simp add: utf16_scan_decode_def Let_def byte_classes nth_append)
next
  case three
  then show ?thesis
    using assms(2) cp_of_wtf8_char(2) [of c]
    by (simp add: utf16_scan_decode_def Let_def byte_classes nth_append)
next
  case four
  then show ?thesis
    using assms(2) cp_of_wtf8_char(3) [of c]
    by (simp add: utf16_scan_decode_def Let_def byte_classes nth_append)
qed

lemma wtf8_decode_loop_end [simp]: "n \<le> k \<Longrightarrow> wtf8_decode_loop s i n k cp = Some cp"
  by (simp add: wtf8_decode_loop.simps)

lemma wtf8_decode_loop_step:
  "k < n \<Longrightarrow> s ! (i + k) AND 0xC0 = 0x80 \<Longrightarrow>
    wtf8_decode_loop s i n k cp
      = wtf8_decode_loop s i n (k + 1) (push_bit 6 cp OR ucast (s ! (i + k) AND 0x3F))"
  by (simp add: wtf8_decode_loop.simps)

lemma wtf8_decode_at_char:
  assumes "code_point c" and "length xs + length (wtf8_char c) \<le> byte_len"
  shows "wtf8_decode_at (xs @ wtf8_char c @ ys) byte_len (length xs)
    = Some (length (wtf8_char c), word_of_nat c)"
proof -
  have leads: "drop_bit 2 (0x7F :: u8) = 0x1F" "drop_bit 3 (0x7F :: u8) = 0x0F"
    "drop_bit 4 (0x7F :: u8) = 0x07"
    by simp_all
  show ?thesis
    using assms(1)
  proof (cases rule: code_point_cases)
    case one
    then show ?thesis
      by (simp add: wtf8_decode_at_def byte_classes)
  next
    case two
    then show ?thesis
      using assms(2) cp_of_wtf8_char(1) [of c]
      by (simp add: wtf8_decode_at_def byte_classes word_less_nat_alt nth_append leads
          wtf8_decode_loop_step cp_of_2_def)
  next
    case three
    then show ?thesis
      using assms(2) cp_of_wtf8_char(2) [of c]
      by (simp add: wtf8_decode_at_def byte_classes word_less_nat_alt nth_append leads
          wtf8_decode_loop_step cp_of_3_def push_bit_or or.assoc)
  next
    case four
    then show ?thesis
      using assms(2) cp_of_wtf8_char(3) [of c]
      by (simp add: wtf8_decode_at_def byte_classes word_less_nat_alt nth_append leads
          wtf8_decode_loop_step cp_of_4_def push_bit_or or.assoc)
  qed
qed

lemma wtf8_char_inj:
  assumes "code_point c" and "code_point d" and "wtf8_char c = wtf8_char d"
  shows "c = d"
proof -
  have "(word_of_nat c :: u32) = word_of_nat d"
    using wtf8_decode_at_char [OF assms(1), of "[]" "length (wtf8_char c)" "[]"]
      wtf8_decode_at_char [OF assms(2), of "[]" "length (wtf8_char d)" "[]"] assms(3) by simp
  then have "unat (word_of_nat c :: u32) = unat (word_of_nat d :: u32)" by simp
  then show ?thesis
    using assms(1,2) by (simp add: code_point_def unsigned_of_nat take_bit_nat_eq_self)
qed

lemma utf8_sequence_length_char:
  assumes "code_point c"
  shows "utf8_sequence_length (hd (wtf8_char c)) = int (length (wtf8_char c))"
  using assms by (cases rule: code_point_cases) (simp_all add: utf8_sequence_length_def byte_classes)

section \<open>Validation\<close>

text \<open>
  The class of a lead byte above 0x7F: the number of continuation bytes and the range of the
  first one.
\<close>

definition utf8_lead :: "u8 \<Rightarrow> (nat \<times> u8 \<times> u8) option" where
  "utf8_lead c =
     (if c \<ge> 0xc2 \<and> c \<le> 0xdf then Some (1, 0x80, 0xbf)
      else if c = 0xe0 then Some (2, 0xa0, 0xbf)
      else if c \<ge> 0xe1 \<and> c \<le> 0xec then Some (2, 0x80, 0xbf)
      else if c = 0xed then Some (2, 0x80, 0x9f)
      else if c = 0xee \<or> c = 0xef then Some (2, 0x80, 0xbf)
      else if c = 0xf0 then Some (3, 0x90, 0xbf)
      else if c \<ge> 0xf1 \<and> c \<le> 0xf3 then Some (3, 0x80, 0xbf)
      else if c = 0xf4 then Some (3, 0x80, 0x8f)
      else None)"

function utf8_validate_from :: "bytes \<Rightarrow> nat \<Rightarrow> nat \<Rightarrow> bool" where
  "utf8_validate_from s e p =
     (if p < e then
        if s ! p < 0x80 then utf8_validate_from s e (p + 1)
        else case utf8_lead (s ! p) of
            None \<Rightarrow> False
          | Some (cont, lo, hi) \<Rightarrow>
              if e - p \<le> cont then False
              else if s ! (p + 1) < lo \<or> s ! (p + 1) > hi then False
              else if \<exists>i \<in> set [2..<cont + 1]. s ! (p + i) < 0x80 \<or> s ! (p + i) > 0xbf then False
              else utf8_validate_from s e (p + cont + 1)
      else True)"
  by pat_completeness auto
termination
  by (relation "measure (\<lambda>(s, e, p). e - p)") auto

declare utf8_validate_from.simps [simp del]

definition utf8_validate_bytes :: "bytes \<Rightarrow> nat \<Rightarrow> bool" where
  "utf8_validate_bytes str len = utf8_validate_from str len 0"

lemma utf8_lead_nat:
  "utf8_lead c =
     (let n = unat c
      in if 0xc2 \<le> n \<and> n \<le> 0xdf then Some (1, 0x80, 0xbf)
         else if n = 0xe0 then Some (2, 0xa0, 0xbf)
         else if n = 0xed then Some (2, 0x80, 0x9f)
         else if 0xe1 \<le> n \<and> n \<le> 0xef then Some (2, 0x80, 0xbf)
         else if n = 0xf0 then Some (3, 0x90, 0xbf)
         else if 0xf1 \<le> n \<and> n \<le> 0xf3 then Some (3, 0x80, 0xbf)
         else if n = 0xf4 then Some (3, 0x80, 0x8f)
         else None)"
  by (auto simp: utf8_lead_def word_le_nat_alt word_unat_eq_iff Let_def)

lemma byte_unat [simp]: "byte (unat c) = c"
  by (simp add: byte_def)

text \<open>What the validator accepts as the first two bytes of a sequence, in numbers.\<close>

lemma utf8_lead_pair:
  "(\<exists>lo hi. utf8_lead a = Some (k, lo, hi) \<and> lo \<le> b \<and> b \<le> hi) \<longleftrightarrow>
    (k = 1 \<and> 0xc2 \<le> unat a \<and> unat a \<le> 0xdf \<and> 0x80 \<le> unat b \<and> unat b \<le> 0xbf) \<or>
    (k = 2 \<and> 0xe0 \<le> unat a \<and> unat a \<le> 0xef
       \<and> (if unat a = 0xe0 then 0xa0 else 0x80) \<le> unat b \<and> unat b \<le> (if unat a = 0xed then 0x9f else 0xbf)) \<or>
    (k = 3 \<and> 0xf0 \<le> unat a \<and> unat a \<le> 0xf4
       \<and> (if unat a = 0xf0 then 0x90 else 0x80) \<le> unat b \<and> unat b \<le> (if unat a = 0xf4 then 0x8f else 0xbf))"
  by (simp add: utf8_lead_nat Let_def word_le_nat_alt) arith

lemma utf8_two_bytes:
  assumes "0xc2 \<le> unat a" "unat a \<le> 0xdf" "0x80 \<le> unat b" "unat b \<le> 0xbf"
  obtains c where "scalar_value c" "wtf8_char c = [a, b]"
proof -
  define x y where "x = unat a - 0xC0" and "y = unat b - 0x80"
  then have xy: "unat a = 0xC0 + x" "unat b = 0x80 + y" and "y < 64" "x < 32" "2 \<le> x"
    using assms by simp_all
  then have "scalar_value (x * 64 + y)" "0x80 \<le> x * 64 + y" "x * 64 + y < 0x800"
    "(x * 64 + y) div 64 = x" "(x * 64 + y) mod 64 = y"
    by (auto simp: scalar_value_def code_point_def surrogate_def)
  then show thesis
    by (intro that [of "x * 64 + y"]) (simp_all add: wtf8_char_def flip: xy)
qed

lemma utf8_three_bytes:
  assumes "0xe0 \<le> unat a" "unat a \<le> 0xef" "(if unat a = 0xe0 then 0xa0 else 0x80) \<le> unat b"
    "unat b \<le> (if unat a = 0xed then 0x9f else 0xbf)" "0x80 \<le> unat d" "unat d \<le> 0xbf"
  obtains c where "scalar_value c" "wtf8_char c = [a, b, d]"
proof -
  define x y z where "x = unat a - 0xE0" and "y = unat b - 0x80" and "z = unat d - 0x80"
  then have xyz: "unat a = 0xE0 + x" "unat b = 0x80 + y" "unat d = 0x80 + z"
    and small: "x < 16" "y < 64" "z < 64"
    and first: "x = 0 \<Longrightarrow> 0x20 \<le> y" and surr: "x = 13 \<Longrightarrow> y < 0x20"
    using assms by (simp_all split: if_splits)
  define c where "c = x * 4096 + y * 64 + z"
  have "c < 0x10000" using small unfolding c_def by simp
  moreover have "0x800 \<le> c"
    using first unfolding c_def by (cases "x = 0") simp_all
  moreover have "\<not> surrogate c"
  proof -
    consider "x \<le> 12" | "x = 13" | "14 \<le> x" by linarith
    then show ?thesis
      using surr small unfolding c_def surrogate_def by cases simp_all
  qed
  ultimately show thesis
    using sextets_3_fields [of y z x, folded c_def] small
    by (intro that [of c])
      (simp_all add: wtf8_char_def scalar_value_def code_point_def flip: xyz)
qed

lemma utf8_four_bytes:
  assumes "0xf0 \<le> unat a" "unat a \<le> 0xf4" "(if unat a = 0xf0 then 0x90 else 0x80) \<le> unat b"
    "unat b \<le> (if unat a = 0xf4 then 0x8f else 0xbf)" "0x80 \<le> unat d" "unat d \<le> 0xbf"
    "0x80 \<le> unat f" "unat f \<le> 0xbf"
  obtains c where "scalar_value c" "wtf8_char c = [a, b, d, f]"
proof -
  define x y z w where "x = unat a - 0xF0" and "y = unat b - 0x80" and "z = unat d - 0x80"
    and "w = unat f - 0x80"
  then have xyz: "unat a = 0xF0 + x" "unat b = 0x80 + y" "unat d = 0x80 + z" "unat f = 0x80 + w"
    and small: "x \<le> 4" "y < 64" "z < 64" "w < 64"
    and first: "x = 0 \<Longrightarrow> 0x10 \<le> y" and last: "x = 4 \<Longrightarrow> y < 0x10"
    using assms by (simp_all split: if_splits)
  define c where "c = x * 262144 + y * 4096 + z * 64 + w"
  have "0x10000 \<le> c"
    using first unfolding c_def by (cases "x = 0") simp_all
  moreover have "c < 0x110000"
    using last small unfolding c_def by (cases "x = 4") simp_all
  ultimately show thesis
    using sextets_4_fields [of y z w x, folded c_def] small
    by (intro that [of c])
      (simp_all add: wtf8_char_def scalar_value_def code_point_def surrogate_def flip: xyz)
qed

text \<open>Conversely, every scalar value above 0x7F is spelled by bytes of those ranges.\<close>

lemma utf8_lead_char:
  assumes "scalar_value c" and "0x80 \<le> c"
  obtains a b r lo hi where "wtf8_char c = a # b # r" "\<not> a < 0x80"
    "utf8_lead a = Some (length r + 1, lo, hi)" "lo \<le> b" "b \<le> hi"
    "\<forall>x \<in> set r. 0x80 \<le> x \<and> x \<le> 0xbf"
proof -
  from assms(1) have "code_point c" and surr: "\<not> surrogate c"
    by (simp_all add: scalar_value_def)
  have bounds: "n mod 64 \<le> 63" for n :: nat
    using mod_less_divisor [of 64 n] by linarith
  have "\<exists>a b r. wtf8_char c = a # b # r \<and> \<not> a < 0x80 \<and>
    (\<exists>lo hi. utf8_lead a = Some (length r + 1, lo, hi) \<and> lo \<le> b \<and> b \<le> hi) \<and>
    (\<forall>x \<in> set r. 0x80 \<le> x \<and> x \<le> 0xbf)"
    using \<open>code_point c\<close>
  proof (cases rule: code_point_cases)
    case one
    with assms(2) show ?thesis by simp
  next
    case two
    then have "2 \<le> c div 64" by (simp add: less_eq_div_iff_mult_less_eq)
    with two show ?thesis
      by (simp add: byte_classes utf8_lead_pair bounds)
  next
    case three
    have "32 \<le> c div 64 mod 64" if "c div 4096 = 0"
      using that three(1) sextets_3 [of c] bounds [of "c div 64"] bounds [of c] by linarith
    moreover have "c div 64 mod 64 < 32" if "c div 4096 = 13"
      using that surr sextets_3 [of c] bounds [of "c div 64"] bounds [of c] unfolding surrogate_def by linarith
    ultimately have "\<exists>lo hi. utf8_lead (byte (0xE0 + c div 4096)) = Some (2, lo, hi)
        \<and> lo \<le> byte (0x80 + c div 64 mod 64) \<and> byte (0x80 + c div 64 mod 64) \<le> hi"
      unfolding utf8_lead_pair using three bounds [of "c div 64"] by auto
    then show ?thesis
      using three by (simp add: byte_classes numeral_2_eq_2) (simp add: word_le_nat_alt bounds)
  next
    case four
    have "16 \<le> c div 4096 mod 64" if "c div 262144 = 0"
      using that four(1) sextets_4 [of c] bounds [of "c div 4096"] bounds [of "c div 64"] bounds [of c] by linarith
    moreover have "c div 4096 mod 64 < 16" if "c div 262144 = 4"
      using that four(2) sextets_4 [of c] bounds [of "c div 4096"] bounds [of "c div 64"] bounds [of c] by linarith
    ultimately have "\<exists>lo hi. utf8_lead (byte (0xF0 + c div 262144)) = Some (3, lo, hi)
        \<and> lo \<le> byte (0x80 + c div 4096 mod 64) \<and> byte (0x80 + c div 4096 mod 64) \<le> hi"
      unfolding utf8_lead_pair using four bounds [of "c div 4096"] by auto
    then show ?thesis
      using four by (simp add: byte_classes numeral_3_eq_3) (simp add: word_le_nat_alt bounds)
  qed
  then show thesis using that by blast
qed

lemma utf8_validate_step_ascii:
  "p < e \<Longrightarrow> s ! p < 0x80 \<Longrightarrow> utf8_validate_from s e p = utf8_validate_from s e (p + 1)"
  by (simp add: utf8_validate_from.simps)

lemma utf8_validate_from_complete:
  assumes "\<forall>c \<in> set cs. scalar_value c"
  shows "utf8_validate_from (xs @ wtf8 cs) (length xs + length (wtf8 cs)) (length xs)"
  using assms
proof (induction cs arbitrary: xs)
  case Nil
  then show ?case by (simp add: utf8_validate_from.simps)
next
  case (Cons c cs)
  have rest: "utf8_validate_from ((xs @ wtf8_char c) @ wtf8 cs)
      (length (xs @ wtf8_char c) + length (wtf8 cs)) (length (xs @ wtf8_char c))"
    using Cons.prems by (intro Cons.IH) simp
  show ?case
  proof (cases "c < 0x80")
    case True
    then show ?thesis
      using rest by (simp add: utf8_validate_step_ascii wtf8_char_def byte_classes)
  next
    case False
    then obtain a b r lo hi where ch: "wtf8_char c = a # b # r" "\<not> a < 0x80"
      "utf8_lead a = Some (length r + 1, lo, hi)" "lo \<le> b" "b \<le> hi"
      "\<forall>x \<in> set r. 0x80 \<le> x \<and> x \<le> 0xbf"
      using Cons.prems by (auto elim: utf8_lead_char [of c])
    let ?s = "xs @ a # b # r @ wtf8 cs"
    have "\<not> (\<exists>i \<in> set [2..<length r + 1 + 1]. ?s ! (length xs + i) < 0x80 \<or> ?s ! (length xs + i) > 0xbf)"
    proof (intro notI, elim bexE)
      fix i assume "i \<in> set [2..<length r + 1 + 1]"
      then have "i = (i - 2) + 2" "i - 2 < length r" by auto
      then obtain j where "i = j + 2" "j < length r" by blast
      moreover assume "?s ! (length xs + i) < 0x80 \<or> ?s ! (length xs + i) > 0xbf"
      ultimately show False
        using ch(6) by (simp add: nth_append) (meson leD nth_mem)
    qed
    then show ?thesis
      using rest ch(2-5)
      by (subst utf8_validate_from.simps) (auto simp: ch(1) nth_append not_less add.assoc)
  qed
qed

lemma utf8_validate_from_lead:
  assumes "utf8_validate_from s e p" and "p < e" and "\<not> s ! p < 0x80"
  shows "\<exists>cont lo hi. utf8_lead (s ! p) = Some (cont, lo, hi) \<and> cont < e - p \<and>
    lo \<le> s ! (p + 1) \<and> s ! (p + 1) \<le> hi \<and>
    (\<forall>i \<in> set [2..<cont + 1]. 0x80 \<le> s ! (p + i) \<and> s ! (p + i) \<le> 0xbf) \<and>
    utf8_validate_from s e (p + cont + 1)"
proof (cases "utf8_lead (s ! p)")
  case None
  then show ?thesis
    using assms by (simp add: utf8_validate_from.simps [of s e p])
next
  case (Some t)
  obtain cont lo hi where "t = (cont, lo, hi)" by (cases t)
  with Some show ?thesis
    using assms by (auto simp: utf8_validate_from.simps [of s e p] not_less not_le
        simp del: set_upt upt_Suc split: if_splits)
qed

lemma utf8_validate_from_sound:
  assumes "utf8_validate_from s e p" and "p \<le> e" and "e \<le> length s"
  shows "\<exists>cs. (\<forall>c \<in> set cs. scalar_value c) \<and> take (e - p) (drop p s) = wtf8 cs"
  using assms
proof (induction "e - p" arbitrary: p rule: less_induct)
  case less
  show ?case
  proof (cases "p < e")
    case False
    then show ?thesis using less.prems by (auto intro: exI [of _ "[]"])
  next
    case True
    have cons: "\<exists>cs. (\<forall>c \<in> set cs. scalar_value c) \<and> take (e - p) (drop p s) = wtf8 cs"
      if "scalar_value c" "take (length (wtf8_char c)) (drop p s) = wtf8_char c"
        "p + length (wtf8_char c) \<le> e"
        "\<exists>cs. (\<forall>c \<in> set cs. scalar_value c) \<and> take (e - (p + length (wtf8_char c)))
          (drop (p + length (wtf8_char c)) s) = wtf8 cs" for c
    proof -
      from that(4) obtain cs where "\<forall>c \<in> set cs. scalar_value c"
        "take (e - (p + length (wtf8_char c))) (drop (p + length (wtf8_char c)) s) = wtf8 cs" by blast
      moreover have "take (e - p) (drop p s) = take (length (wtf8_char c)) (drop p s)
          @ take (e - (p + length (wtf8_char c))) (drop (p + length (wtf8_char c)) s)"
        using that(3) take_add [of "length (wtf8_char c)" "e - (p + length (wtf8_char c))" "drop p s"]
        by (simp add: add.commute)
      ultimately have "(\<forall>x \<in> set (c # cs). scalar_value x) \<and> take (e - p) (drop p s) = wtf8 (c # cs)"
        using that(1,2) by simp
      then show ?thesis by blast
    qed
    show ?thesis
    proof (cases "s ! p < 0x80")
      case True
      let ?c = "unat (s ! p)"
      have "scalar_value ?c" "wtf8_char ?c = [s ! p]"
        using True by (simp_all add: byte_classes scalar_value_def code_point_def surrogate_def wtf8_char_def)
      moreover have "utf8_validate_from s e (p + 1)"
        using less.prems(1) True \<open>p < e\<close> by (simp add: utf8_validate_step_ascii)
      moreover have "take 1 (drop p s) = [s ! p]"
        using \<open>p < e\<close> less.prems by (simp add: take_Suc_conv_app_nth)
      ultimately show ?thesis
        using less.hyps [of "p + 1"] \<open>p < e\<close> less.prems(3) by (intro cons [of ?c]) simp_all
    next
      case False
      from utf8_validate_from_lead [OF less.prems(1) \<open>p < e\<close> False]
      obtain cont lo hi where lead: "utf8_lead (s ! p) = Some (cont, lo, hi)"
        and len: "cont < e - p" and b: "lo \<le> s ! (p + 1)" "s ! (p + 1) \<le> hi"
        and conts: "\<forall>i \<in> set [2..<cont + 1]. 0x80 \<le> s ! (p + i) \<and> s ! (p + i) \<le> 0xbf"
        and rec: "utf8_validate_from s e (p + cont + 1)"
        by blast
      let ?b = "s ! (p + 1)"
      have "\<exists>lo hi. utf8_lead (s ! p) = Some (cont, lo, hi) \<and> lo \<le> ?b \<and> ?b \<le> hi"
        using lead b by blast
      then obtain c where c: "scalar_value c" "wtf8_char c = map (\<lambda>i. s ! (p + i)) [0..<cont + 1]"
        unfolding utf8_lead_pair
      proof (elim disjE conjE)
        assume "cont = 1" "0xc2 \<le> unat (s ! p)" "unat (s ! p) \<le> 0xdf" "0x80 \<le> unat ?b" "unat ?b \<le> 0xbf"
        then show thesis
          using utf8_two_bytes [of "s ! p" ?b] that by auto
      next
        assume "cont = 2" and range: "0xe0 \<le> unat (s ! p)" "unat (s ! p) \<le> 0xef"
          "(if unat (s ! p) = 0xe0 then 0xa0 else 0x80) \<le> unat ?b"
          "unat ?b \<le> (if unat (s ! p) = 0xed then 0x9f else 0xbf)"
        then have "0x80 \<le> unat (s ! (p + 2))" "unat (s ! (p + 2)) \<le> 0xbf"
          using conts by (simp_all add: word_le_nat_alt)
        with range \<open>cont = 2\<close> show thesis
          using utf8_three_bytes [of "s ! p" ?b "s ! (p + 2)"] that by (auto simp: numeral_2_eq_2)
      next
        assume "cont = 3" and range: "0xf0 \<le> unat (s ! p)" "unat (s ! p) \<le> 0xf4"
          "(if unat (s ! p) = 0xf0 then 0x90 else 0x80) \<le> unat ?b"
          "unat ?b \<le> (if unat (s ! p) = 0xf4 then 0x8f else 0xbf)"
        then have "0x80 \<le> unat (s ! (p + 2))" "unat (s ! (p + 2)) \<le> 0xbf"
          "0x80 \<le> unat (s ! (p + 3))" "unat (s ! (p + 3)) \<le> 0xbf"
          using conts by (simp_all add: word_le_nat_alt)
        with range \<open>cont = 3\<close> show thesis
          using utf8_four_bytes [of "s ! p" ?b "s ! (p + 2)" "s ! (p + 3)"] that
          by (auto simp: numeral_3_eq_3 numeral_2_eq_2)
      qed
      then have n: "length (wtf8_char c) = cont + 1" by simp
      have "take (cont + 1) (drop p s) = wtf8_char c"
        unfolding c(2) using len less.prems(3) by (intro nth_equalityI) (auto simp del: upt_Suc)
      with c(1) n len show ?thesis
        using less.hyps [of "p + cont + 1"] rec less.prems(3) by (intro cons [of c]) simp_all
    qed
  qed
qed

lemma utf8_validate_bytes_iff:
  "utf8_validate_bytes s (length s) \<longleftrightarrow> (\<exists>cs. (\<forall>c \<in> set cs. scalar_value c) \<and> s = wtf8 cs)"
proof
  assume "utf8_validate_bytes s (length s)"
  then show "\<exists>cs. (\<forall>c \<in> set cs. scalar_value c) \<and> s = wtf8 cs"
    using utf8_validate_from_sound [of s "length s" 0] by (simp add: utf8_validate_bytes_def)
next
  assume "\<exists>cs. (\<forall>c \<in> set cs. scalar_value c) \<and> s = wtf8 cs"
  then obtain cs where "\<forall>c \<in> set cs. scalar_value c" "s = wtf8 cs" by blast
  then show "utf8_validate_bytes s (length s)"
    using utf8_validate_from_complete [of cs "[]"] by (simp add: utf8_validate_bytes_def)
qed

section \<open>Character counts\<close>

definition utf8_char_len_at :: "bytes \<Rightarrow> nat \<Rightarrow> nat \<Rightarrow> nat" where
  "utf8_char_len_at str byte_len pos =
     (if pos \<ge> byte_len then 1
      else let sl = utf8_sequence_length (str ! pos)
           in if sl \<le> 0 then 1
              else if pos + nat sl > byte_len then byte_len - pos
              else nat sl)"

function utf8_strlen_from :: "bytes \<Rightarrow> nat \<Rightarrow> nat \<Rightarrow> nat \<Rightarrow> nat" where
  "utf8_strlen_from str e p count =
     (if p < e then
        let seq_len = utf8_sequence_length (str ! p)
        in if seq_len \<le> 0 \<or> nat seq_len > e - p then utf8_strlen_from str e (p + 1) (count + 1)
           else utf8_strlen_from str e (p + nat seq_len) (count + 1)
      else count)"
  by pat_completeness auto
termination
  by (relation "measure (\<lambda>(str, e, p, count). e - p)") auto

declare utf8_strlen_from.simps [simp del]

definition utf8_strlen :: "bytes \<Rightarrow> nat \<Rightarrow> nat" where
  "utf8_strlen str byte_len = utf8_strlen_from str byte_len 0 0"

lemma nth_prefix_char [simp]: "(xs @ wtf8_char c @ ys) ! length xs = hd (wtf8_char c)"
  using wtf8_char_nonempty(1) [of c] by (cases "wtf8_char c") (auto simp: nth_append)

lemma utf8_strlen_from_wtf8:
  "\<forall>c \<in> set cs. code_point c \<Longrightarrow>
    utf8_strlen_from (xs @ wtf8 cs) (length xs + length (wtf8 cs)) (length xs) n = n + length cs"
proof (induction cs arbitrary: xs n)
  case Nil
  then show ?case by (simp add: utf8_strlen_from.simps)
next
  case (Cons c cs)
  have "utf8_sequence_length ((xs @ wtf8_char c @ wtf8 cs) ! length xs) = int (length (wtf8_char c))"
    using Cons.prems by (simp add: utf8_sequence_length_char)
  then show ?case
    using Cons.IH [of "xs @ wtf8_char c" "Suc n"] Cons.prems
    by (subst utf8_strlen_from.simps) (simp add: Let_def add.assoc)
qed

lemma utf8_strlen_wtf8:
  "\<forall>c \<in> set cs. code_point c \<Longrightarrow> utf8_strlen (wtf8 cs) (length (wtf8 cs)) = length cs"
  using utf8_strlen_from_wtf8 [of cs "[]" 0] by (simp add: utf8_strlen_def)

lemma utf8_char_len_at_wtf8:
  "code_point c \<Longrightarrow>
    utf8_char_len_at (xs @ wtf8_char c @ ys) (length (xs @ wtf8_char c @ ys)) (length xs)
      = length (wtf8_char c)"
  by (simp add: utf8_char_len_at_def utf8_sequence_length_char Let_def)

section \<open>Latin-1\<close>

text \<open>The output buffer after \<open>n\<close> bytes of the source.\<close>

primrec latin1_to_utf8_loop :: "bytes \<Rightarrow> nat \<Rightarrow> bytes" where
  "latin1_to_utf8_loop src 0 = []"
| "latin1_to_utf8_loop src (Suc i) =
     latin1_to_utf8_loop src i @
     (let b = src ! i
      in if b < 0x80 then [b] else [0xc0 OR drop_bit 6 b, 0x80 OR (b AND 0x3f)])"

definition latin1_to_utf8 :: "mem_env \<Rightarrow> bytes \<Rightarrow> nat \<Rightarrow> bytes option" where
  "latin1_to_utf8 m src len =
     (if len > size_max div 2 then None
      else if \<not> alloc_ok m (if len = 0 then 1 else len * 2) then None
      else Some (latin1_to_utf8_loop src len))"

text \<open>
  The result of \<^verbatim>\<open>utf8_to_latin1\<close> with the flag it sets: no memory (\<open>None\<close>, flag true), not
  Latin-1 (\<open>None\<close>, flag false), or the bytes.
\<close>

function utf8_to_latin1_from :: "bytes \<Rightarrow> nat \<Rightarrow> nat \<Rightarrow> bytes \<Rightarrow> bytes option \<times> bool" where
  "utf8_to_latin1_from src len i out =
     (if i < len then
        let first = src ! i
        in if first < 0x80 then utf8_to_latin1_from src len (i + 1) (out @ [first])
           else if (first = 0xc2 \<or> first = 0xc3) \<and> i + 1 < len \<and> src ! (i + 1) AND 0xc0 = 0x80
           then utf8_to_latin1_from src len (i + 2)
                  (out @ [push_bit 6 (first AND 0x1f) OR (src ! (i + 1) AND 0x3f)])
           else (None, False)
      else (Some out, True))"
  by pat_completeness auto
termination
  by (relation "measure (\<lambda>(src, len, i, out). len - i)") auto

declare utf8_to_latin1_from.simps [simp del]

definition utf8_to_latin1 :: "mem_env \<Rightarrow> bytes \<Rightarrow> nat \<Rightarrow> bytes option \<times> bool" where
  "utf8_to_latin1 m src len =
     (if \<not> alloc_ok m (if len = 0 then 1 else len) then (None, True)
      else utf8_to_latin1_from src len 0 [])"

lemma latin1_char:
  "wtf8_char (unat (b :: u8)) = (if b < 0x80 then [b] else [0xc0 OR drop_bit 6 b, 0x80 OR (b AND 0x3f)])"
proof (cases "b < 0x80")
  case True
  then show ?thesis by (simp add: byte_classes wtf8_char_def)
next
  case False
  have six: "unat (drop_bit 6 b) = unat b div 64"
    using unat_u8_bound [of b]
    by (simp add: unsigned_drop_bit_eq drop_bit_eq_div [where ?'a = nat] take_bit_nat_eq_self)
  have "unat b div 64 < 4" using unat_u8_bound [of b] by simp
  then have lead: "unat (0xc0 OR drop_bit 6 b) = 0xC0 + unat b div 64"
    using unat_push_or [of "3 :: u8" 6 "drop_bit 6 b"] six by simp
  have "unat b mod 64 < 64" by simp
  then have cont: "unat (0x80 OR (b AND 0x3f)) = 0x80 + unat b mod 64"
    using unat_push_or [of "1 :: u8" 7 "b AND 0x3f"] byte_fields(1) [of b] by simp
  show ?thesis
    using False unat_u8_bound [of b] \<open>unat b div 64 < 4\<close> lead cont
    by (simp add: byte_classes wtf8_char_def byte_eq_iff eq_commute [of "byte _"])
qed

lemma latin1_to_utf8_loop_wtf8:
  "n \<le> length src \<Longrightarrow> latin1_to_utf8_loop src n = wtf8 (map unat (take n src))"
  by (induction n) (simp_all add: take_Suc_conv_app_nth latin1_char Let_def)

lemma latin1_wtf8_length: "length (wtf8 (map unat (bs :: bytes))) \<le> 2 * length bs"
proof (induction bs)
  case (Cons b bs)
  have "length (wtf8_char (unat b)) \<le> 2"
    using unat_u8_bound [of b] by (simp add: wtf8_char_length)
  with Cons show ?case by simp
qed simp

lemma latin1_pair:
  assumes "first = 0xc2 \<or> first = 0xc3" and "(b :: u8) AND 0xc0 = 0x80"
  shows "wtf8_char (unat (push_bit 6 (first AND 0x1f) OR (b AND 0x3f))) = [first, b]"
proof -
  let ?v = "push_bit 6 (first AND 0x1f) OR (b AND 0x3f)"
  have f: "unat first = 0xC2 \<or> unat first = 0xC3" using assms(1) by auto
  then have "unat first mod 32 * 64 < 256" "unat first mod 32 = unat first - 0xC0" by auto
  then have v: "unat ?v = (unat first - 0xC0) * 64 + unat b mod 64"
    by (subst unat_push_or) (simp_all add: byte_fields)
  have b: "0x80 \<le> unat b" "unat b < 0xC0" using assms(2) by (simp_all add: byte_classes)
  then have "unat b mod 64 = unat b - 0x80" by (simp add: mod_if)
  with v b f have "unat ?v div 64 = unat first - 0xC0" "unat ?v mod 64 = unat b - 0x80"
    "0x80 \<le> unat ?v" "unat ?v < 0x800"
    by auto
  then show ?thesis
    using f b by (auto simp: wtf8_char_def byte_eq_iff eq_commute [of "byte _"])
qed

lemma latin1_code_point: "code_point (unat (b :: u8))"
  using unat_u8_bound [of b] by (simp add: code_point_def)

lemma latin1_high:
  assumes "\<not> (b :: u8) < 0x80"
  obtains f c where "wtf8_char (unat b) = [f, c]" "f = 0xc2 \<or> f = 0xc3" "c AND 0xc0 = 0x80"
    "push_bit 6 (f AND 0x1f) OR (c AND 0x3f) = b"
proof -
  let ?f = "byte (0xC0 + unat b div 64)" and ?c = "byte (0x80 + unat b mod 64)"
  have b: "0x80 \<le> unat b" "unat b < 256"
    using assms unat_u8_bound [of b] by (simp_all add: byte_classes)
  then have ch: "wtf8_char (unat b) = [?f, ?c]" by (simp add: wtf8_char_def)
  have "unat b div 64 = 2 \<or> unat b div 64 = 3" using b by arith
  then have f: "?f = 0xc2 \<or> ?f = 0xc3" by (auto simp: byte_def)
  have "unat b mod 64 < 64" by simp
  then have c: "?c AND 0xc0 = 0x80" by (simp add: byte_classes)
  have "wtf8_char (unat (push_bit 6 (?f AND 0x1f) OR (?c AND 0x3f))) = wtf8_char (unat b)"
    using latin1_pair [OF f c] ch by simp
  then have "unat (push_bit 6 (?f AND 0x1f) OR (?c AND 0x3f)) = unat b"
    by (rule wtf8_char_inj [OF latin1_code_point latin1_code_point])
  with that [OF ch f c] show thesis by (simp add: word_unat_eq_iff)
qed

lemma utf8_to_latin1_from_wtf8:
  "utf8_to_latin1_from (xs @ wtf8 (map unat ys)) (length xs + length (wtf8 (map unat ys))) (length xs) out
    = (Some (out @ ys), True)"
proof (induction ys arbitrary: xs out)
  case Nil
  then show ?case by (simp add: utf8_to_latin1_from.simps)
next
  case (Cons b ys)
  note IH = Cons.IH [of "xs @ wtf8_char (unat b)" "out @ [b]"]
  show ?case
  proof (cases "b < 0x80")
    case True
    then show ?thesis
      using IH by (subst utf8_to_latin1_from.simps) (simp add: latin1_char nth_append)
  next
    case False
    then obtain f c where "wtf8_char (unat b) = [f, c]" "f = 0xc2 \<or> f = 0xc3" "c AND 0xc0 = 0x80"
      "push_bit 6 (f AND 0x1f) OR (c AND 0x3f) = b"
      by (rule latin1_high)
    then show ?thesis
      using IH by (subst utf8_to_latin1_from.simps) (auto simp: nth_append)
  qed
qed

lemma take_drop_Cons:
  assumes "i < n" and "n \<le> length xs"
  shows "take (n - i) (drop i xs) = xs ! i # take (n - Suc i) (drop (Suc i) xs)"
proof -
  have "drop i xs = xs ! i # drop (Suc i) xs" "n - i = Suc (n - Suc i)"
    using assms by (simp_all add: Cons_nth_drop_Suc)
  then show ?thesis by simp
qed

lemma utf8_to_latin1_from_sound:
  assumes "utf8_to_latin1_from src len i out = (Some r, f)" and "i \<le> len" and "len \<le> length src"
  shows "\<exists>ys. r = out @ ys \<and> take (len - i) (drop i src) = wtf8 (map unat ys)"
  using assms
proof (induction "len - i" arbitrary: i out rule: less_induct)
  case less
  show ?case
  proof (cases "i < len")
    case False
    then show ?thesis using less.prems by (simp add: utf8_to_latin1_from.simps)
  next
    case True
    then have smaller: "len - (i + 1) < len - i" "len - (i + 2) < len - i" by simp_all
    consider (one) "src ! i < 0x80"
        "utf8_to_latin1_from src len (i + 1) (out @ [src ! i]) = (Some r, f)"
      | (two) v where "wtf8_char (unat v) = [src ! i, src ! (i + 1)]" "i + 1 < len"
        "utf8_to_latin1_from src len (i + 2) (out @ [v]) = (Some r, f)"
    proof (cases "src ! i < 0x80")
      case False
      then have "(src ! i = 0xc2 \<or> src ! i = 0xc3) \<and> i + 1 < len \<and> src ! (i + 1) AND 0xc0 = 0x80"
        "utf8_to_latin1_from src len (i + 2)
          (out @ [push_bit 6 (src ! i AND 0x1f) OR (src ! (i + 1) AND 0x3f)]) = (Some r, f)"
        using less.prems(1) True
        by (simp_all add: utf8_to_latin1_from.simps [of src len i] Let_def split: if_splits)
      then show thesis
        using that(2) latin1_pair by blast
    qed (use less.prems(1) True that(1) in
      \<open>simp add: utf8_to_latin1_from.simps [of src len i] Let_def\<close>)
    then show ?thesis
    proof cases
      case one
      then obtain ys where "r = out @ [src ! i] @ ys"
        "take (len - (i + 1)) (drop (i + 1) src) = wtf8 (map unat ys)"
        using less.hyps [of "i + 1", OF smaller(1) one(2)] less.prems(3) True by auto
      moreover have "take (len - i) (drop i src) = src ! i # take (len - (i + 1)) (drop (i + 1) src)"
        using True less.prems(3) by (simp add: take_drop_Cons)
      ultimately show ?thesis
        using one(1) by (intro exI [of _ "src ! i # ys"]) (simp add: latin1_char)
    next
      case two
      then obtain ys where "r = out @ [v] @ ys"
        "take (len - (i + 2)) (drop (i + 2) src) = wtf8 (map unat ys)"
        using less.hyps [of "i + 2", OF smaller(2) two(3)] less.prems(3) two(2) by auto
      moreover have "take (len - i) (drop i src)
          = src ! i # src ! (i + 1) # take (len - (i + 2)) (drop (i + 2) src)"
        using two(2) less.prems(3) by (simp add: take_drop_Cons numeral_2_eq_2)
      ultimately show ?thesis
        using two(1) by (intro exI [of _ "v # ys"]) simp
    qed
  qed
qed

end
