(* ===== verification/Text_Decoder.thy ===== *)
theory Text_Decoder
  imports Utf8_Codec
begin

unbundle bit_operations_syntax

text \<open>
  Decoding bytes to text: \<^verbatim>\<open>utf8_whatwg_decode\<close> of \<^verbatim>\<open>src/utf8.c\<close> and the \<^verbatim>\<open>TextDecoder\<close> of
  \<^verbatim>\<open>src/modules/textcodec.c\<close> (label lookup, UTF-8, UTF-16 and single-byte decoders, streaming).
  The encoder \<^verbatim>\<open>utf8proc_encode_char\<close> of the utf8proc library is the parameter \<open>enc\<close>, which returns the
  bytes written (none for an invalid code point). A decoder reads the source as a list: \<^verbatim>\<open>src[i]\<close> is
  the head and \<^verbatim>\<open>i < len\<close> says that it is not empty. A result -1 is \<open>None\<close>.
\<close>

section \<open>The UTF-8 decoder\<close>

record utf8_dec =
  ud_ignore_bom :: bool
  ud_bom_seen :: bool
  ud_pend :: bytes

definition fffd :: bytes where
  "fffd = [0xEF, 0xBF, 0xBD]"

text \<open>The jump table: the labels with their continuation count, range of the next byte and lead mask.\<close>

datatype whatwg_label = L_ASCII | L_BAD | L_LEAD nat u8 u8 u8

definition whatwg_tbl :: "u8 \<Rightarrow> whatwg_label" where
  "whatwg_tbl c =
     (if c \<le> 0x7F then L_ASCII
      else if c \<le> 0xBF then L_BAD
      else if c \<le> 0xC1 then L_BAD
      else if c \<le> 0xDF then L_LEAD 1 0x80 0xBF 0x1F
      else if c = 0xE0 then L_LEAD 2 0xA0 0xBF 0x0F
      else if c \<le> 0xEC then L_LEAD 2 0x80 0xBF 0x0F
      else if c = 0xED then L_LEAD 2 0x80 0x9F 0x0F
      else if c \<le> 0xEF then L_LEAD 2 0x80 0xBF 0x0F
      else if c = 0xF0 then L_LEAD 3 0x90 0xBF 0x07
      else if c \<le> 0xF3 then L_LEAD 3 0x80 0xBF 0x07
      else if c = 0xF4 then L_LEAD 3 0x80 0x8F 0x07
      else L_BAD)"

text \<open>Where the machine stands: before a character, or in the loop at \<^verbatim>\<open>cont\<close> with its variables.\<close>

datatype whatwg_pos = Dispatch | Cont nat u8 u8 u32 bytes

function whatwg_run ::
  "(u32 \<Rightarrow> bytes) \<Rightarrow> bool \<Rightarrow> bool \<Rightarrow> whatwg_pos \<Rightarrow> bytes \<Rightarrow> utf8_dec \<Rightarrow> bytes \<Rightarrow> bytes option \<times> utf8_dec" where
  "whatwg_run enc fatal stream Dispatch [] dec out = (Some out, dec)"
| "whatwg_run enc fatal stream Dispatch (b # src) dec out =
     (case whatwg_tbl b of
        L_ASCII \<Rightarrow> whatwg_run enc fatal stream Dispatch src (dec\<lparr>ud_bom_seen := True\<rparr>) (out @ [b])
      | L_BAD \<Rightarrow>
          if fatal then (None, dec)
          else whatwg_run enc fatal stream Dispatch src (dec\<lparr>ud_bom_seen := True\<rparr>) (out @ fffd)
      | L_LEAD bc lo hi m \<Rightarrow>
          whatwg_run enc fatal stream (Cont bc lo hi (ucast (b AND m)) [b]) src dec out)"
| "whatwg_run enc fatal stream (Cont 0 lo hi cp pb) src dec out =
     (if \<not> ud_bom_seen dec \<and> cp = 0xFEFF \<and> \<not> ud_ignore_bom dec
      then whatwg_run enc fatal stream Dispatch src (dec\<lparr>ud_bom_seen := True\<rparr>) out
      else whatwg_run enc fatal stream Dispatch src (dec\<lparr>ud_bom_seen := True\<rparr>) (out @ enc cp))"
| "whatwg_run enc fatal stream (Cont (Suc bc) lo hi cp pb) [] dec out =
     (if stream then (Some out, dec\<lparr>ud_pend := pb\<rparr>)
      else if fatal then (None, dec)
      else (Some (out @ fffd), dec))"
| "whatwg_run enc fatal stream (Cont (Suc bc) lo hi cp pb) (b # src) dec out =
     (if b < lo \<or> b > hi then
        if fatal then (None, dec)
        else whatwg_run enc fatal stream Dispatch (b # src) (dec\<lparr>ud_bom_seen := True\<rparr>) (out @ fffd)
      else whatwg_run enc fatal stream (Cont bc 0x80 0xBF (push_bit 6 cp OR ucast (b AND 0x3F)) (pb @ [b]))
             src dec out)"
  by pat_completeness auto
termination
  by (relation "measure (\<lambda>(enc, fatal, stream, pos, src, dec, out).
        2 * length src + (case pos of Dispatch \<Rightarrow> 0 | Cont _ _ _ _ _ \<Rightarrow> 1))") auto

definition utf8_whatwg_decode ::
  "(u32 \<Rightarrow> bytes) \<Rightarrow> utf8_dec \<Rightarrow> bytes \<Rightarrow> bool \<Rightarrow> bool \<Rightarrow> bytes option \<times> utf8_dec" where
  "utf8_whatwg_decode enc dec src fatal stream = whatwg_run enc fatal stream Dispatch src dec []"

section \<open>The single-byte decoders\<close>

definition windows_1252_specials :: "nat list" where
  "windows_1252_specials =
     [0x20AC, 0x0081, 0x201A, 0x0192, 0x201E, 0x2026, 0x2020, 0x2021,
      0x02C6, 0x2030, 0x0160, 0x2039, 0x0152, 0x008D, 0x017D, 0x008F,
      0x0090, 0x2018, 0x2019, 0x201C, 0x201D, 0x2022, 0x2013, 0x2014,
      0x02DC, 0x2122, 0x0161, 0x203A, 0x0153, 0x009D, 0x017E, 0x0178]"

definition decode_windows_1252_byte :: "u8 \<Rightarrow> nat" where
  "decode_windows_1252_byte b =
     (if b < 0x80 then unat b
      else if b < 0xA0 then windows_1252_specials ! (unat b - 0x80)
      else unat b)"

definition iso_8859_2_upper :: "nat list" where
  "iso_8859_2_upper =
     [0x00A0, 0x0104, 0x02D8, 0x0141, 0x00A4, 0x013D, 0x015A, 0x00A7,
      0x00A8, 0x0160, 0x015E, 0x0164, 0x0179, 0x00AD, 0x017D, 0x017B,
      0x00B0, 0x0105, 0x02DB, 0x0142, 0x00B4, 0x013E, 0x015B, 0x02C7,
      0x00B8, 0x0161, 0x015F, 0x0165, 0x017A, 0x02DD, 0x017E, 0x017C,
      0x0154, 0x00C1, 0x00C2, 0x0102, 0x00C4, 0x0139, 0x0106, 0x00C7,
      0x010C, 0x00C9, 0x0118, 0x00CB, 0x011A, 0x00CD, 0x00CE, 0x010E,
      0x0110, 0x0143, 0x0147, 0x00D3, 0x00D4, 0x0150, 0x00D6, 0x00D7,
      0x0158, 0x016E, 0x00DA, 0x0170, 0x00DC, 0x00DD, 0x0162, 0x00DF,
      0x0155, 0x00E1, 0x00E2, 0x0103, 0x00E4, 0x013A, 0x0107, 0x00E7,
      0x010D, 0x00E9, 0x0119, 0x00EB, 0x011B, 0x00ED, 0x00EE, 0x010F,
      0x0111, 0x0144, 0x0148, 0x00F3, 0x00F4, 0x0151, 0x00F6, 0x00F7,
      0x0159, 0x016F, 0x00FA, 0x0171, 0x00FC, 0x00FD, 0x0163, 0x02D9]"

definition decode_iso_8859_2_byte :: "u8 \<Rightarrow> nat" where
  "decode_iso_8859_2_byte b =
     (if b < 0xA0 then unat b else iso_8859_2_upper ! (unat b - 0xA0))"

section \<open>The TextDecoder object\<close>

datatype td_encoding = TD_ENC_UTF8 | TD_ENC_UTF16LE | TD_ENC_UTF16BE | TD_ENC_WINDOWS_1252 | TD_ENC_ISO_8859_2

record td_state =
  td_encoding :: td_encoding
  td_pending :: bytes
  td_fatal :: bool
  td_ignore_bom :: bool
  td_bom_seen :: bool

definition td_state_new :: "mem_env \<Rightarrow> td_encoding \<Rightarrow> bool \<Rightarrow> bool \<Rightarrow> td_state option" where
  "td_state_new m e fatal ignore_bom =
     (if \<not> alloc_ok m 16 then None
      else Some \<lparr>td_encoding = e, td_pending = [], td_fatal = fatal, td_ignore_bom = ignore_bom,
             td_bom_seen = False\<rparr>)"

definition u16_read :: "bool \<Rightarrow> u8 \<Rightarrow> u8 \<Rightarrow> u16" where
  "u16_read be p0 p1 =
     (if be then push_bit 8 (ucast p0) OR ucast p1 else push_bit 8 (ucast p1) OR ucast p0)"

definition U16_IS_HIGH :: "u16 \<Rightarrow> bool" where
  "U16_IS_HIGH cu \<longleftrightarrow> cu \<ge> 0xD800 \<and> cu \<le> 0xDBFF"

definition U16_IS_LOW :: "u16 \<Rightarrow> bool" where
  "U16_IS_LOW cu \<longleftrightarrow> cu \<ge> 0xDC00 \<and> cu \<le> 0xDFFF"

definition U16_PAIR :: "u16 \<Rightarrow> u16 \<Rightarrow> u32" where
  "U16_PAIR hi lo = 0x10000 + push_bit 10 (ucast (hi - 0xD800)) + ucast (lo - 0xDC00)"

fun utf16_decode_loop ::
  "(u32 \<Rightarrow> bytes) \<Rightarrow> bool \<Rightarrow> bool \<Rightarrow> bool \<Rightarrow> bytes \<Rightarrow> bytes \<Rightarrow> (bytes \<times> bytes) option" where
  "utf16_decode_loop enc fatal be stream [] out = Some (out, [])"
| "utf16_decode_loop enc fatal be stream [p] out =
     (if stream then Some (out, [p]) else if fatal then None else Some (out @ fffd, []))"
| "utf16_decode_loop enc fatal be stream (p0 # p1 # src) out =
     (let cu = u16_read be p0 p1
      in if \<not> U16_IS_HIGH cu \<and> \<not> U16_IS_LOW cu
         then utf16_decode_loop enc fatal be stream src (out @ enc (ucast cu))
         else if U16_IS_LOW cu
         then (if fatal then None else utf16_decode_loop enc fatal be stream src (out @ fffd))
         else (case src of
             q0 # q1 # src' \<Rightarrow>
               let lo = u16_read be q0 q1
               in if U16_IS_LOW lo
                  then utf16_decode_loop enc fatal be stream src' (out @ enc (U16_PAIR cu lo))
                  else if fatal then None
                  else utf16_decode_loop enc fatal be stream src (out @ fffd)
           | _ \<Rightarrow>
               if stream then Some (out, p0 # p1 # src)
               else if fatal then None
               else Some (out @ fffd @ (if length src = 1 then fffd else []), [])))"

text \<open>The bytes written and the bytes left pending; \<^verbatim>\<open>bom_seen\<close> is set once two bytes were there.\<close>

definition utf16_decode ::
  "(u32 \<Rightarrow> bytes) \<Rightarrow> td_state \<Rightarrow> bytes \<Rightarrow> bool \<Rightarrow> bytes option \<times> td_state" where
  "utf16_decode enc st src stream =
     (let be = (td_encoding st = TD_ENC_UTF16BE);
          loop = (\<lambda>st rest.
            case utf16_decode_loop enc (td_fatal st) be stream rest [] of
              None \<Rightarrow> (None, st)
            | Some (out, pending) \<Rightarrow> (Some out, st\<lparr>td_pending := pending\<rparr>))
      in if td_bom_seen st then loop st src
         else case src of
             p0 # p1 # rest \<Rightarrow>
               loop (st\<lparr>td_bom_seen := True\<rparr>)
                 (if u16_read be p0 p1 = 0xFEFF \<and> \<not> td_ignore_bom st then rest else src)
           | _ \<Rightarrow> loop st src)"

definition decode_single_byte :: "(u32 \<Rightarrow> bytes) \<Rightarrow> td_encoding \<Rightarrow> bytes \<Rightarrow> bytes" where
  "decode_single_byte enc e src =
     concat (map (\<lambda>b. enc (word_of_nat
       (if e = TD_ENC_WINDOWS_1252 then decode_windows_1252_byte b else decode_iso_8859_2_byte b))) src)"

datatype td_result = TdText bytes | TdNoMemory | TdInvalidData

text \<open>
  The result is a string that \<^verbatim>\<open>js_mkstr\<close> allocates: a header of 16 bytes, the bytes and a zero. The
  state has been updated when that allocation fails.
\<close>

definition flat_string_size :: "nat \<Rightarrow> nat" where
  "flat_string_size len = 16 + len + 1"

definition td_string :: "mem_env \<Rightarrow> bytes \<Rightarrow> td_result" where
  "td_string m out = (if alloc_ok m (flat_string_size (length out)) then TdText out else TdNoMemory)"

lemma td_string_ample [simp]: "ample_memory m \<Longrightarrow> td_string m out = TdText out"
  by (simp add: td_string_def)

lemma td_string_text: "td_string m out = TdText t \<Longrightarrow> t = out"
  by (simp add: td_string_def split: if_splits)

definition td_decode ::
  "mem_env \<Rightarrow> (u32 \<Rightarrow> bytes) \<Rightarrow> td_state \<Rightarrow> bytes \<Rightarrow> bool \<Rightarrow> td_result \<times> td_state" where
  "td_decode m enc st0 input stream_mode =
     (let total = length (td_pending st0) + length input
      in if total = 0 then
           (td_string m [], if stream_mode then st0 else st0\<lparr>td_bom_seen := False\<rparr>)
         else if td_pending st0 \<noteq> [] \<and> \<not> alloc_ok m total then (TdNoMemory, st0)
         else
           let src = td_pending st0 @ input;
               st = st0\<lparr>td_pending := []\<rparr>
           in if \<not> alloc_ok m (total * 3 + 1) then (TdNoMemory, st)
              else
                let (n, st1) =
                  (case td_encoding st of
                     TD_ENC_UTF8 \<Rightarrow>
                       let (n, dec) = utf8_whatwg_decode enc
                           \<lparr>ud_ignore_bom = td_ignore_bom st, ud_bom_seen = td_bom_seen st, ud_pend = []\<rparr>
                           src (td_fatal st) stream_mode
                       in (n, st\<lparr>td_pending := ud_pend dec,
                             td_bom_seen := (if stream_mode then ud_bom_seen dec else False)\<rparr>)
                   | TD_ENC_WINDOWS_1252 \<Rightarrow>
                       (Some (decode_single_byte enc (td_encoding st) src), st\<lparr>td_pending := [], td_bom_seen := False\<rparr>)
                   | TD_ENC_ISO_8859_2 \<Rightarrow>
                       (Some (decode_single_byte enc (td_encoding st) src), st\<lparr>td_pending := [], td_bom_seen := False\<rparr>)
                   | _ \<Rightarrow> utf16_decode enc st src stream_mode)
                in case n of
                    None \<Rightarrow> (TdInvalidData, st1)
                  | Some out \<Rightarrow>
                      (td_string m out,
                       if td_encoding st \<noteq> TD_ENC_UTF8 \<and> \<not> stream_mode
                       then st1\<lparr>td_bom_seen := False\<rparr> else st1))"

section \<open>Labels\<close>

text \<open>The table of \<^verbatim>\<open>resolve_encoding\<close>: label, the length stored beside it, encoding.\<close>

definition encoding_labels :: "(string \<times> nat \<times> td_encoding) list" where
  "encoding_labels =
     [(''unicode-1-1-utf-8'', 17, TD_ENC_UTF8),
      (''unicode11utf8'', 13, TD_ENC_UTF8),
      (''unicode20utf8'', 13, TD_ENC_UTF8),
      (''utf-8'', 5, TD_ENC_UTF8),
      (''utf8'', 4, TD_ENC_UTF8),
      (''x-unicode20utf8'', 17, TD_ENC_UTF8),
      (''ansi_x3.4-1968'', 14, TD_ENC_WINDOWS_1252),
      (''ascii'', 5, TD_ENC_WINDOWS_1252),
      (''cp1252'', 6, TD_ENC_WINDOWS_1252),
      (''cp819'', 5, TD_ENC_WINDOWS_1252),
      (''csisolatin1'', 11, TD_ENC_WINDOWS_1252),
      (''ibm819'', 6, TD_ENC_WINDOWS_1252),
      (''iso-8859-1'', 10, TD_ENC_WINDOWS_1252),
      (''iso-ir-100'', 10, TD_ENC_WINDOWS_1252),
      (''iso8859-1'', 9, TD_ENC_WINDOWS_1252),
      (''iso88591'', 8, TD_ENC_WINDOWS_1252),
      (''iso_8859-1'', 10, TD_ENC_WINDOWS_1252),
      (''iso_8859-1:1987'', 15, TD_ENC_WINDOWS_1252),
      (''l1'', 2, TD_ENC_WINDOWS_1252),
      (''latin1'', 6, TD_ENC_WINDOWS_1252),
      (''us-ascii'', 8, TD_ENC_WINDOWS_1252),
      (''windows-1252'', 12, TD_ENC_WINDOWS_1252),
      (''x-cp1252'', 8, TD_ENC_WINDOWS_1252),
      (''unicodefffe'', 11, TD_ENC_UTF16BE),
      (''utf-16be'', 8, TD_ENC_UTF16BE),
      (''csunicode'', 9, TD_ENC_UTF16LE),
      (''iso-10646-ucs-2'', 16, TD_ENC_UTF16LE),
      (''ucs-2'', 5, TD_ENC_UTF16LE),
      (''unicode'', 7, TD_ENC_UTF16LE),
      (''unicodefeff'', 11, TD_ENC_UTF16LE),
      (''utf-16'', 6, TD_ENC_UTF16LE),
      (''utf-16le'', 8, TD_ENC_UTF16LE),
      (''iso-8859-2'', 10, TD_ENC_ISO_8859_2)]"

definition ascii_lower :: "u8 \<Rightarrow> u8" where
  "ascii_lower c = (if 65 \<le> c \<and> c \<le> 90 then c + 32 else c)"

text \<open>\<^verbatim>\<open>strncasecmp(a, b, n) == 0\<close> on two byte strings that a zero byte ends.\<close>

fun strncasecmp_eq :: "bytes \<Rightarrow> bytes \<Rightarrow> nat \<Rightarrow> bool" where
  "strncasecmp_eq a b 0 = True"
| "strncasecmp_eq a b (Suc n) =
     (let x = (case a of [] \<Rightarrow> 0 | c # _ \<Rightarrow> ascii_lower c);
          y = (case b of [] \<Rightarrow> 0 | c # _ \<Rightarrow> ascii_lower c)
      in if x \<noteq> y then False
         else if x = 0 then True
         else strncasecmp_eq (drop 1 a) (drop 1 b) n)"

definition resolve_encoding :: "bytes \<Rightarrow> nat \<Rightarrow> td_encoding option" where
  "resolve_encoding s len =
     map_option (snd \<circ> snd)
       (find (\<lambda>(label, n, e). if len = n then strncasecmp_eq s (ascii label) len else False) encoding_labels)"

definition encoding_name :: "td_encoding \<Rightarrow> string" where
  "encoding_name e =
     (case e of
        TD_ENC_UTF16LE \<Rightarrow> ''utf-16le''
      | TD_ENC_UTF16BE \<Rightarrow> ''utf-16be''
      | TD_ENC_WINDOWS_1252 \<Rightarrow> ''windows-1252''
      | TD_ENC_ISO_8859_2 \<Rightarrow> ''iso-8859-2''
      | TD_ENC_UTF8 \<Rightarrow> ''utf-8'')"

definition trim_label :: "bytes \<Rightarrow> bytes" where
  "trim_label s = rev (dropWhile (\<lambda>c. c \<le> 0x20) (rev (dropWhile (\<lambda>c. c \<le> 0x20) s)))"

text \<open>
  The constructor: its label argument is \<open>None\<close> when absent or undefined, and the two options
  are what the options object gives.
\<close>

datatype td_ctor_result = TdDecoder td_state | TdBadLabel bytes | TdCtorNoMemory

definition js_textdecoder_ctor :: "mem_env \<Rightarrow> bytes option \<Rightarrow> bool \<Rightarrow> bool \<Rightarrow> td_ctor_result" where
  "js_textdecoder_ctor m label fatal ignore_bom =
     (case label of
        None \<Rightarrow>
          (case td_state_new m TD_ENC_UTF8 fatal ignore_bom of
             None \<Rightarrow> TdCtorNoMemory | Some st \<Rightarrow> TdDecoder st)
      | Some raw \<Rightarrow>
          (case resolve_encoding (trim_label raw) (length (trim_label raw)) of
             None \<Rightarrow> TdBadLabel (trim_label raw)
           | Some e \<Rightarrow>
               (case td_state_new m e fatal ignore_bom of
                  None \<Rightarrow> TdCtorNoMemory | Some st \<Rightarrow> TdDecoder st)))"

end
