(* ===== verification/Text_Decoding.thy ===== *)
theory Text_Decoding
  imports Text_Decoder
begin

unbundle bit_operations_syntax

text \<open>
  What the decoders of \<open>Text_Decoder\<close> compute. The only assumption on the library encoder is
  \<open>utf8proc_encodes\<close>: a scalar value is encoded as UTF-8. The decoder accepts exactly the valid
  UTF-8 strings in fatal mode, leaves them unchanged but for a byte order mark, always produces
  valid UTF-8 that fits the buffer of the caller, and gives the same text however the input is
  cut into chunks.
\<close>

definition utf8proc_encodes :: "(u32 \<Rightarrow> bytes) \<Rightarrow> bool" where
  "utf8proc_encodes enc \<longleftrightarrow> (\<forall>c. scalar_value c \<longrightarrow> enc (word_of_nat c) = wtf8_char c)"

lemma utf8proc_encodesD:
  "utf8proc_encodes enc \<Longrightarrow> scalar_value c \<Longrightarrow> w = word_of_nat c \<Longrightarrow> enc w = wtf8_char c"
  by (simp add: utf8proc_encodes_def)

text \<open>Valid UTF-8 as a property of the bytes alone.\<close>

definition valid_utf8 :: "bytes \<Rightarrow> bool" where
  "valid_utf8 bs \<longleftrightarrow> (\<exists>cs. (\<forall>c \<in> set cs. scalar_value c) \<and> bs = wtf8 cs)"

lemma valid_utf8_validate: "valid_utf8 bs \<longleftrightarrow> utf8_validate_bytes bs (length bs)"
  by (simp add: valid_utf8_def utf8_validate_bytes_iff)

lemma valid_utf8_Nil [simp]: "valid_utf8 []"
  by (auto simp: valid_utf8_def intro: exI [of _ "[]"])

lemma valid_utf8_append: "valid_utf8 a \<Longrightarrow> valid_utf8 b \<Longrightarrow> valid_utf8 (a @ b)"
proof -
  assume "valid_utf8 a" "valid_utf8 b"
  then obtain cs ds where "\<forall>c \<in> set (cs @ ds). scalar_value c" "a @ b = wtf8 (cs @ ds)"
    by (auto simp: valid_utf8_def)
  then show ?thesis unfolding valid_utf8_def by blast
qed

lemma valid_utf8_char: "scalar_value c \<Longrightarrow> valid_utf8 (wtf8_char c)"
  by (auto simp: valid_utf8_def intro!: exI [of _ "[c]"])

lemma valid_utf8_fffd: "valid_utf8 fffd"
proof -
  have "fffd = wtf8_char 0xFFFD" by (simp add: fffd_def wtf8_char_def byte_def)
  moreover have "scalar_value 0xFFFD" by (simp add: scalar_value_def code_point_def surrogate_def)
  ultimately show ?thesis by (metis valid_utf8_char)
qed

section \<open>One character\<close>

definition lead_mask :: "nat \<Rightarrow> u8" where
  "lead_mask n = (if n = 1 then 0x1F else if n = 2 then 0x0F else 0x07)"

lemma whatwg_tbl_lead:
  "whatwg_tbl b =
     (if b < 0x80 then L_ASCII
      else case utf8_lead b of None \<Rightarrow> L_BAD | Some (n, lo, hi) \<Rightarrow> L_LEAD n lo hi (lead_mask n))"
  unfolding whatwg_tbl_def utf8_lead_nat lead_mask_def
  by (auto simp: word_le_nat_alt word_less_nat_alt word_unat_eq_iff Let_def)

lemma utf8_lead_count: "utf8_lead a = Some (n, lo, hi) \<Longrightarrow> n \<in> {1, 2, 3} \<and> 0x80 \<le> lo \<and> hi \<le> 0xbf"
  by (auto simp: utf8_lead_def split: if_splits)

definition cont_byte_ok :: "u8 \<Rightarrow> bool" where
  "cont_byte_ok b \<longleftrightarrow> 0x80 \<le> b \<and> b \<le> 0xbf"

text \<open>A lead byte with continuation bytes in its ranges spells a scalar value.\<close>

lemma lead_spells:
  assumes "utf8_lead a = Some (n, lo, hi)" and "length x = n" and "lo \<le> hd x" and "hd x \<le> hi"
    and "\<forall>z \<in> set (tl x). cont_byte_ok z"
  obtains c where "scalar_value c" "wtf8_char c = a # x"
proof -
  have "\<exists>lo hi. utf8_lead a = Some (n, lo, hi) \<and> lo \<le> hd x \<and> hd x \<le> hi" using assms by blast
  then show thesis
    unfolding utf8_lead_pair
  proof (elim disjE conjE)
    assume n: "n = 1" and r: "0xc2 \<le> unat a" "unat a \<le> 0xdf" "0x80 \<le> unat (hd x)" "unat (hd x) \<le> 0xbf"
    obtain b where "x = [b]" using assms(2) n by (auto simp: length_Suc_conv)
    then show thesis using utf8_two_bytes [of a b] r that by auto
  next
    assume n: "n = 2" and r: "0xe0 \<le> unat a" "unat a \<le> 0xef"
      "(if unat a = 0xe0 then 0xa0 else 0x80) \<le> unat (hd x)"
      "unat (hd x) \<le> (if unat a = 0xed then 0x9f else 0xbf)"
    obtain b d where x: "x = [b, d]" using assms(2) n by (auto simp: length_Suc_conv numeral_2_eq_2)
    then have "0x80 \<le> unat d" "unat d \<le> 0xbf" using assms(5) by (auto simp: cont_byte_ok_def word_le_nat_alt)
    with x r show thesis using utf8_three_bytes [of a b d] that by auto
  next
    assume n: "n = 3" and r: "0xf0 \<le> unat a" "unat a \<le> 0xf4"
      "(if unat a = 0xf0 then 0x90 else 0x80) \<le> unat (hd x)"
      "unat (hd x) \<le> (if unat a = 0xf4 then 0x8f else 0xbf)"
    obtain b d f where x: "x = [b, d, f]" using assms(2) n by (auto simp: length_Suc_conv numeral_3_eq_3)
    then have "0x80 \<le> unat d" "unat d \<le> 0xbf" "0x80 \<le> unat f" "unat f \<le> 0xbf"
      using assms(5) by (auto simp: cont_byte_ok_def word_le_nat_alt)
    with x r show thesis using utf8_four_bytes [of a b d f] that by auto
  qed
qed

definition cp_step :: "u32 \<Rightarrow> u8 \<Rightarrow> u32" where
  "cp_step cp b = push_bit 6 cp OR ucast (b AND 0x3F)"

lemma lead_assembles:
  assumes "utf8_lead a = Some (n, lo, hi)" and "length x = n" and "code_point c" and "wtf8_char c = a # x"
  shows "foldl cp_step (ucast (a AND lead_mask n)) x = word_of_nat c"
  using assms(3)
proof (cases rule: code_point_cases)
  case one
  then show ?thesis using assms utf8_lead_count [OF assms(1)] by auto
next
  case two
  then show ?thesis
    using assms(1,2,4) cp_of_wtf8_char(1) [of c] by (auto simp: cp_step_def lead_mask_def cp_of_2_def)
next
  case three
  then show ?thesis
    using assms(1,2,4) cp_of_wtf8_char(2) [of c]
    by (auto simp: cp_step_def lead_mask_def cp_of_3_def push_bit_or or.assoc)
next
  case four
  then show ?thesis
    using assms(1,2,4) cp_of_wtf8_char(3) [of c]
    by (auto simp: cp_step_def lead_mask_def cp_of_4_def push_bit_or or.assoc)
qed

text \<open>The states of the continuation loop that the machine can be in.\<close>

definition cont_ok :: "nat \<Rightarrow> u8 \<Rightarrow> u8 \<Rightarrow> u32 \<Rightarrow> bytes \<Rightarrow> bool" where
  "cont_ok bc lo hi cp pb \<longleftrightarrow>
     (\<exists>a x n lo0 hi0. pb = a # x \<and> \<not> a < 0x80 \<and> utf8_lead a = Some (n, lo0, hi0) \<and> length x + bc = n \<and>
        (x = [] \<longrightarrow> lo = lo0 \<and> hi = hi0) \<and>
        (x \<noteq> [] \<longrightarrow> lo = 0x80 \<and> hi = 0xbf \<and> lo0 \<le> hd x \<and> hd x \<le> hi0 \<and> (\<forall>z \<in> set (tl x). cont_byte_ok z)) \<and>
        cp = foldl cp_step (ucast (a AND lead_mask n)) x)"

lemma cont_ok_start:
  "\<not> a < 0x80 \<Longrightarrow> utf8_lead a = Some (n, lo, hi) \<Longrightarrow> cont_ok n lo hi (ucast (a AND lead_mask n)) [a]"
  by (auto simp: cont_ok_def)

lemma cont_ok_step:
  assumes "cont_ok (Suc bc) lo hi cp pb" and "lo \<le> b" and "b \<le> hi"
  shows "cont_ok bc 0x80 0xBF (push_bit 6 cp OR ucast (b AND 0x3F)) (pb @ [b])"
proof -
  obtain a x n lo0 hi0 where s: "pb = a # x" "\<not> a < 0x80" "utf8_lead a = Some (n, lo0, hi0)" "length x + Suc bc = n"
    "x = [] \<longrightarrow> lo = lo0 \<and> hi = hi0"
    "x \<noteq> [] \<longrightarrow> lo = 0x80 \<and> hi = 0xbf \<and> lo0 \<le> hd x \<and> hd x \<le> hi0 \<and> (\<forall>z \<in> set (tl x). cont_byte_ok z)"
    "cp = foldl cp_step (ucast (a AND lead_mask n)) x"
    using assms(1) unfolding cont_ok_def by blast
  show ?thesis
    unfolding cont_ok_def
    using s assms(2,3)
    by (intro exI [of _ a] exI [of _ "x @ [b]"] exI [of _ n] exI [of _ lo0] exI [of _ hi0])
      (cases x, auto simp: cp_step_def cont_byte_ok_def)
qed

lemma cont_ok_done:
  assumes "cont_ok 0 lo hi cp pb"
  obtains c where "scalar_value c" "wtf8_char c = pb" "cp = word_of_nat c"
proof -
  obtain a x n lo0 hi0 where s: "pb = a # x" "utf8_lead a = Some (n, lo0, hi0)" "length x = n"
    "x \<noteq> [] \<longrightarrow> lo0 \<le> hd x \<and> hd x \<le> hi0 \<and> (\<forall>z \<in> set (tl x). cont_byte_ok z)"
    "cp = foldl cp_step (ucast (a AND lead_mask n)) x"
    using assms unfolding cont_ok_def add_0_right by blast
  have "x \<noteq> []" using utf8_lead_count [OF s(2)] s(3) by auto
  with s obtain c where c: "scalar_value c" "wtf8_char c = a # x"
    using lead_spells [OF s(2,3)] by blast
  then have "cp = word_of_nat c"
    using lead_assembles [OF s(2,3) _ c(2)] s(5) by (simp add: scalar_value_def)
  with c s(1) that show thesis by simp
qed

lemma cont_ok_pending: "cont_ok (Suc bc) lo hi cp pb \<Longrightarrow> length pb \<le> 3 \<and> pb \<noteq> []"
  by (auto simp: cont_ok_def dest!: utf8_lead_count)

section \<open>Runs of the machine\<close>

declare whatwg_run.simps(2,5) [simp del]

lemma whatwg_run_cont:
  "lo \<le> b \<Longrightarrow> b \<le> hi \<Longrightarrow> whatwg_run enc fatal stream (Cont (Suc bc) lo hi cp pb) (b # src) dec out =
     whatwg_run enc fatal stream (Cont bc 0x80 0xBF (cp_step cp b) (pb @ [b])) src dec out"
  "b < lo \<or> b > hi \<Longrightarrow> whatwg_run enc fatal stream (Cont (Suc bc) lo hi cp pb) (b # src) dec out =
     (if fatal then (None, dec)
      else whatwg_run enc fatal stream Dispatch (b # src) (dec\<lparr>ud_bom_seen := True\<rparr>) (out @ fffd))"
  by (auto simp: whatwg_run.simps(5) cp_step_def)

definition pos_ok :: "whatwg_pos \<Rightarrow> bool" where
  "pos_ok pos \<longleftrightarrow> (case pos of Dispatch \<Rightarrow> True | Cont bc lo hi cp pb \<Rightarrow> cont_ok bc lo hi cp pb)"

definition pos_bytes :: "whatwg_pos \<Rightarrow> bytes" where
  "pos_bytes pos = (case pos of Dispatch \<Rightarrow> [] | Cont bc lo hi cp pb \<Rightarrow> pb)"

lemma pos_simps [simp]:
  "pos_ok Dispatch" "pos_ok (Cont bc lo hi cp pb) = cont_ok bc lo hi cp pb"
  "pos_bytes Dispatch = []" "pos_bytes (Cont bc lo hi cp pb) = pb"
  by (simp_all add: pos_ok_def pos_bytes_def)

lemma whatwg_tbl_cases:
  obtains "whatwg_tbl b = L_ASCII" "b < 0x80"
  | "whatwg_tbl b = L_BAD" "\<not> b < 0x80" "utf8_lead b = None"
  | n lo hi where "whatwg_tbl b = L_LEAD n lo hi (lead_mask n)" "\<not> b < 0x80" "utf8_lead b = Some (n, lo, hi)"
  using whatwg_tbl_lead [of b] by (cases "b < 0x80"; cases "utf8_lead b") auto

text \<open>
  Without the fatal flag a run ends with text; the text is valid if what was there was, and it
  grows by at most three bytes for each byte read. Pending bytes fit the three of the decoder.
\<close>

lemma whatwg_run_text:
  assumes "utf8proc_encodes enc" and "pos_ok pos" and "valid_utf8 out"
  shows "case whatwg_run enc fatal stream pos src dec out of
      (None, dec') \<Rightarrow> fatal \<and> ud_pend dec' = ud_pend dec
    | (Some res, dec') \<Rightarrow>
        valid_utf8 res \<and> length res \<le> length out + 3 * (length (pos_bytes pos) + length src)
        \<and> (ud_pend dec' = ud_pend dec \<or> length (ud_pend dec') \<le> 3)"
  using assms
proof (induction enc fatal stream pos src dec out rule: whatwg_run.induct)
  case (2 enc fatal stream b src dec out)
  show ?case
  proof (cases rule: whatwg_tbl_cases [of b])
    case 1
    then have "valid_utf8 (out @ [b])"
      using "2.prems"(3) valid_utf8_append [OF _ valid_utf8_char [of "unat b"]]
      by (simp add: byte_classes wtf8_char_def scalar_value_def code_point_def surrogate_def)
    then show ?thesis using 1 "2.IH"(1) "2.prems" by (auto simp: whatwg_run.simps(2) split: prod.splits option.splits)
  next
    case 2
    then show ?thesis
      using "2.IH"(2) "2.prems" valid_utf8_append [OF _ valid_utf8_fffd, of out]
      by (cases fatal) (auto simp: whatwg_run.simps(2) fffd_def split: prod.splits option.splits)
  next
    case (3 n lo hi)
    then show ?thesis
      using "2.IH"(3) "2.prems" cont_ok_start [of b n lo hi]
      by (auto simp: whatwg_run.simps(2) split: prod.splits option.splits)
  qed
next
  case (3 enc fatal stream lo hi cp pb src dec out)
  then obtain c where c: "scalar_value c" "wtf8_char c = pb" "cp = word_of_nat c"
    using cont_ok_done [of lo hi cp pb] by auto
  then have e: "enc cp = pb" using "3.prems"(1) by (auto simp: utf8proc_encodes_def)
  then have "valid_utf8 (out @ enc cp)"
    using "3.prems"(3) valid_utf8_append valid_utf8_char [OF c(1)] c(2) by simp
  then show ?case using "3.IH" "3.prems" e by (auto split: prod.splits option.splits)
next
  case (4 enc fatal stream bc lo hi cp pb dec out)
  then show ?case
    using cont_ok_pending [of bc lo hi cp pb] valid_utf8_append [OF _ valid_utf8_fffd, of out]
    by (cases pb) (auto simp: fffd_def)
next
  case (5 enc fatal stream bc lo hi cp pb b src dec out)
  show ?case
  proof (cases "b < lo \<or> b > hi")
    case True
    then show ?thesis
      using "5.IH"(1) "5.prems" valid_utf8_append [OF _ valid_utf8_fffd, of out] cont_ok_pending [of bc lo hi cp pb]
      by (cases pb; cases fatal) (auto simp: whatwg_run_cont(2) fffd_def split: prod.splits option.splits)
  next
    case False
    then have range: "lo \<le> b" "b \<le> hi" by auto
    show ?thesis
      unfolding whatwg_run_cont(1) [OF range]
      using "5.IH"(2) [OF False] "5.prems" cont_ok_step [of bc lo hi cp pb b, OF _ range]
      by (auto simp: cp_step_def algebra_simps split: prod.splits option.splits)
  qed
qed simp_all

text \<open>A scalar value is copied, unless it is the byte order mark at the start.\<close>

lemma whatwg_run_char:
  assumes "utf8proc_encodes enc" and "scalar_value c"
  shows "whatwg_run enc fatal stream Dispatch (wtf8_char c @ src) dec out =
    whatwg_run enc fatal stream Dispatch src (dec\<lparr>ud_bom_seen := True\<rparr>)
      (if \<not> ud_bom_seen dec \<and> c = 0xFEFF \<and> \<not> ud_ignore_bom dec then out else out @ wtf8_char c)"
proof (cases "c < 0x80")
  case True
  then have "wtf8_char c = [byte c]" "byte c < 0x80" by (simp_all add: wtf8_char_def byte_classes)
  then show ?thesis using True by (simp add: whatwg_run.simps(2) whatwg_tbl_lead)
next
  case False
  then obtain a b r lo hi where ch: "wtf8_char c = a # b # r" "\<not> a < 0x80"
    "utf8_lead a = Some (length r + 1, lo, hi)" "lo \<le> b" "b \<le> hi" "\<forall>x \<in> set r. 0x80 \<le> x \<and> x \<le> 0xbf"
    using assms(2) by (auto elim: utf8_lead_char [of c])
  have cp: "foldl cp_step (ucast (a AND lead_mask (length r + 1))) (b # r) = word_of_nat c"
    using lead_assembles [OF ch(3), of "b # r" c] ch(1) assms(2) by (simp add: scalar_value_def)
  have conts: "whatwg_run enc fatal stream (Cont (length r) 0x80 0xBF cp pb) (r @ src) dec out =
      whatwg_run enc fatal stream (Cont 0 0x80 0xBF (foldl cp_step cp r) (pb @ r)) src dec out" for cp pb
    using ch(6)
  proof (induction r arbitrary: cp pb)
    case (Cons x r)
    then show ?case
      using Cons.IH [of "cp_step cp x" "pb @ [x]"] by (simp add: whatwg_run_cont(1))
  qed simp
  have "(0xFEFF :: u32) = word_of_nat c \<longleftrightarrow> c = 0xFEFF"
    using assms(2) by (auto simp: scalar_value_def code_point_def word_unat_eq_iff unsigned_of_nat take_bit_nat_eq_self)
  moreover have "enc (word_of_nat c) = wtf8_char c"
    using assms by (simp add: utf8proc_encodes_def)
  ultimately show ?thesis
    using ch conts [of "cp_step (ucast (a AND lead_mask (length r + 1))) b" "[a, b]"] cp
    by (auto simp: whatwg_run.simps(2) whatwg_tbl_lead whatwg_run_cont(1))
qed

lemma whatwg_run_valid:
  assumes "utf8proc_encodes enc" and "\<forall>c \<in> set cs. scalar_value c"
  shows "whatwg_run enc fatal stream Dispatch (wtf8 cs @ src) (dec\<lparr>ud_bom_seen := True\<rparr>) out =
    whatwg_run enc fatal stream Dispatch src (dec\<lparr>ud_bom_seen := True\<rparr>) (out @ wtf8 cs)"
  using assms(2) by (induction cs arbitrary: out) (simp_all add: whatwg_run_char [OF assms(1)])

text \<open>In fatal mode without streaming, only valid input survives.\<close>

definition completes :: "whatwg_pos \<Rightarrow> bytes \<Rightarrow> bool" where
  "completes pos src \<longleftrightarrow>
     (case pos of
        Dispatch \<Rightarrow> valid_utf8 src
      | Cont bc lo hi cp pb \<Rightarrow>
          (\<exists>c rest. scalar_value c \<and> pb @ src = wtf8_char c @ rest \<and> valid_utf8 rest))"

lemma whatwg_run_fatal:
  assumes "pos_ok pos" and "whatwg_run enc fatal stream pos src dec out = (Some res, dec')" and "fatal" and "\<not> stream"
  shows "completes pos src"
  using assms
proof (induction enc fatal stream pos src dec out rule: whatwg_run.induct)
  case (2 enc fatal stream b src dec out)
  show ?case
  proof (cases rule: whatwg_tbl_cases [of b])
    case 1
    then have "valid_utf8 src" using "2.IH"(1) "2.prems" by (simp add: whatwg_run.simps(2) completes_def)
    moreover have "valid_utf8 [b]"
      using 1 valid_utf8_char [of "unat b"]
      by (simp add: byte_classes wtf8_char_def scalar_value_def code_point_def surrogate_def)
    ultimately show ?thesis using valid_utf8_append [of "[b]" src] by (simp add: completes_def)
  next
    case 2
    then show ?thesis using "2.prems" by (simp add: whatwg_run.simps(2))
  next
    case (3 n lo hi)
    then have "completes (Cont n lo hi (ucast (b AND lead_mask n)) [b]) src"
      using "2.IH"(3) "2.prems" cont_ok_start [of b n lo hi] by (simp add: whatwg_run.simps(2))
    then obtain c rest where "scalar_value c" "b # src = wtf8_char c @ rest" "valid_utf8 rest"
      by (auto simp: completes_def)
    then show ?thesis using valid_utf8_append [OF valid_utf8_char] by (simp add: completes_def)
  qed
next
  case (3 enc fatal stream lo hi cp pb src dec out)
  then obtain c where "scalar_value c" "wtf8_char c = pb"
    using cont_ok_done [of lo hi cp pb] by auto
  moreover have "valid_utf8 src"
    using "3.IH" "3.prems" by (auto simp: completes_def split: if_splits)
  ultimately show ?case by (auto simp: completes_def)
next
  case (5 enc fatal stream bc lo hi cp pb b src dec out)
  then show ?case
    using cont_ok_step [of bc lo hi cp pb b]
    by (auto simp: completes_def whatwg_run.simps(5) not_less split: if_splits)
qed (auto simp: completes_def)

section \<open>Streaming\<close>

text \<open>A run over the pending bytes comes back to the state that left them.\<close>

lemma whatwg_replay:
  assumes "cont_ok bc lo hi cp pb"
  shows "whatwg_run enc fatal stream Dispatch (pb @ src) dec out =
    whatwg_run enc fatal stream (Cont bc lo hi cp pb) src dec out"
proof -
  obtain a x n lo0 hi0 where s: "pb = a # x" "\<not> a < 0x80" "utf8_lead a = Some (n, lo0, hi0)" "length x + bc = n"
    "x = [] \<longrightarrow> lo = lo0 \<and> hi = hi0"
    "x \<noteq> [] \<longrightarrow> lo = 0x80 \<and> hi = 0xbf \<and> lo0 \<le> hd x \<and> hd x \<le> hi0 \<and> (\<forall>z \<in> set (tl x). cont_byte_ok z)"
    "cp = foldl cp_step (ucast (a AND lead_mask n)) x"
    using assms unfolding cont_ok_def by blast
  have conts: "whatwg_run enc fatal stream (Cont (length y + bc) 0x80 0xbf cp pb) (y @ src) dec out =
      whatwg_run enc fatal stream (Cont bc 0x80 0xbf (foldl cp_step cp y) (pb @ y)) src dec out"
    if "\<forall>z \<in> set y. cont_byte_ok z" for y cp pb
    using that
  proof (induction y arbitrary: cp pb)
    case (Cons z y)
    then show ?case
      using Cons.IH [of "cp_step cp z" "pb @ [z]"] by (simp add: whatwg_run_cont(1) cont_byte_ok_def)
  qed simp
  show ?thesis
  proof (cases x)
    case Nil
    then show ?thesis using s by (simp add: whatwg_run.simps(2) whatwg_tbl_lead)
  next
    case (Cons b y)
    then show ?thesis
      using s conts [of y "cp_step (ucast (a AND lead_mask n)) b" "[a, b]"]
      by (auto simp: whatwg_run.simps(2) whatwg_tbl_lead whatwg_run_cont(1))
  qed
qed

lemma whatwg_run_split:
  assumes "pos_ok pos" and "ud_pend dec = []"
  shows "whatwg_run enc fatal stream pos (a @ b) dec out =
    (case whatwg_run enc fatal True pos a dec out of
       (None, dec') \<Rightarrow> (None, dec')
     | (Some res, dec') \<Rightarrow> whatwg_run enc fatal stream Dispatch (ud_pend dec' @ b) (dec'\<lparr>ud_pend := []\<rparr>) res)"
  using assms
proof (induction enc fatal "True" pos a dec out rule: whatwg_run.induct)
  case (1 enc fatal dec out)
  then have same: "dec\<lparr>ud_pend := []\<rparr> = dec" by simp
  from 1 show ?case by (simp add: same)
next
  case (2 enc fatal x src dec out)
  then show ?case
    by (cases rule: whatwg_tbl_cases [of x]) (simp_all add: whatwg_run.simps(2) cont_ok_start)
next
  case (4 enc fatal bc lo hi cp pb dec out)
  then have same: "dec\<lparr>ud_pend := []\<rparr> = dec" by simp
  from 4 show ?case
    using whatwg_replay [of "Suc bc" lo hi cp pb enc fatal stream b dec out] by (simp add: same)
next
  case (5 enc fatal bc lo hi cp pb x src dec out)
  then show ?case
    using cont_ok_step [of bc lo hi cp pb x] by (auto simp: whatwg_run.simps(5) not_less)
qed simp_all

section \<open>UTF-16\<close>

definition u16_bytes :: "bool \<Rightarrow> nat \<Rightarrow> bytes" where
  "u16_bytes be u =
     (if be then [byte (u div 256), byte (u mod 256)] else [byte (u mod 256), byte (u div 256)])"

definition utf16_bytes :: "bool \<Rightarrow> nat list \<Rightarrow> bytes" where
  "utf16_bytes be us = concat (map (u16_bytes be) us)"

lemma utf16_bytes_simps [simp]:
  "utf16_bytes be [] = []" "utf16_bytes be (u # us) = u16_bytes be u @ utf16_bytes be us"
  "utf16_bytes be (us @ vs) = utf16_bytes be us @ utf16_bytes be vs"
  by (simp_all add: utf16_bytes_def)

lemma unat_ucast_u8_u16: "unat (ucast (c :: u8) :: u16) = unat c"
proof -
  have "unat c < 2 ^ 16" using unat_u8_bound [of c] by simp
  then show ?thesis by (simp add: unsigned_ucast_eq take_bit_nat_eq_self)
qed

lemma unat_u16_read:
  "unat (u16_read be p0 p1) = (if be then unat p0 * 256 + unat p1 else unat p1 * 256 + unat p0)"
proof -
  have "unat (push_bit 8 (ucast (x :: u8)) OR ucast (y :: u8) :: u16) = unat x * 256 + unat y" for x y
    using unat_u8_bound [of x] unat_u8_bound [of y] by (subst unat_push_or) (simp_all add: unat_ucast_u8_u16)
  then show ?thesis by (simp add: u16_read_def)
qed

lemma u16_read_bytes:
  assumes "u < 65536"
  obtains p0 p1 where "u16_bytes be u = [p0, p1]" "unat (u16_read be p0 p1) = u"
proof -
  have "u div 256 < 256" "u mod 256 < 256" using assms by simp_all
  then have read: "unat (u16_read True (byte (u div 256)) (byte (u mod 256))) = u"
    "unat (u16_read False (byte (u mod 256)) (byte (u div 256))) = u"
    by (simp_all add: unat_u16_read)
  show thesis
  proof (cases be)
    case True
    with read(1) show ?thesis
      by (intro that [of "byte (u div 256)" "byte (u mod 256)"]) (simp_all add: u16_bytes_def)
  next
    case False
    with read(2) show ?thesis
      by (intro that [of "byte (u mod 256)" "byte (u div 256)"]) (simp_all add: u16_bytes_def)
  qed
qed

lemma u16_classes:
  "U16_IS_HIGH cu \<longleftrightarrow> 0xD800 \<le> unat cu \<and> unat cu \<le> 0xDBFF"
  "U16_IS_LOW cu \<longleftrightarrow> 0xDC00 \<le> unat cu \<and> unat cu \<le> 0xDFFF"
  by (simp_all add: U16_IS_HIGH_def U16_IS_LOW_def word_le_nat_alt)

lemma unat_ucast_u16_u32: "unat (ucast (c :: u16) :: u32) = unat c"
proof -
  have "unat c < 2 ^ 32" using unat_u16_bound [of c] by simp
  then show ?thesis by (simp add: unsigned_ucast_eq take_bit_nat_eq_self)
qed

lemma unat_U16_PAIR:
  assumes "U16_IS_HIGH hi" and "U16_IS_LOW lo"
  shows "unat (U16_PAIR hi lo) = 0x10000 + (unat hi - 0xD800) * 0x400 + (unat lo - 0xDC00)"
proof -
  have "(0xD800 :: u16) \<le> hi" "(0xDC00 :: u16) \<le> lo"
    using assms by (simp_all add: U16_IS_HIGH_def U16_IS_LOW_def)
  then have h: "unat (hi - 0xD800) = unat hi - 0xD800" and l: "unat (lo - 0xDC00) = unat lo - 0xDC00"
    by (simp_all add: unat_sub)
  have small: "unat hi - 0xD800 < 0x400" "unat lo - 0xDC00 < 0x400"
    using assms by (auto simp: u16_classes)
  have "unat (push_bit 10 (ucast (hi - 0xD800) :: u32)) = (unat hi - 0xD800) * 0x400"
    using small h by (simp add: unsigned_push_bit_eq unat_ucast_u16_u32 push_bit_eq_mult [where ?'a = nat] take_bit_nat_eq_self)
  then show ?thesis
    using small l by (simp add: U16_PAIR_def unat_word_ariths unat_ucast_u16_u32)
qed

lemma u16_pair_scalar:
  assumes "U16_IS_HIGH hi" and "U16_IS_LOW lo"
  obtains c where "scalar_value c" "U16_PAIR hi lo = word_of_nat c" "length (wtf8_char c) = 4"
proof -
  let ?c = "unat (U16_PAIR hi lo)"
  have "unat hi - 0xD800 < 0x400" "unat lo - 0xDC00 < 0x400"
    using assms by (auto simp: u16_classes)
  then have "0x10000 \<le> ?c" "?c < 0x110000" unfolding unat_U16_PAIR [OF assms] by simp_all
  then show thesis
    by (intro that [of ?c]) (simp_all add: scalar_value_def code_point_def surrogate_def wtf8_char_length)
qed

lemma u16_bmp_scalar:
  assumes "\<not> U16_IS_HIGH cu" and "\<not> U16_IS_LOW cu"
  shows "scalar_value (unat cu)" "ucast cu = (word_of_nat (unat cu) :: u32)" "length (wtf8_char (unat cu)) \<le> 3"
  using assms unat_u16_bound [of cu]
  by (auto simp: u16_classes scalar_value_def code_point_def surrogate_def wtf8_char_length
      word_unat_eq_iff unat_ucast_u16_u32 unsigned_of_nat take_bit_nat_eq_self)

declare utf16_decode_loop.simps(3) [simp del]

lemmas utf16_decode_loop_unit = utf16_decode_loop.simps(3)

lemma utf16_decode_loop_char:
  assumes "utf8proc_encodes enc" and "scalar_value c"
  shows "utf16_decode_loop enc fatal be stream (utf16_bytes be (utf16_char c) @ src) out =
    utf16_decode_loop enc fatal be stream src (out @ wtf8_char c)"
proof (cases "c < 0x10000")
  case True
  then obtain p0 p1 where p: "u16_bytes be c = [p0, p1]" "unat (u16_read be p0 p1) = c"
    using u16_read_bytes [of c be] by auto
  have "\<not> U16_IS_HIGH (u16_read be p0 p1)" "\<not> U16_IS_LOW (u16_read be p0 p1)"
    using p(2) assms(2) by (auto simp: u16_classes scalar_value_def surrogate_def)
  moreover from u16_bmp_scalar(1,2) [OF this] have "enc (ucast (u16_read be p0 p1)) = wtf8_char c"
    unfolding p(2) by (rule utf8proc_encodesD [OF assms(1)])
  ultimately show ?thesis
    using True p(1) by (simp add: utf16_decode_loop_unit utf16_char_def)
next
  case False
  let ?hi = "0xD800 + (c - 0x10000) div 0x400" and ?lo = "0xDC00 + (c - 0x10000) mod 0x400"
  have c: "c < 0x110000" using assms(2) by (simp add: scalar_value_def code_point_def)
  then have q: "(c - 0x10000) div 0x400 < 0x400" "(c - 0x10000) mod 0x400 < 0x400" by simp_all
  obtain p0 p1 where p: "u16_bytes be ?hi = [p0, p1]" "unat (u16_read be p0 p1) = ?hi"
    using u16_read_bytes [of ?hi be] q by auto
  obtain r0 r1 where r: "u16_bytes be ?lo = [r0, r1]" "unat (u16_read be r0 r1) = ?lo"
    using u16_read_bytes [of ?lo be] q by auto
  have hl: "U16_IS_HIGH (u16_read be p0 p1)" "U16_IS_LOW (u16_read be r0 r1)" "\<not> U16_IS_LOW (u16_read be p0 p1)"
    using p(2) r(2) q by (simp_all add: u16_classes)
  have "unat (U16_PAIR (u16_read be p0 p1) (u16_read be r0 r1)) = c"
    using unat_U16_PAIR [OF hl(1,2)] p(2) r(2) False by simp
  then have "U16_PAIR (u16_read be p0 p1) (u16_read be r0 r1) = word_of_nat c" by auto
  then have "enc (U16_PAIR (u16_read be p0 p1) (u16_read be r0 r1)) = wtf8_char c"
    using assms by (simp add: utf8proc_encodes_def)
  then show ?thesis
    using False p(1) r(1) hl by (simp add: utf16_decode_loop_unit utf16_char_def)
qed

lemma utf16_decode_loop_text:
  assumes "utf8proc_encodes enc" and "\<forall>c \<in> set cs. scalar_value c"
  shows "utf16_decode_loop enc fatal be stream (utf16_bytes be (utf16 cs) @ src) out =
    utf16_decode_loop enc fatal be stream src (out @ wtf8 cs)"
  using assms(2) by (induction cs arbitrary: out) (simp_all add: utf16_decode_loop_char [OF assms(1)])

lemma utf16_decode_loop_ok:
  assumes "utf8proc_encodes enc" and "valid_utf8 out"
  shows "case utf16_decode_loop enc fatal be stream src out of
      None \<Rightarrow> fatal
    | Some (res, pending) \<Rightarrow>
        valid_utf8 res \<and> length res \<le> length out + 3 * length src \<and> length pending \<le> 3"
  using assms
proof (induction enc fatal be stream src out rule: utf16_decode_loop.induct)
  case (2 enc fatal be stream p out)
  then show ?case using valid_utf8_append [OF _ valid_utf8_fffd, of out] by (auto simp: fffd_def)
next
  case (3 enc fatal be stream p0 p1 src out)
  let ?cu = "u16_read be p0 p1"
  have bad: "valid_utf8 (out @ fffd)" "valid_utf8 (out @ fffd @ fffd)"
    using "3.prems"(2) valid_utf8_fffd valid_utf8_append by (metis append.assoc)+
  consider (bmp) "\<not> U16_IS_HIGH ?cu" "\<not> U16_IS_LOW ?cu" | (low) "U16_IS_LOW ?cu"
    | (high) "U16_IS_HIGH ?cu" "\<not> U16_IS_LOW ?cu" by blast
  then show ?case
  proof cases
    case bmp
    have e: "enc (ucast ?cu) = wtf8_char (unat ?cu)"
      by (rule utf8proc_encodesD [OF "3.prems"(1) u16_bmp_scalar(1,2) [OF bmp]])
    then have "valid_utf8 (out @ enc (ucast ?cu))"
      using "3.prems"(2) valid_utf8_append valid_utf8_char [OF u16_bmp_scalar(1) [OF bmp]] by simp
    then show ?thesis
      using "3.IH"(1) [OF refl] bmp "3.prems"(1) u16_bmp_scalar(3) [OF bmp] e
      by (auto simp: utf16_decode_loop_unit split: option.splits prod.splits)
  next
    case low
    then show ?thesis
      using "3.IH"(2) [OF refl] "3.prems"(1) bad
      by (cases fatal) (auto simp: utf16_decode_loop_unit u16_classes fffd_def split: option.splits prod.splits)
  next
    case high
    consider (short) "length src < 2" | (more) q0 q1 src' where "src = q0 # q1 # src'"
      by (cases src; cases "tl src") auto
    then show ?thesis
    proof cases
      case short
      then have "utf16_decode_loop enc fatal be stream (p0 # p1 # src) out =
        (if stream then Some (out, p0 # p1 # src) else if fatal then None
         else Some (out @ fffd @ (if length src = 1 then fffd else []), []))"
        using high by (cases src; cases "tl src") (auto simp: utf16_decode_loop_unit)
      then show ?thesis using short bad "3.prems"(2) by (auto simp: fffd_def)
    next
      case more
      note IH = "3.IH"(3) [OF refl _ high(2) more refl refl] "3.IH"(4) [OF refl _ high(2) more refl refl]
      show ?thesis
      proof (cases "U16_IS_LOW (u16_read be q0 q1)")
        case True
        obtain c where c: "scalar_value c" "U16_PAIR ?cu (u16_read be q0 q1) = word_of_nat c" "length (wtf8_char c) = 4"
          using u16_pair_scalar [OF high(1) True] by blast
        note e = utf8proc_encodesD [OF "3.prems"(1) c(1,2)]
        have "valid_utf8 (out @ wtf8_char c)"
          using "3.prems"(2) valid_utf8_append valid_utf8_char [OF c(1)] by simp
        moreover have "utf16_decode_loop enc fatal be stream (p0 # p1 # src) out =
          utf16_decode_loop enc fatal be stream src' (out @ wtf8_char c)"
          using high True more e by (simp add: utf16_decode_loop_unit)
        ultimately show ?thesis
          using IH(1) high True "3.prems"(1) c(3) e more by (auto split: option.splits prod.splits)
      next
        case False
        then have "utf16_decode_loop enc fatal be stream (p0 # p1 # src) out =
          (if fatal then None else utf16_decode_loop enc fatal be stream src (out @ fffd))"
          using high more by (simp add: utf16_decode_loop_unit)
        then show ?thesis
          using IH(2) high False "3.prems"(1) bad more
          by (cases fatal) (auto simp: fffd_def split: option.splits prod.splits)
      qed
    qed
  qed
qed auto

end
