(* ===== verification/Surrogate_Text.thy ===== *)
theory Surrogate_Text
  imports Text_Decoding
begin

unbundle bit_operations_syntax

text \<open>
  Texts with unpaired surrogates. A string of the runtime is a list of code points in which the
  two halves of a pair may stand side by side, because concatenation of strings does not join
  them. Its scalar values (\<open>usv\<close>) join such halves and replace every other half by U+FFFD; they
  are what leaves the runtime. Each routine that exports text recognises halves by their bytes,
  so the section on bytes classifies the first two bytes of a character.
\<close>

section \<open>Scalar values of a text\<close>

definition high_surrogate :: "nat \<Rightarrow> bool" where
  "high_surrogate c \<longleftrightarrow> 0xD800 \<le> c \<and> c < 0xDC00"

definition low_surrogate :: "nat \<Rightarrow> bool" where
  "low_surrogate c \<longleftrightarrow> 0xDC00 \<le> c \<and> c < 0xE000"

lemma surrogate_halves: "surrogate c \<longleftrightarrow> high_surrogate c \<or> low_surrogate c"
  by (auto simp: surrogate_def high_surrogate_def low_surrogate_def)

lemma not_high_low [simp]: "high_surrogate c \<Longrightarrow> \<not> low_surrogate c"
  by (simp add: high_surrogate_def low_surrogate_def)

definition join_pair :: "nat \<Rightarrow> nat \<Rightarrow> nat" where
  "join_pair h l = 0x10000 + (h - 0xD800) * 0x400 + (l - 0xDC00)"

definition to_scalar :: "nat \<Rightarrow> nat" where
  "to_scalar c = (if surrogate c then 0xFFFD else c)"

fun usv :: "nat list \<Rightarrow> nat list" where
  "usv [] = []"
| "usv [c] = [to_scalar c]"
| "usv (c # d # cs) =
     (if high_surrogate c \<and> low_surrogate d then join_pair c d # usv cs
      else to_scalar c # usv (d # cs))"

lemma join_pair_bounds:
  assumes "high_surrogate h" and "low_surrogate l"
  shows "0x10000 \<le> join_pair h l" "join_pair h l < 0x110000"
  using assms by (auto simp: high_surrogate_def low_surrogate_def join_pair_def)

lemma scalar_join_pair: "high_surrogate h \<Longrightarrow> low_surrogate l \<Longrightarrow> scalar_value (join_pair h l)"
  using join_pair_bounds [of h l] by (simp add: scalar_value_def code_point_def surrogate_def)

lemma utf16_join_pair:
  assumes "high_surrogate h" and "low_surrogate l"
  shows "utf16_char (join_pair h l) = [h, l]"
proof -
  have l: "l - 0xDC00 < 0x400" using assms(2) by (auto simp: low_surrogate_def)
  have "join_pair h l - 0x10000 = (h - 0xD800) * 0x400 + (l - 0xDC00)" by (simp add: join_pair_def)
  then have "(join_pair h l - 0x10000) div 0x400 = h - 0xD800" "(join_pair h l - 0x10000) mod 0x400 = l - 0xDC00"
    using l by simp_all
  then show ?thesis
    using assms join_pair_bounds [OF assms] by (simp add: utf16_char_def high_surrogate_def low_surrogate_def)
qed

lemma scalar_to_scalar: "code_point c \<Longrightarrow> scalar_value (to_scalar c)"
  by (simp add: to_scalar_def scalar_value_def code_point_def surrogate_def)

lemma usv_scalars: "\<forall>c \<in> set cs. code_point c \<Longrightarrow> \<forall>c \<in> set (usv cs). scalar_value c"
  by (induction cs rule: usv.induct) (simp_all add: scalar_to_scalar scalar_join_pair)

lemma to_scalar_scalar: "scalar_value c \<Longrightarrow> to_scalar c = c"
  by (simp add: to_scalar_def scalar_value_def)

lemma usv_of_scalars: "\<forall>c \<in> set cs. scalar_value c \<Longrightarrow> usv cs = cs"
  by (induction cs rule: usv.induct)
    (simp_all add: to_scalar_scalar scalar_value_def surrogate_halves)

text \<open>Only a high surrogate at the end of a text looks at what follows.\<close>

lemma usv_append: "cs = [] \<or> \<not> high_surrogate (last cs) \<Longrightarrow> usv (cs @ ds) = usv cs @ usv ds"
proof (induction cs rule: usv.induct)
  case (2 c)
  then show ?case by (cases ds) simp_all
qed (auto split: if_splits)

lemma usv_Cons: "\<not> high_surrogate c \<Longrightarrow> usv (c # cs) = to_scalar c # usv cs"
  using usv_append [of "[c]" cs] by simp

section \<open>Bytes of surrogates\<close>

lemma ed_char:
  assumes "code_point c"
  shows "hd (wtf8_char c) = 0xED \<longleftrightarrow> 0xD000 \<le> c \<and> c < 0xE000"
  using assms
proof (cases rule: code_point_cases)
  case one
  then show ?thesis by (simp add: word_unat_eq_iff)
next
  case two
  then show ?thesis by (simp add: word_unat_eq_iff)
next
  case three
  then have "hd (wtf8_char c) = 0xED \<longleftrightarrow> c div 4096 = 13" by (simp add: word_unat_eq_iff)
  also have "\<dots> \<longleftrightarrow> 0xD000 \<le> c \<and> c < 0xE000" by auto
  finally show ?thesis .
next
  case four
  then show ?thesis by (simp add: word_unat_eq_iff)
qed

lemma ed_bytes:
  assumes "0xD000 \<le> c" and "c < 0xE000"
  shows "wtf8_char c = [0xED, byte (0x80 + (c - 0xD000) div 64), byte (0x80 + c mod 64)]"
    "(c - 0xD000) div 64 < 64"
proof -
  obtain r where r: "c = 0xD000 + r" "r < 0x1000"
    using assms by (intro that [of "c - 0xD000"]) simp_all
  then have "c div 4096 = 13" "c div 64 = 64 * 13 + r div 64" "r div 64 < 64" by simp_all
  then have "c div 4096 = 13" "c div 64 mod 64 = r div 64" "r div 64 < 64" using mod_mult_self4 [of 64 13 "r div 64"] by simp_all
  then show "wtf8_char c = [0xED, byte (0x80 + (c - 0xD000) div 64), byte (0x80 + c mod 64)]"
    "(c - 0xD000) div 64 < 64"
    using r by (simp_all add: wtf8_char_def byte_def)
qed

lemma surrogate_bytes:
  assumes "surrogate c"
  obtains y z where "wtf8_char c = [0xED, y, z]" "0xA0 \<le> unat y" "unat y \<le> 0xBF" "0x80 \<le> unat z" "unat z < 0xC0"
    "high_surrogate c \<longleftrightarrow> unat y \<le> 0xAF" "unat y = 0x80 + (c - 0xD000) div 64" "unat z = 0x80 + c mod 64"
    "c = 0xD000 + unat y mod 64 * 64 + unat z mod 64"
proof -
  let ?y = "0x80 + (c - 0xD000) div 64" and ?z = "0x80 + c mod 64"
  have c: "0xD800 \<le> c" "c < 0xE000" using assms by (simp_all add: surrogate_def)
  then have b: "wtf8_char c = [0xED, byte ?y, byte ?z]" "(c - 0xD000) div 64 < 64"
    using ed_bytes [of c] by simp_all
  have y: "unat (byte ?y) = ?y" "unat (byte ?z) = ?z" using b(2) by simp_all
  have m: "(c - 0xD000) mod 64 = c mod 64"
  proof -
    have "c mod 64 = (0xD000 + (c - 0xD000)) mod 64" using c by simp
    also have "\<dots> = (c - 0xD000) mod 64" by (simp add: mod_add_left_eq [symmetric])
    finally show ?thesis by simp
  qed
  have low: "?y mod 64 = (c - 0xD000) div 64" "?z mod 64 = c mod 64"
    using b(2) by (simp_all add: mod_add_left_eq [symmetric])
  show ?thesis
  proof (rule that [OF b(1)])
    show "0xA0 \<le> unat (byte ?y)" "unat (byte ?y) \<le> 0xBF" "0x80 \<le> unat (byte ?z)" "unat (byte ?z) < 0xC0"
      using c unfolding y by simp_all
    show "high_surrogate c \<longleftrightarrow> unat (byte ?y) \<le> 0xAF"
      using c unfolding y by (auto simp: high_surrogate_def)
    show "c = 0xD000 + unat (byte ?y) mod 64 * 64 + unat (byte ?z) mod 64"
      using c m div_mult_mod_eq [of "c - 0xD000" 64] low unfolding y by linarith
  qed (use y in simp_all)
qed

lemma wtf8_char_tail: "b \<in> set (tl (wtf8_char c)) \<Longrightarrow> 0x80 \<le> unat b \<and> unat b < 0xC0"
  by (auto simp: wtf8_char_def split: if_splits)

text \<open>The byte 0xED only starts a character, and then one of three bytes.\<close>

lemma wtf8_last_ed:
  assumes "\<forall>c \<in> set cs. code_point c" and "wtf8 cs = u @ [0xED, y, z]"
  shows "\<exists>ds c. cs = ds @ [c] \<and> u = wtf8 ds \<and> wtf8_char c = [0xED, y, z]"
  using assms
proof (induction cs arbitrary: u)
  case (Cons c cs)
  have "wtf8_char c @ wtf8 cs = u @ [0xED, y, z]" using Cons.prems(2) by simp
  then consider (later) v where "u = wtf8_char c @ v" "wtf8 cs = v @ [0xED, y, z]"
    | (here) v where "wtf8_char c = u @ v" "v @ wtf8 cs = [0xED, y, z]" "v \<noteq> []"
    by (auto simp: append_eq_append_conv2) (metis append_Nil append_Nil2)
  then show ?case
  proof cases
    case later
    from Cons.IH [OF _ later(2)] Cons.prems(1) obtain ds d
      where "cs = ds @ [d]" "v = wtf8 ds" "wtf8_char d = [0xED, y, z]" by auto
    then show ?thesis using later(1) by (intro exI [of _ "c # ds"] exI [of _ d]) simp
  next
    case here
    then obtain w where v: "v = 0xED # w" by (cases v) auto
    have "u = []"
    proof (rule ccontr)
      assume "u \<noteq> []"
      then have "0xED \<in> set (tl (wtf8_char c))" using here(1) v by (cases u) auto
      then show False using wtf8_char_tail [of "0xED" c] by simp
    qed
    then have ch: "wtf8_char c = 0xED # w" using here(1) v by simp
    then have "0xD000 \<le> c" "c < 0xE000" using ed_char [of c] Cons.prems(1) by simp_all
    then have "length (wtf8_char c) = 3" by (simp only: wtf8_char_length) simp
    then obtain p q where "w = [p, q]" using ch by (auto simp: length_Suc_conv numeral_eq_Suc)
    with ch here(2) v have "wtf8 cs = []" "wtf8_char c = [0xED, y, z]" by simp_all
    then show ?thesis using \<open>u = []\<close> by (intro exI [of _ "[]"] exI [of _ c]) (cases cs, auto)
  qed
qed simp

text \<open>A text keeps its scalar values apart wherever the right part does not start with a low half.\<close>

lemma usv_split: "\<not> low_surrogate d \<Longrightarrow> usv (cs @ d # ds) = usv cs @ usv (d # ds)"
proof (induction cs rule: usv.induct)
  case (3 c e cs)
  then show ?case by auto
qed simp_all

end
