(* ===== verification/Text_Streams.thy ===== *)
theory Text_Streams
  imports Text_Decoding
begin

text \<open>
  The decoder object over several calls. A call keeps the bytes of an unfinished character for
  the next one, so the text of a stream does not depend on how its bytes were cut into chunks.
\<close>

section \<open>Output is only ever appended\<close>

lemma whatwg_run_prefix:
  "whatwg_run enc fatal stream pos src dec (p @ out) =
    apfst (map_option (append p)) (whatwg_run enc fatal stream pos src dec out)"
proof (induction enc fatal stream pos src dec out rule: whatwg_run.induct)
  case (2 enc fatal stream b src dec out)
  then show ?case by (cases rule: whatwg_tbl_cases [of b]) (simp_all add: whatwg_run.simps(2))
qed (simp_all add: whatwg_run.simps(5))

lemmas whatwg_run_from = whatwg_run_prefix [where out = "[]", unfolded append_Nil2]

lemma whatwg_run_ignore_bom:
  "ud_ignore_bom (snd (whatwg_run enc fatal stream pos src dec out)) = ud_ignore_bom dec"
proof (induction enc fatal stream pos src dec out rule: whatwg_run.induct)
  case (2 enc fatal stream b src dec out)
  then show ?case by (cases rule: whatwg_tbl_cases [of b]) (simp_all add: whatwg_run.simps(2))
qed (simp_all add: whatwg_run.simps(5))

lemma utf16_decode_loop_prefix:
  "utf16_decode_loop enc fatal be stream src (p @ out) =
    map_option (apfst (append p)) (utf16_decode_loop enc fatal be stream src out)"
proof (induction enc fatal be stream src out rule: utf16_decode_loop.induct)
  case (3 enc fatal be stream p0 p1 src out)
  note IH = 3
  consider (short) "length src < 2" | (more) q0 q1 src' where "src = q0 # q1 # src'"
    by (cases src; cases "tl src") auto
  then show ?case
  proof cases
    case short
    then show ?thesis
      using IH(1,2) by (cases src; cases "tl src") (auto simp: utf16_decode_loop_unit Let_def)
  next
    case more
    then show ?thesis using IH by (auto simp: utf16_decode_loop_unit Let_def)
  qed
qed simp_all

lemma utf16_decode_loop_split:
  "utf16_decode_loop enc fatal be stream (a @ b) out =
    (case utf16_decode_loop enc fatal be True a out of
       None \<Rightarrow> None
     | Some (res, pending) \<Rightarrow> utf16_decode_loop enc fatal be stream (pending @ b) res)"
proof (induction enc fatal be "True" a out rule: utf16_decode_loop.induct)
  case (3 enc fatal be p0 p1 src out)
  note IH = 3
  consider (short) "length src < 2" | (more) q0 q1 src' where "src = q0 # q1 # src'"
    by (cases src; cases "tl src") auto
  then show ?case
  proof cases
    case short
    show ?thesis
    proof (cases "U16_IS_HIGH (u16_read be p0 p1) \<and> \<not> U16_IS_LOW (u16_read be p0 p1)")
      case True
      then have "utf16_decode_loop enc fatal be True (p0 # p1 # src) out = Some (out, p0 # p1 # src)"
        using short by (cases src; cases "tl src") (auto simp: utf16_decode_loop_unit)
      then show ?thesis by simp
    next
      case False
      then show ?thesis using IH(1,2) by (auto simp: utf16_decode_loop_unit Let_def)
    qed
  next
    case more
    then show ?thesis using IH by (auto simp: utf16_decode_loop_unit Let_def)
  qed
qed simp_all

section \<open>Cutting the input in two\<close>

text \<open>With memory for its buffers a call decodes the pending bytes followed by the input.\<close>

definition append_text :: "bytes \<Rightarrow> td_result \<Rightarrow> td_result" where
  "append_text o1 r = (case r of TdText o2 \<Rightarrow> TdText (o1 @ o2) | _ \<Rightarrow> r)"

definition td_two :: "mem_env \<Rightarrow> (u32 \<Rightarrow> bytes) \<Rightarrow> td_state \<Rightarrow> bytes \<Rightarrow> bytes \<Rightarrow> bool \<Rightarrow> td_result" where
  "td_two m enc st a b stream =
     (case td_decode m enc st a True of
        (TdText o1, st1) \<Rightarrow> append_text o1 (fst (td_decode m enc st1 b stream))
      | (r, st1) \<Rightarrow> r)"

lemma append_text_Nil [simp]: "append_text [] r = r"
  by (cases r) (simp_all add: append_text_def)

lemma td_decode_empty:
  "ample_memory m \<Longrightarrow> td_pending st = [] \<Longrightarrow> td_decode m enc st [] stream =
    (TdText [], if stream then st else st\<lparr>td_bom_seen := False\<rparr>)"
  by (simp add: td_decode_def)

abbreviation td_dec :: "td_state \<Rightarrow> utf8_dec" where
  "td_dec st \<equiv> \<lparr>ud_ignore_bom = td_ignore_bom st, ud_bom_seen = td_bom_seen st, ud_pend = []\<rparr>"

lemma td_decode_utf8_run:
  assumes "ample_memory m" and "td_encoding st = TD_ENC_UTF8" and "td_pending st @ b \<noteq> []"
    and "whatwg_run enc (td_fatal st) stream Dispatch (td_pending st @ b) (td_dec st) [] = (n, dec)"
  shows "td_decode m enc st b stream =
    (case n of None \<Rightarrow> TdInvalidData | Some out \<Rightarrow> TdText out,
     st\<lparr>td_pending := ud_pend dec, td_bom_seen := (if stream then ud_bom_seen dec else False)\<rparr>)"
  using assms
  by (cases n) (auto simp: td_decode_def utf8_whatwg_decode_def Let_def)

lemma td_decode_utf8:
  assumes "ample_memory m" and "td_encoding st = TD_ENC_UTF8"
  shows "fst (td_decode m enc st b stream) =
    (case fst (whatwg_run enc (td_fatal st) stream Dispatch (td_pending st @ b) (td_dec st) []) of
       None \<Rightarrow> TdInvalidData | Some out \<Rightarrow> TdText out)"
proof (cases "td_pending st @ b = []")
  case True
  then show ?thesis using assms(1) by (simp add: td_decode_empty)
next
  case False
  then show ?thesis
    using td_decode_utf8_run [OF assms False prod.collapse [symmetric]] by simp
qed

lemma td_two_utf8:
  assumes "ample_memory m" and "td_encoding st = TD_ENC_UTF8" and "td_pending st @ a \<noteq> []"
  shows "fst (td_decode m enc st (a @ b) stream) = td_two m enc st a b stream"
proof -
  obtain n dec where run: "whatwg_run enc (td_fatal st) True Dispatch (td_pending st @ a) (td_dec st) [] = (n, dec)"
    by (cases "whatwg_run enc (td_fatal st) True Dispatch (td_pending st @ a) (td_dec st) []")
  note first = td_decode_utf8_run [OF assms(1,2,3) run]
  note both = whatwg_run_split [of Dispatch "td_dec st" enc "td_fatal st" stream "td_pending st @ a" b "[]"]
    td_decode_utf8 [OF assms(1,2), of enc "a @ b" stream]
  show ?thesis
  proof (cases n)
    case None
    then show ?thesis using first both run by (simp add: td_two_def)
  next
    case (Some res)
    define st1 where "st1 = st\<lparr>td_pending := ud_pend dec, td_bom_seen := ud_bom_seen dec\<rparr>"
    have dec: "dec\<lparr>ud_pend := []\<rparr> = td_dec st1"
      using whatwg_run_ignore_bom [of enc "td_fatal st" True Dispatch "td_pending st @ a" "td_dec st" "[]"] run
      by (cases dec) (simp add: st1_def)
    have second: "fst (td_decode m enc st1 b stream) =
      (case fst (whatwg_run enc (td_fatal st) stream Dispatch (ud_pend dec @ b) (td_dec st1) []) of
         None \<Rightarrow> TdInvalidData | Some out \<Rightarrow> TdText out)"
      using td_decode_utf8 [OF assms(1), of st1] assms(2) by (simp add: st1_def)
    have first': "td_decode m enc st a True = (TdText res, st1)" using first Some by (simp add: st1_def)
    have "fst (whatwg_run enc (td_fatal st) stream Dispatch (td_pending st @ a @ b) (td_dec st) []) =
      map_option (append res) (fst (whatwg_run enc (td_fatal st) stream Dispatch (ud_pend dec @ b) (td_dec st1) []))"
      using both(1) run Some
        whatwg_run_from [of enc "td_fatal st" stream Dispatch "ud_pend dec @ b" "td_dec st1" res]
      by (simp add: dec)
    with both(2) second first' show ?thesis
      by (simp add: td_two_def append_text_def split: option.splits)
  qed
qed

lemmas utf16_decode_loop_from = utf16_decode_loop_prefix [where out = "[]", unfolded append_Nil2]

text \<open>The input after the byte order mark, if the decoder looks for one, and whether it did.\<close>

definition after_bom :: "bool \<Rightarrow> td_state \<Rightarrow> bytes \<Rightarrow> bytes \<times> bool" where
  "after_bom be st src =
     (if td_bom_seen st then (src, True)
      else case src of
          p0 # p1 # rest \<Rightarrow> (if u16_read be p0 p1 = 0xFEFF \<and> \<not> td_ignore_bom st then rest else src, True)
        | _ \<Rightarrow> (src, False))"

lemma after_bom_pending [simp]: "after_bom be (st\<lparr>td_pending := p\<rparr>) src = after_bom be st src"
  by (simp add: after_bom_def split: list.splits)

lemma utf16_decode_after_bom:
  assumes "after_bom be st src = (rest, seen)" and "be = (td_encoding st = TD_ENC_UTF16BE)"
  shows "utf16_decode enc st src stream =
    (case utf16_decode_loop enc (td_fatal st) be stream rest [] of
       None \<Rightarrow> (None, st\<lparr>td_bom_seen := seen\<rparr>)
     | Some (out, pending) \<Rightarrow> (Some out, st\<lparr>td_pending := pending, td_bom_seen := seen\<rparr>))"
proof (cases "td_bom_seen st")
  case True
  then have "st\<lparr>td_bom_seen := True\<rparr> = st" by simp
  with True show ?thesis using assms
    by (auto simp: after_bom_def utf16_decode_def split: option.splits)
next
  case False
  then have st: "st\<lparr>td_bom_seen := False\<rparr> = st" by simp
  consider "src = []" | p where "src = [p]" | p0 p1 r where "src = p0 # p1 # r"
    by (cases src; cases "tl src") auto
  then show ?thesis
    using False assms st by cases (auto simp: after_bom_def utf16_decode_def split: option.splits)
qed

lemma td_decode_utf16:
  assumes "ample_memory m" and "td_encoding st \<in> {TD_ENC_UTF16LE, TD_ENC_UTF16BE}"
    and "be = (td_encoding st = TD_ENC_UTF16BE)" and "td_pending st @ b \<noteq> []"
    and "after_bom be st (td_pending st @ b) = (rest, seen)"
  shows "td_decode m enc st b stream =
    (case utf16_decode_loop enc (td_fatal st) be stream rest [] of
       None \<Rightarrow> (TdInvalidData, st\<lparr>td_pending := [], td_bom_seen := seen\<rparr>)
     | Some (out, pending) \<Rightarrow>
         (TdText out, st\<lparr>td_pending := pending, td_bom_seen := (if stream then seen else False)\<rparr>))"
proof -
  have "after_bom be (st\<lparr>td_pending := []\<rparr>) (td_pending st @ b) = (rest, seen)"
    using assms(5) by simp
  note run = utf16_decode_after_bom [OF this, of enc stream]
  have "td_decode m enc st b stream =
    (case utf16_decode enc (st\<lparr>td_pending := []\<rparr>) (td_pending st @ b) stream of
       (None, st1) \<Rightarrow> (TdInvalidData, st1)
     | (Some out, st1) \<Rightarrow> (TdText out, if stream then st1 else st1\<lparr>td_bom_seen := False\<rparr>))"
    using assms(1,2,4) by (auto simp: td_decode_def Let_def split: prod.splits option.splits)
  with run assms(3) show ?thesis by (cases "utf16_decode_loop enc (td_fatal st) be stream rest []") auto
qed

text \<open>The bytes pending and the bytes of a call are one input.\<close>

lemma td_decode_pending:
  "ample_memory m \<Longrightarrow>
    td_decode m enc (st\<lparr>td_pending := td_pending st @ a\<rparr>) b stream = td_decode m enc st (a @ b) stream"
  by (cases "td_pending st @ a @ b = []") (auto simp: td_decode_def Let_def)

lemma td_two_utf16:
  assumes "ample_memory m" and "td_encoding st \<in> {TD_ENC_UTF16LE, TD_ENC_UTF16BE}" and "td_pending st @ a \<noteq> []"
  shows "fst (td_decode m enc st (a @ b) stream) = td_two m enc st a b stream"
proof -
  define be where "be \<longleftrightarrow> td_encoding st = TD_ENC_UTF16BE"
  obtain rest seen where bom: "after_bom be st (td_pending st @ a) = (rest, seen)"
    by (cases "after_bom be st (td_pending st @ a)")
  note first = td_decode_utf16 [OF assms(1,2) be_def assms(3) bom, of enc True]
  show ?thesis
  proof (cases seen)
    case False
    then obtain p where p: "td_pending st @ a = [p]" and one: "rest = td_pending st @ a" "\<not> td_bom_seen st"
      using bom assms(3) by (cases "td_pending st @ a"; cases "tl (td_pending st @ a)")
        (auto simp: after_bom_def split: if_splits)
    have "st\<lparr>td_pending := [p], td_bom_seen := False\<rparr> = st\<lparr>td_pending := td_pending st @ a\<rparr>"
      using one(2) p by simp
    then show ?thesis
      using first one(1) p False td_decode_pending [OF assms(1), of enc st a b stream] by (simp add: td_two_def)
  next
    case True
    have whole: "after_bom be st (td_pending st @ a @ b) = (rest @ b, True)"
      using bom True by (auto simp: after_bom_def append_eq_Cons_conv Cons_eq_append_conv
          split: if_splits list.splits)
    have "td_pending st @ a @ b \<noteq> []" using assms(3) by auto
    note both = td_decode_utf16 [OF assms(1,2) be_def this whole, of enc stream]
    show ?thesis
    proof (cases "utf16_decode_loop enc (td_fatal st) be True rest []")
      case None
      then show ?thesis
        using first both assms(3) utf16_decode_loop_split [of enc "td_fatal st" be stream rest b "[]"]
        by (simp add: td_two_def)
    next
      case (Some rp)
      obtain res pending where rp: "rp = (res, pending)" by (cases rp)
      define st1 where "st1 = st\<lparr>td_pending := pending, td_bom_seen := True\<rparr>"
      have st1: "td_encoding st1 \<in> {TD_ENC_UTF16LE, TD_ENC_UTF16BE}" "be = (td_encoding st1 = TD_ENC_UTF16BE)"
        "after_bom be st1 (td_pending st1 @ b) = (pending @ b, True)" "td_fatal st1 = td_fatal st"
        using assms(2) by (simp_all add: st1_def be_def after_bom_def)
      have second: "fst (td_decode m enc st1 b stream) =
        (case utf16_decode_loop enc (td_fatal st) be stream (pending @ b) [] of
           None \<Rightarrow> TdInvalidData | Some (out, _) \<Rightarrow> TdText out)"
      proof (cases "td_pending st1 @ b = []")
        case True
        then show ?thesis using assms(1) by (simp add: td_decode_empty st1_def)
      next
        case False
        then show ?thesis
          using td_decode_utf16 [OF assms(1) st1(1,2) False st1(3), of enc stream] st1(4)
          by (simp split: option.splits prod.splits)
      qed
      have "td_decode m enc st a True = (TdText res, st1)" using first Some rp True by (simp add: st1_def)
      moreover have "fst (td_decode m enc st (a @ b) stream) =
        (case utf16_decode_loop enc (td_fatal st) be stream (pending @ b) res of
           None \<Rightarrow> TdInvalidData | Some (out, _) \<Rightarrow> TdText out)"
        using both assms(3) utf16_decode_loop_split [of enc "td_fatal st" be stream rest b "[]"] Some rp
        by (simp split: option.splits prod.splits)
      ultimately show ?thesis
        using second utf16_decode_loop_from [of enc "td_fatal st" be stream "pending @ b" res]
        by (simp add: td_two_def append_text_def split: option.splits prod.splits)
    qed
  qed
qed

lemma decode_single_byte_append:
  "decode_single_byte enc e (a @ b) = decode_single_byte enc e a @ decode_single_byte enc e b"
  by (simp add: decode_single_byte_def)

lemma td_decode_single:
  assumes "ample_memory m" and "td_encoding st \<in> {TD_ENC_WINDOWS_1252, TD_ENC_ISO_8859_2}"
  shows "fst (td_decode m enc st b stream) = TdText (decode_single_byte enc (td_encoding st) (td_pending st @ b))"
    and "td_pending st @ b \<noteq> [] \<Longrightarrow> snd (td_decode m enc st b stream) = st\<lparr>td_pending := [], td_bom_seen := False\<rparr>"
  using assms by (auto simp: td_decode_def Let_def decode_single_byte_def)

lemma td_two_single:
  assumes "ample_memory m" and "td_encoding st \<in> {TD_ENC_WINDOWS_1252, TD_ENC_ISO_8859_2}" and "td_pending st @ a \<noteq> []"
  shows "fst (td_decode m enc st (a @ b) stream) = td_two m enc st a b stream"
proof -
  let ?st1 = "st\<lparr>td_pending := [], td_bom_seen := False\<rparr>"
  have "td_decode m enc st a True = (TdText (decode_single_byte enc (td_encoding st) (td_pending st @ a)), ?st1)"
    using td_decode_single(1) [OF assms(1,2), of enc a True] td_decode_single(2) [OF assms, of enc True]
    by (simp add: prod_eq_iff)
  then show ?thesis
    using td_decode_single(1) [OF assms(1), of ?st1 enc b stream] td_decode_single(1) [OF assms(1,2), of enc "a @ b" stream]
      assms(2) decode_single_byte_append [of enc "td_encoding st" "td_pending st @ a" b]
    by (simp add: td_two_def append_text_def)
qed

lemma td_two_decode:
  assumes "ample_memory m"
  shows "fst (td_decode m enc st (a @ b) stream) = td_two m enc st a b stream"
proof (cases "td_pending st @ a = []")
  case True
  then show ?thesis using assms by (simp add: td_two_def td_decode_empty)
next
  case False
  then show ?thesis
    using td_two_utf8 [OF assms _ False] td_two_utf16 [OF assms _ False] td_two_single [OF assms _ False]
    by (cases "td_encoding st") simp_all
qed

end
