(* ===== verification/Codec_Streams.thy ===== *)
theory Codec_Streams
  imports Surrogate_Text Text_Streams
begin

unbundle bit_operations_syntax

text \<open>
  The text codec streams (\<^verbatim>\<open>src/streams/codec.c\<close>): the transform and flush callbacks of
  \<^verbatim>\<open>TextEncoderStream\<close> and \<^verbatim>\<open>TextDecoderStream\<close>. A callback returns undefined, enqueues one chunk on
  its controller, or fails; \<open>ctrl\<close> says whether the object it was given is a controller. A chunk of
  the encoder is the string of the chunk value, \<open>None\<close> when the conversion to a string throws; a
  chunk of the decoder is \<open>None\<close> when it is not a buffer source.
\<close>

section \<open>Callbacks\<close>

datatype codec_error = CodecOutOfMemory | CodecInvalidData | CodecNotBufferSource | CodecNoController | CodecThrown

datatype codec_result = CodecUndefined | CodecEnqueue bytes | CodecError codec_error

record tes_state =
  tes_pending :: bytes

definition tes_new :: tes_state where
  "tes_new = \<lparr>tes_pending = []\<rparr>"

text \<open>The code point of a half, and the four bytes of a pair, as the loop computes them.\<close>

definition tes_half :: "u8 \<Rightarrow> u8 \<Rightarrow> u32" where
  "tes_half b c = push_bit 12 0x0D OR push_bit 6 (ucast (b AND 0x3F)) OR ucast (c AND 0x3F)"

definition tes_pair :: "u32 \<Rightarrow> u32 \<Rightarrow> bytes" where
  "tes_pair hi_cp lo_cp =
     (let cp = 0x10000 + push_bit 10 (hi_cp - 0xD800) + (lo_cp - 0xDC00)
      in [ucast (0xF0 OR drop_bit 18 cp), ucast (0x80 OR (drop_bit 12 cp AND 0x3F)),
          ucast (0x80 OR (drop_bit 6 cp AND 0x3F)), ucast (0x80 OR (cp AND 0x3F))])"

text \<open>The loop of the encoder; the list is the part of the buffer from \<^verbatim>\<open>i\<close> to \<^verbatim>\<open>out_len\<close>.\<close>

function tes_loop :: "bytes \<Rightarrow> bytes \<Rightarrow> bytes" where
  "tes_loop buf out =
     (if buf = [] then out
      else if 5 < length buf \<and> buf ! 0 = 0xED \<and> buf ! 1 \<ge> 0xA0 \<and> buf ! 1 \<le> 0xAF
          \<and> buf ! 3 = 0xED \<and> buf ! 4 \<ge> 0xB0 \<and> buf ! 4 \<le> 0xBF
      then tes_loop (drop 6 buf) (out @ tes_pair (tes_half (buf ! 1) (buf ! 2)) (tes_half (buf ! 4) (buf ! 5)))
      else if buf ! 0 = 0xED \<and> 2 < length buf \<and> buf ! 1 \<ge> 0xA0 \<and> buf ! 1 \<le> 0xBF
      then tes_loop (drop 3 buf) (out @ [0xEF, 0xBF, 0xBD])
      else tes_loop (drop 1 buf) (out @ [buf ! 0]))"
  by pat_completeness auto
termination
  by (relation "measure (\<lambda>(buf, out). length buf)") auto

declare tes_loop.simps [simp del]

text \<open>\<^verbatim>\<open>sizeof(ArrayBufferData)\<close> is \<open>ab_size\<close>.\<close>

definition ab_size :: nat where
  "ab_size = 40"

definition tes_transform :: "mem_env \<Rightarrow> bool \<Rightarrow> tes_state \<Rightarrow> bytes option \<Rightarrow> codec_result \<times> tes_state" where
  "tes_transform m ctrl st chunk =
     (case chunk of
        None \<Rightarrow> (CodecError CodecThrown, st)
      | Some str \<Rightarrow>
          let total = length (tes_pending st) + length str
          in if total = 0 then (CodecUndefined, st)
             else if \<not> alloc_ok m total then (CodecError CodecOutOfMemory, st)
             else
               let buf = tes_pending st @ str;
                   hold = (total \<ge> 3 \<and> buf ! (total - 3) = 0xED
                     \<and> buf ! (total - 2) \<ge> 0xA0 \<and> buf ! (total - 2) \<le> 0xAF);
                   st1 = st\<lparr>tes_pending := (if hold then drop (total - 3) buf else [])\<rparr>;
                   out_len = (if hold then total - 3 else total)
               in if out_len = 0 then (CodecUndefined, st1)
                  else if \<not> alloc_ok m (out_len * 4 div 3 + 4) then (CodecError CodecOutOfMemory, st1)
                  else
                    let out = tes_loop (take out_len buf) []
                    in if \<not> alloc_ok m (ab_size + length out) then (CodecError CodecOutOfMemory, st1)
                       else if ctrl then (CodecEnqueue out, st1)
                       else (CodecError CodecNoController, st1))"

definition tes_flush :: "mem_env \<Rightarrow> bool \<Rightarrow> tes_state \<Rightarrow> codec_result \<times> tes_state" where
  "tes_flush m ctrl st =
     (if tes_pending st \<noteq> [] then
        if \<not> alloc_ok m (ab_size + 3) then (CodecError CodecOutOfMemory, st)
        else (if ctrl then CodecEnqueue [0xEF, 0xBF, 0xBD] else CodecError CodecNoController,
              st\<lparr>tes_pending := []\<rparr>)
      else (CodecUndefined, st))"

definition codec_text :: "bool \<Rightarrow> td_result \<Rightarrow> codec_result" where
  "codec_text ctrl r =
     (case r of
        TdNoMemory \<Rightarrow> CodecError CodecOutOfMemory
      | TdInvalidData \<Rightarrow> CodecError CodecInvalidData
      | TdText t \<Rightarrow>
          if t \<noteq> [] then (if ctrl then CodecEnqueue t else CodecError CodecNoController)
          else CodecUndefined)"

definition tds_transform ::
  "mem_env \<Rightarrow> (u32 \<Rightarrow> bytes) \<Rightarrow> bool \<Rightarrow> td_state \<Rightarrow> bytes option \<Rightarrow> codec_result \<times> td_state" where
  "tds_transform m enc ctrl st chunk =
     (case chunk of
        None \<Rightarrow> (CodecError CodecNotBufferSource, st)
      | Some input \<Rightarrow> apfst (codec_text ctrl) (td_decode m enc st input True))"

definition tds_flush :: "mem_env \<Rightarrow> (u32 \<Rightarrow> bytes) \<Rightarrow> bool \<Rightarrow> td_state \<Rightarrow> codec_result \<times> td_state" where
  "tds_flush m enc ctrl st = apfst (codec_text ctrl) (td_decode m enc st [] False)"

text \<open>The label table of \<^verbatim>\<open>TextDecoderStream\<close>, a second and shorter copy of the one of \<^verbatim>\<open>TextDecoder\<close>.\<close>

definition tds_labels :: "(string \<times> nat \<times> td_encoding) list" where
  "tds_labels =
     [(''unicode-1-1-utf-8'', 17, TD_ENC_UTF8), (''unicode11utf8'', 13, TD_ENC_UTF8),
      (''unicode20utf8'', 13, TD_ENC_UTF8), (''utf-8'', 5, TD_ENC_UTF8),
      (''utf8'', 4, TD_ENC_UTF8), (''x-unicode20utf8'', 17, TD_ENC_UTF8),
      (''windows-1252'', 12, TD_ENC_WINDOWS_1252), (''ascii'', 5, TD_ENC_WINDOWS_1252),
      (''unicodefffe'', 11, TD_ENC_UTF16BE), (''utf-16be'', 8, TD_ENC_UTF16BE),
      (''csunicode'', 9, TD_ENC_UTF16LE), (''iso-10646-ucs-2'', 16, TD_ENC_UTF16LE),
      (''ucs-2'', 5, TD_ENC_UTF16LE), (''unicode'', 7, TD_ENC_UTF16LE),
      (''unicodefeff'', 11, TD_ENC_UTF16LE), (''utf-16'', 6, TD_ENC_UTF16LE),
      (''utf-16le'', 8, TD_ENC_UTF16LE),
      (''iso-8859-2'', 10, TD_ENC_ISO_8859_2)]"

definition tds_resolve_encoding :: "bytes \<Rightarrow> nat \<Rightarrow> td_encoding option" where
  "tds_resolve_encoding s len =
     map_option (snd \<circ> snd)
       (find (\<lambda>(label, n, e). if len = n then strncasecmp_eq s (ascii label) len else False) tds_labels)"

section \<open>A stream session\<close>

text \<open>
  A session is what a transform stream does with a list of chunks: one transform call per chunk
  and one flush; \<open>None\<close> when a call fails, otherwise the concatenation of the chunks enqueued.
\<close>

definition codec_outcome :: "codec_result \<Rightarrow> bytes option" where
  "codec_outcome r = (case r of CodecUndefined \<Rightarrow> Some [] | CodecEnqueue t \<Rightarrow> Some t | CodecError _ \<Rightarrow> None)"

fun session :: "('s \<Rightarrow> 'c \<Rightarrow> codec_result \<times> 's) \<Rightarrow> ('s \<Rightarrow> codec_result \<times> 's) \<Rightarrow> 's \<Rightarrow> 'c list \<Rightarrow> bytes option" where
  "session transform flush st [] = codec_outcome (fst (flush st))"
| "session transform flush st (chunk # chunks) =
     (let (r, st1) = transform st chunk
      in case codec_outcome r of
          None \<Rightarrow> None
        | Some t \<Rightarrow> map_option (append t) (session transform flush st1 chunks))"

text \<open>
  The contract of a codec: one call on two inputs in a row gives what two calls give. Then a
  session does not depend on the chunks.
\<close>

locale chunked_codec =
  fixes transform :: "'s \<Rightarrow> 'a list \<Rightarrow> codec_result \<times> 's"
    and flush :: "'s \<Rightarrow> codec_result \<times> 's"
    and run :: "'s \<Rightarrow> 'a list \<Rightarrow> bytes option"
    and ready :: "'s \<Rightarrow> bool"
    and elem :: "'a \<Rightarrow> bool"
  assumes flush_run: "ready st \<Longrightarrow> codec_outcome (fst (flush st)) = run st []"
    and transform_ready: "ready st \<Longrightarrow> list_all elem a \<Longrightarrow> ready (snd (transform st a))"
    and transform_run: "ready st \<Longrightarrow> list_all elem a \<Longrightarrow> list_all elem b \<Longrightarrow> run st (a @ b) =
      (case codec_outcome (fst (transform st a)) of
         None \<Rightarrow> None | Some t \<Rightarrow> map_option (append t) (run (snd (transform st a)) b))"
begin

lemma session_run:
  "ready st \<Longrightarrow> list_all (list_all elem) chunks \<Longrightarrow> session transform flush st chunks = run st (concat chunks)"
proof (induction chunks arbitrary: st)
  case (Cons a chunks)
  have elems: "list_all elem a" "list_all elem (concat chunks)"
    using Cons.prems(2) by (auto simp: list_all_iff)
  show ?case
    using transform_run [OF Cons.prems(1) elems] Cons.IH [OF transform_ready [OF Cons.prems(1) elems(1)]] Cons.prems(2)
    by (simp add: case_prod_beta split: option.splits)
qed (simp add: flush_run)

end

definition td_outcome :: "td_result \<Rightarrow> bytes option" where
  "td_outcome r = (case r of TdText t \<Rightarrow> Some t | _ \<Rightarrow> None)"

lemma codec_outcome_text: "codec_outcome (codec_text True r) = td_outcome r"
  by (cases r) (simp_all add: codec_outcome_def codec_text_def td_outcome_def)

interpretation decoder_stream: chunked_codec
  "\<lambda>st a. tds_transform m enc True st (Some a)" "tds_flush m enc True"
  "\<lambda>st a. td_outcome (fst (td_decode m enc st a False))" "\<lambda>_. ample_memory m" "\<lambda>_. True"
  for m enc
proof
  fix st a b
  show "codec_outcome (fst (tds_flush m enc True st)) = td_outcome (fst (td_decode m enc st [] False))"
    by (simp add: tds_flush_def codec_outcome_text)
  assume m: "ample_memory m"
  show "td_outcome (fst (td_decode m enc st (a @ b) False)) =
      (case codec_outcome (fst (tds_transform m enc True st (Some a))) of
         None \<Rightarrow> None
       | Some t \<Rightarrow> map_option (append t)
           (td_outcome (fst (td_decode m enc (snd (tds_transform m enc True st (Some a))) b False))))"
    by (simp add: td_two_decode [OF m] td_two_def tds_transform_def codec_outcome_text td_outcome_def
        append_text_def split: td_result.splits prod.splits)
qed

section \<open>What the encoder writes\<close>

lemma unat_tes_half:
  assumes "wtf8_char c = [0xED, y, z]" and "surrogate c"
  shows "unat (tes_half y z) = c"
proof -
  obtain y' z' where b: "wtf8_char c = [0xED, y', z']" "c = 0xD000 + unat y' mod 64 * 64 + unat z' mod 64"
    using surrogate_bytes [OF assms(2)] by metis
  have "tes_half y z = cp_of_3 0x0D y z" by (simp add: tes_half_def cp_of_3_def)
  then show ?thesis using b assms(1) by (simp add: unat_cp_of_3)
qed

lemma ucast_or_byte:
  assumes "unat (w :: u32) = n" and "n < 2 ^ k" and "v < 2 ^ (8 - k)" and "k \<le> 8" and "base = push_bit k (word_of_nat v)"
  shows "ucast (base OR w) = byte (v * 2 ^ k + n)"
proof -
  have v: "v < 2 ^ 8" using assms(3) power_increasing [of "8 - k" 8 "2 :: nat"] by simp
  then have uv: "unat (word_of_nat v :: u32) = v" by (simp add: unsigned_of_nat take_bit_nat_eq_self)
  have small: "v * 2 ^ k + n < 2 ^ 8"
  proof -
    have "v * 2 ^ k + n < (v + 1) * 2 ^ k" using assms(2) by (simp add: algebra_simps)
    also have "\<dots> \<le> 2 ^ (8 - k) * 2 ^ k" using assms(3) by (intro mult_right_mono) simp_all
    also have "\<dots> = 2 ^ 8" using assms(4) by (simp add: power_add [symmetric])
    finally show ?thesis .
  qed
  then have "v * 2 ^ k < 2 ^ 32" by simp
  then have "unat (base OR w) = v * 2 ^ k + n"
    using unat_push_or [of "word_of_nat v :: u32" k w] assms(1,2,5) uv by simp
  then show ?thesis
    using small by (simp add: word_unat_eq_iff unsigned_ucast_eq take_bit_nat_eq_self)
qed

lemma four_bytes_out:
  assumes "unat (cp :: u32) = c" and "0x10000 \<le> c" and "c < 0x110000"
  shows "[ucast (0xF0 OR drop_bit 18 cp), ucast (0x80 OR (drop_bit 12 cp AND 0x3F)),
    ucast (0x80 OR (drop_bit 6 cp AND 0x3F)), ucast (0x80 OR (cp AND 0x3F))] = wtf8_char c"
proof -
  have low: "unat (w AND 0x3F) = unat w mod 64" for w :: u32
    using unat_mask_and [of w 6] by (simp add: mask_eq_exp_minus_1)
  have fields: "unat (drop_bit 18 cp) = c div 262144" "unat (drop_bit 12 cp AND 0x3F) = c div 4096 mod 64"
    "unat (drop_bit 6 cp AND 0x3F) = c div 64 mod 64" "unat (cp AND 0x3F) = c mod 64"
    by (simp_all add: low unat_drop_bit_u32 assms(1))
  have "c div 262144 < 16" using assms(3) by simp
  then have "ucast (0xF0 OR drop_bit 18 cp) = byte (0xF0 + c div 262144)"
    using ucast_or_byte [OF fields(1), of 4 15] by simp
  moreover have "ucast (0x80 OR w :: u32) = byte (0x80 + n)" if "unat w = n" "n < 64" for w n
    using ucast_or_byte [OF that(1), of 6 2] that(2) by simp
  ultimately show ?thesis
    using assms fields by (simp add: wtf8_char_def)
qed

lemma unat_pair_sum:
  assumes "unat (x :: u32) < 0x400" and "unat y < 0x400"
  shows "unat (0x10000 + push_bit 10 x + y) = 0x10000 + unat x * 0x400 + unat y"
  using assms
  by (simp add: unat_word_ariths unsigned_push_bit_eq push_bit_eq_mult [where ?'a = nat] take_bit_nat_eq_self)

lemma tes_pair_bytes:
  assumes "unat hi = h" and "unat lo = l" and "high_surrogate h" and "low_surrogate l"
  shows "tes_pair hi lo = wtf8_char (join_pair h l)"
proof -
  have h: "0xD800 \<le> h" "h < 0xDC00" and l: "0xDC00 \<le> l" "l < 0xE000"
    using assms(3,4) by (simp_all add: high_surrogate_def low_surrogate_def)
  have "unat (hi - 0xD800) = h - 0xD800" "unat (lo - 0xDC00) = l - 0xDC00"
    using assms(1,2) h l by (simp_all add: unat_sub_if_size word_size)
  moreover have "h - 0xD800 < 0x400" "l - 0xDC00 < 0x400" using h l by auto
  ultimately have "unat (0x10000 + push_bit 10 (hi - 0xD800) + (lo - 0xDC00)) = join_pair h l"
    using unat_pair_sum [of "hi - 0xD800" "lo - 0xDC00"] by (simp add: join_pair_def)
  from four_bytes_out [OF this] join_pair_bounds [OF assms(3,4)] show ?thesis
    by (simp add: tes_pair_def Let_def)
qed

section \<open>The encoder on text\<close>

text \<open>A byte that is not the start of a half is copied.\<close>

lemma tes_loop_copy:
  assumes "b \<noteq> 0xED \<or> rest \<noteq> [] \<and> hd rest < 0xA0"
  shows "tes_loop (b # rest) out = tes_loop rest (out @ [b])"
proof -
  have "b \<noteq> 0xED \<or> \<not> (b # rest) ! 1 \<ge> 0xA0" using assms by (cases rest) auto
  then show ?thesis by (subst tes_loop.simps) auto
qed

lemma tes_loop_plain: "\<forall>b \<in> set bs. b \<noteq> 0xED \<Longrightarrow> tes_loop (bs @ rest) out = tes_loop rest (out @ bs)"
  by (induction bs arbitrary: out) (simp_all add: tes_loop_copy)

lemma tes_loop_char:
  assumes "code_point c" and "\<not> surrogate c"
  shows "tes_loop (wtf8_char c @ rest) out = tes_loop rest (out @ wtf8_char c)"
proof -
  obtain b x where ch: "wtf8_char c = b # x" by (cases "wtf8_char c") simp_all
  have tail: "\<forall>d \<in> set x. d \<noteq> 0xED" using wtf8_char_tail [of "0xED" c] ch by auto
  have "b \<noteq> 0xED \<or> x @ rest \<noteq> [] \<and> hd (x @ rest) < 0xA0"
  proof (cases "b = 0xED")
    case True
    then have "0xD000 \<le> c" "c < 0xE000" using ed_char [OF assms(1)] ch by simp_all
    moreover from this have "c < 0xD800" using assms(2) by (simp add: surrogate_def)
    ultimately show ?thesis
      using ed_bytes(1) [of c] ch by (auto simp: word_less_nat_alt)
  qed simp
  then show ?thesis
    using tes_loop_copy [of b "x @ rest" out] tes_loop_plain [OF tail, of rest] by (auto simp: ch)
qed

lemma tes_loop_join:
  assumes "high_surrogate h" and "low_surrogate l"
  shows "tes_loop (wtf8_char h @ wtf8_char l @ rest) out = tes_loop rest (out @ wtf8_char (join_pair h l))"
proof -
  have s: "surrogate h" "surrogate l" using assms by (simp_all add: surrogate_halves)
  obtain y z where h: "wtf8_char h = [0xED, y, z]" "0xA0 \<le> unat y" "unat y \<le> 0xAF"
    using surrogate_bytes [OF s(1)] assms(1) by metis
  obtain v w where l: "wtf8_char l = [0xED, v, w]" "0xAF < unat v" "unat v \<le> 0xBF"
    using surrogate_bytes [OF s(2)] assms not_high_low [of l] by (metis not_le)
  have "tes_pair (tes_half y z) (tes_half v w) = wtf8_char (join_pair h l)"
    using tes_pair_bytes [OF unat_tes_half unat_tes_half assms] h(1) l(1) s by simp
  then show ?thesis
    using h l by (subst tes_loop.simps) (simp add: word_le_nat_alt)
qed

lemma tes_loop_lone:
  assumes "surrogate c" and "high_surrogate c \<Longrightarrow> rest = [] \<or> (\<exists>d ds. code_point d \<and> \<not> low_surrogate d \<and> rest = wtf8_char d @ ds)"
  shows "tes_loop (wtf8_char c @ rest) out = tes_loop rest (out @ wtf8_char 0xFFFD)"
proof -
  obtain y z where c: "wtf8_char c = [0xED, y, z]" "0xA0 \<le> unat y" "unat y \<le> 0xBF"
    "high_surrogate c \<longleftrightarrow> unat y \<le> 0xAF"
    using surrogate_bytes [OF assms(1)] by metis
  have no_pair: "\<not> (2 < length rest \<and> rest ! 0 = 0xED \<and> rest ! 1 \<ge> 0xB0 \<and> rest ! 1 \<le> 0xBF)"
    if high: "high_surrogate c"
  proof
    assume r: "2 < length rest \<and> rest ! 0 = 0xED \<and> rest ! 1 \<ge> 0xB0 \<and> rest ! 1 \<le> 0xBF"
    then obtain d ds where d: "code_point d" "\<not> low_surrogate d" "rest = wtf8_char d @ ds"
      using assms(2) [OF high] by auto
    have "hd (wtf8_char d) = 0xED" using r d(3) by (simp add: nth_append hd_conv_nth)
    then have ed: "0xD000 \<le> d" "d < 0xE000" using ed_char [OF d(1)] by simp_all
    then have "rest ! 1 = byte (0x80 + (d - 0xD000) div 64)" "(d - 0xD000) div 64 < 64"
      using ed_bytes [of d] d(3) by simp_all
    then have "0xB0 \<le> 0x80 + (d - 0xD000) div 64" using r by (simp add: word_le_nat_alt)
    then show False using ed d(2) by (simp add: low_surrogate_def)
  qed
  have fffd: "wtf8_char 0xFFFD = [0xEF, 0xBF, 0xBD]" by (simp add: wtf8_char_def byte_def)
  have y: "0xA0 \<le> y" "y \<le> 0xBF" using c(2,3) by (simp_all add: word_le_nat_alt)
  have "\<not> (2 < length rest \<and> y \<le> 0xAF \<and> rest ! 0 = 0xED \<and> rest ! 1 \<ge> 0xB0 \<and> rest ! 1 \<le> 0xBF)"
    using no_pair c(4) by (auto simp: word_le_nat_alt)
  then show ?thesis
    unfolding fffd c(1) using y by (subst tes_loop.simps) auto
qed

lemma tes_loop_text:
  "\<forall>c \<in> set cs. code_point c \<Longrightarrow> tes_loop (wtf8 cs) out = out @ wtf8 (usv cs)"
proof (induction cs arbitrary: out rule: usv.induct)
  case 1
  show ?case by (simp add: tes_loop.simps)
next
  case (2 c)
  show ?case
    using tes_loop_char [of c "[]" out] tes_loop_lone [of c "[]" out] 2
    by (cases "surrogate c") (simp_all add: tes_loop.simps to_scalar_def)
next
  case (3 c d cs)
  consider (pair) "high_surrogate c" "low_surrogate d" | (lone) "surrogate c" "\<not> (high_surrogate c \<and> low_surrogate d)"
    | (plain) "\<not> surrogate c" by blast
  then show ?case
  proof cases
    case pair
    then show ?thesis using 3 tes_loop_join [OF pair, of "wtf8 cs" out] by simp
  next
    case lone
    then have "tes_loop (wtf8_char c @ wtf8 (d # cs)) out = tes_loop (wtf8 (d # cs)) (out @ wtf8_char 0xFFFD)"
      using 3(3) by (intro tes_loop_lone) auto
    then show ?thesis using 3 lone by (auto simp: to_scalar_def)
  next
    case plain
    then show ?thesis using 3 tes_loop_char [of c "wtf8 (d # cs)" out] by (auto simp: to_scalar_def surrogate_halves)
  qed
qed

text \<open>The bytes held back are those of a high surrogate at the end.\<close>

definition held :: "nat list \<Rightarrow> nat list" where
  "held cs = (if cs \<noteq> [] \<and> high_surrogate (last cs) then [last cs] else [])"

definition sent :: "nat list \<Rightarrow> nat list" where
  "sent cs = (if cs \<noteq> [] \<and> high_surrogate (last cs) then butlast cs else cs)"

lemma sent_held: "sent cs @ held cs = cs"
  by (simp add: sent_def held_def)

lemma list_of_3: "length xs = 3 \<Longrightarrow> \<exists>x y z. xs = [x, y, z]"
  by (auto simp: length_Suc_conv numeral_eq_Suc)

lemma wtf8_eq_Nil [simp]: "wtf8 cs = [] \<longleftrightarrow> cs = []"
  by (cases cs) simp_all

lemma tes_hold_iff:
  assumes "\<forall>c \<in> set cs. code_point c" and "buf = wtf8 cs" and "n = length buf"
  shows "(n \<ge> 3 \<and> buf ! (n - 3) = 0xED \<and> buf ! (n - 2) \<ge> 0xA0 \<and> buf ! (n - 2) \<le> 0xAF)
    \<longleftrightarrow> cs \<noteq> [] \<and> high_surrogate (last cs)" (is "?hold \<longleftrightarrow> _")
proof
  assume hold: ?hold
  obtain u x y z where buf: "buf = u @ [x, y, z]"
  proof -
    have "length (drop (n - 3) buf) = 3" using hold assms(3) by simp
    then obtain x y z where "drop (n - 3) buf = [x, y, z]" using list_of_3 by blast
    then show ?thesis using that [of "take (n - 3) buf" x y z] append_take_drop_id [of "n - 3" buf] by simp
  qed
  have "n = length u + 3" using buf assms(3) by simp
  then have b: "x = 0xED" "0xA0 \<le> unat y" "unat y \<le> 0xAF"
    using hold by (simp_all add: buf nth_append word_le_nat_alt)
  from wtf8_last_ed [OF assms(1), of u y z] buf b(1) assms(2) obtain ds c
    where c: "cs = ds @ [c]" "wtf8_char c = [0xED, y, z]" by auto
  have "0xD000 \<le> c" "c < 0xE000" using ed_char [of c] assms(1) c by simp_all
  moreover from this have "0xA0 \<le> 0x80 + (c - 0xD000) div 64" "0x80 + (c - 0xD000) div 64 \<le> 0xAF"
    using ed_bytes [of c] c(2) b(2,3) by auto
  ultimately have "high_surrogate c"
    using less_eq_div_iff_mult_less_eq [of 64 32 "c - 0xD000"] div_less_iff_less_mult [of 64 "c - 0xD000" 48]
    by (auto simp: high_surrogate_def)
  then show "cs \<noteq> [] \<and> high_surrogate (last cs)" using c(1) by simp
next
  assume high: "cs \<noteq> [] \<and> high_surrogate (last cs)"
  then obtain ds c where c: "cs = ds @ [c]" "high_surrogate c" by (cases cs rule: rev_cases) auto
  obtain y z where ch: "wtf8_char c = [0xED, y, z]" "0xA0 \<le> unat y" "unat y \<le> 0xAF"
    using surrogate_bytes [of c] c(2) surrogate_halves [of c] by metis
  have "buf = wtf8 ds @ [0xED, y, z]" "n = length (wtf8 ds) + 3" using assms c(1) ch(1) by simp_all
  then show ?hold using ch by (simp add: nth_append word_le_nat_alt)
qed

lemma tes_transform_text:
  assumes "ample_memory m" and "\<forall>c \<in> set (ps @ cs). code_point c" and "tes_pending st = wtf8 ps"
  shows "tes_transform m True st (Some (wtf8 cs)) =
    (if sent (ps @ cs) = [] then CodecUndefined else CodecEnqueue (wtf8 (usv (sent (ps @ cs)))),
     st\<lparr>tes_pending := wtf8 (held (ps @ cs))\<rparr>)"
proof (cases "ps @ cs = []")
  case True
  then show ?thesis using assms(3) by (simp add: tes_transform_def sent_def held_def)
next
  case False
  define buf where "buf = wtf8 (ps @ cs)"
  define hold where "hold \<longleftrightarrow> ps @ cs \<noteq> [] \<and> high_surrogate (last (ps @ cs))"
  have total: "length (wtf8 ps) + length (wtf8 cs) = length buf" by (simp add: buf_def)
  have ne: "length buf \<noteq> 0" using False by (simp add: buf_def)
  note iff = tes_hold_iff [OF assms(2) buf_def refl, folded hold_def]
  have parts: "wtf8 (sent (ps @ cs)) @ wtf8 (held (ps @ cs)) = buf"
    using sent_held [of "ps @ cs"] by (simp add: buf_def flip: wtf8_simps)
  have three: "length (wtf8 (held (ps @ cs))) = (if hold then 3 else 0)"
    by (auto simp: held_def hold_def wtf8_char_length high_surrogate_def)
  have out: "take (if hold then length buf - 3 else length buf) buf = wtf8 (sent (ps @ cs))"
    "(if hold then drop (length buf - 3) buf else []) = wtf8 (held (ps @ cs))"
    "(if hold then length buf - 3 else length buf) = length (wtf8 (sent (ps @ cs)))"
    using three unfolding parts [symmetric] by (auto split: if_splits)
  have points: "\<forall>c \<in> set (sent (ps @ cs)). code_point c"
    using assms(2) sent_held [of "ps @ cs"] by (metis Un_iff set_append)
  have app: "wtf8 ps @ wtf8 cs = buf" by (simp add: buf_def)
  show ?thesis
    using assms(1) ne
    by (simp add: tes_transform_def Let_def assms(3) total app iff out out(1) [unfolded out(3)] tes_loop_text [OF points] del: wtf8_simps)
qed

text \<open>The code points a state of the encoder holds back.\<close>

definition held_points :: "tes_state \<Rightarrow> nat list" where
  "held_points st =
     (if tes_pending st = [] then [] else [unat (tes_half (tes_pending st ! 1) (tes_pending st ! 2))])"

definition tes_ok :: "tes_state \<Rightarrow> bool" where
  "tes_ok st \<longleftrightarrow> (\<exists>ps. tes_pending st = wtf8 ps \<and> list_all high_surrogate ps \<and> length ps \<le> 1)"

lemma held_points_eq:
  assumes "tes_pending st = wtf8 ps" and "list_all high_surrogate ps" and "length ps \<le> 1"
  shows "held_points st = ps"
proof (cases ps)
  case (Cons h qs)
  then have h: "ps = [h]" "surrogate h" using assms(2,3) by (simp_all add: surrogate_halves)
  obtain y z where "wtf8_char h = [0xED, y, z]" using surrogate_bytes [OF h(2)] by metis
  then show ?thesis using assms(1) h unat_tes_half [of h y z] by (simp add: held_points_def)
qed (use assms in \<open>simp add: held_points_def\<close>)

lemma tes_flush_held:
  assumes "ample_memory m" and "tes_ok st"
  shows "codec_outcome (fst (tes_flush m True st)) = Some (wtf8 (usv (held_points st)))"
proof -
  obtain ps where ps: "tes_pending st = wtf8 ps" "list_all high_surrogate ps" "length ps \<le> 1"
    using assms(2) by (auto simp: tes_ok_def)
  have "wtf8_char 0xFFFD = [0xEF, 0xBF, 0xBD]" by (simp add: wtf8_char_def byte_def)
  with ps assms(1) held_points_eq [OF ps] show ?thesis
    by (cases ps) (auto simp: tes_flush_def codec_outcome_def to_scalar_def surrogate_halves)
qed

lemma usv_sent_held: "usv (cs @ ds) = usv (sent cs) @ usv (held cs @ ds)"
proof (cases "cs \<noteq> [] \<and> high_surrogate (last cs)")
  case True
  then have "cs = butlast cs @ [last cs]" "\<not> low_surrogate (last cs)" by simp_all
  then have "usv (cs @ ds) = usv (butlast cs) @ usv (last cs # ds)"
    using usv_split [of "last cs" "butlast cs" ds] by (metis append_Cons append_Nil append_assoc)
  then show ?thesis using True by (simp add: sent_def held_def)
next
  case False
  then show ?thesis using usv_append [of cs ds] by (auto simp: sent_def held_def)
qed

lemma tes_transform_held:
  assumes "ample_memory m" and "tes_ok st" and "list_all code_point cs"
  shows "codec_outcome (fst (tes_transform m True st (Some (wtf8 cs)))) = Some (wtf8 (usv (sent (held_points st @ cs))))"
    and "held_points (snd (tes_transform m True st (Some (wtf8 cs)))) = held (held_points st @ cs)"
    and "tes_ok (snd (tes_transform m True st (Some (wtf8 cs))))"
proof -
  obtain ps where ps: "tes_pending st = wtf8 ps" "list_all high_surrogate ps" "length ps \<le> 1"
    using assms(2) by (auto simp: tes_ok_def)
  have points: "\<forall>c \<in> set (ps @ cs). code_point c"
    using assms(3) ps(2) by (auto simp: list_all_iff high_surrogate_def code_point_def)
  note step = tes_transform_text [OF assms(1) points ps(1)]
  have held: "list_all high_surrogate (held (ps @ cs))" "length (held (ps @ cs)) \<le> 1"
    by (simp_all add: held_def)
  show "codec_outcome (fst (tes_transform m True st (Some (wtf8 cs)))) = Some (wtf8 (usv (sent (held_points st @ cs))))"
    by (simp add: step held_points_eq [OF ps] codec_outcome_def)
  show "held_points (snd (tes_transform m True st (Some (wtf8 cs)))) = held (held_points st @ cs)"
    using held by (simp add: step held_points_eq [OF ps] held_points_eq)
  show "tes_ok (snd (tes_transform m True st (Some (wtf8 cs))))"
    using held by (auto simp: step tes_ok_def)
qed

interpretation encoder_stream: chunked_codec
  "\<lambda>st cs. tes_transform m True st (Some (wtf8 cs))" "tes_flush m True"
  "\<lambda>st cs. Some (wtf8 (usv (held_points st @ cs)))" "\<lambda>st. ample_memory m \<and> tes_ok st" code_point
  for m
proof
  fix st cs ds
  assume ready: "ample_memory m \<and> tes_ok st"
  then show "codec_outcome (fst (tes_flush m True st)) = Some (wtf8 (usv (held_points st @ [])))"
    using tes_flush_held [of m st] by simp
  assume "list_all code_point cs"
  note step = tes_transform_held [OF conjunct1 [OF ready] conjunct2 [OF ready] this]
  show "ample_memory m \<and> tes_ok (snd (tes_transform m True st (Some (wtf8 cs))))" using ready step(3) by simp
  show "Some (wtf8 (usv (held_points st @ cs @ ds))) =
      (case codec_outcome (fst (tes_transform m True st (Some (wtf8 cs)))) of
         None \<Rightarrow> None
       | Some t \<Rightarrow> map_option (append t)
           (Some (wtf8 (usv (held_points (snd (tes_transform m True st (Some (wtf8 cs)))) @ ds)))))"
    using step(1,2) usv_sent_held [of "held_points st @ cs" ds] by simp
qed

end
