(* ===== verification/Flat_String.thy ===== *)
theory Flat_String
  imports Utf8_Codec
begin

unbundle bit_operations_syntax

text \<open>
  Flat strings of the heap (\<^verbatim>\<open>ant_flat_string_t\<close> and the accessors of \<^verbatim>\<open>include/internal.h\<close>):
  the bytes and one 64-bit word of metadata that caches three answers about them, the
  number of UTF-16 code units (bits 0 to 55), whether all bytes are ASCII (bits 56 and 57)
  and whether they are valid UTF-8 (bits 58 and 59). \<open>flat_ok\<close> is the invariant that a cached
  answer is the right one; the accessors keep it and answer as if nothing were cached.
\<close>

record ant_flat_string =
  fs_bytes :: bytes
  fs_meta :: u64

definition fs_len :: "ant_flat_string \<Rightarrow> nat" where
  "fs_len flat = length (fs_bytes flat)"

definition STR_META_UTF16_MASK :: u64 where
  "STR_META_UTF16_MASK = push_bit 56 1 - 1"

definition STR_META_ASCII_MASK :: u64 where
  "STR_META_ASCII_MASK = push_bit 56 3"

definition STR_META_VALID_MASK :: u64 where
  "STR_META_VALID_MASK = push_bit 58 3"

definition STR_META_STATE_MASK :: u64 where
  "STR_META_STATE_MASK = NOT STR_META_UTF16_MASK"

definition STR_UTF16_LEN_UNKNOWN :: u64 where
  "STR_UTF16_LEN_UNKNOWN = STR_META_UTF16_MASK"

text \<open>The states of the two fields.\<close>

abbreviation (input) STR_ASCII_UNKNOWN :: u8 where "STR_ASCII_UNKNOWN \<equiv> 0"
abbreviation (input) STR_ASCII_YES :: u8 where "STR_ASCII_YES \<equiv> 1"
abbreviation (input) STR_ASCII_NO :: u8 where "STR_ASCII_NO \<equiv> 2"
abbreviation (input) STR_UTF_UNKNOWN :: u8 where "STR_UTF_UNKNOWN \<equiv> 0"
abbreviation (input) STR_UTF_VALID :: u8 where "STR_UTF_VALID \<equiv> 1"
abbreviation (input) STR_UTF_INVALID :: u8 where "STR_UTF_INVALID \<equiv> 2"
abbreviation (input) STR_UTF_INVALID_SAME_LENGTH :: u8 where "STR_UTF_INVALID_SAME_LENGTH \<equiv> 3"

definition str_detect_ascii_bytes :: "bytes \<Rightarrow> nat \<Rightarrow> u8" where
  "str_detect_ascii_bytes s len =
     (if list_all (\<lambda>i. \<not> s ! i \<ge> 0x80) [0..<len] then STR_ASCII_YES else STR_ASCII_NO)"

definition str_flat_ascii_state :: "ant_flat_string \<Rightarrow> u8" where
  "str_flat_ascii_state flat = ucast (drop_bit 56 (fs_meta flat AND STR_META_ASCII_MASK))"

definition str_flat_utf_valid_state :: "ant_flat_string \<Rightarrow> u8" where
  "str_flat_utf_valid_state flat = ucast (drop_bit 58 (fs_meta flat AND STR_META_VALID_MASK))"

definition str_flat_set_utf_valid_state :: "u8 \<Rightarrow> ant_flat_string \<Rightarrow> ant_flat_string" where
  "str_flat_set_utf_valid_state state flat =
     flat\<lparr>fs_meta := (fs_meta flat AND NOT STR_META_VALID_MASK)
             OR (push_bit 58 (ucast state) AND STR_META_VALID_MASK)\<rparr>"

definition str_flat_cached_utf16_len :: "ant_flat_string \<Rightarrow> u64" where
  "str_flat_cached_utf16_len flat = fs_meta flat AND STR_META_UTF16_MASK"

definition str_flat_init_meta :: "u8 \<Rightarrow> ant_flat_string \<Rightarrow> ant_flat_string" where
  "str_flat_init_meta ascii_state flat =
     flat\<lparr>fs_meta := push_bit 56 (ucast ascii_state) OR STR_UTF16_LEN_UNKNOWN\<rparr>"

definition str_flat_set_utf16_len :: "u64 \<Rightarrow> ant_flat_string \<Rightarrow> ant_flat_string" where
  "str_flat_set_utf16_len len flat =
     flat\<lparr>fs_meta := (fs_meta flat AND STR_META_STATE_MASK) OR (len AND STR_META_UTF16_MASK)\<rparr>"

definition str_is_ascii :: "ant_flat_string \<Rightarrow> bool \<times> ant_flat_string" where
  "str_is_ascii flat =
     (if str_flat_ascii_state flat = STR_ASCII_UNKNOWN then
        let state = str_detect_ascii_bytes (fs_bytes flat) (fs_len flat)
        in (state = STR_ASCII_YES, str_flat_init_meta state flat)
      else (str_flat_ascii_state flat = STR_ASCII_YES, flat))"

definition str_is_valid_utf8 :: "ant_flat_string \<Rightarrow> bool \<times> ant_flat_string" where
  "str_is_valid_utf8 flat0 =
     (let (is_ascii, flat) = str_is_ascii flat0
      in if is_ascii then (True, flat)
         else if str_flat_utf_valid_state flat = STR_UTF_UNKNOWN then
           let state = (if utf8_validate_bytes (fs_bytes flat) (fs_len flat)
                        then STR_UTF_VALID else STR_UTF_INVALID)
           in (state = STR_UTF_VALID, str_flat_set_utf_valid_state state flat)
         else (str_flat_utf_valid_state flat = STR_UTF_VALID, flat))"

section \<open>The fields of the metadata word\<close>

lemma meta_masks:
  "STR_META_UTF16_MASK = mask 56" "STR_META_ASCII_MASK = push_bit 56 (mask 2)"
  "STR_META_VALID_MASK = push_bit 58 (mask 2)" "STR_META_STATE_MASK = NOT (mask 56)"
  "STR_UTF16_LEN_UNKNOWN = mask 56"
  by (simp_all add: STR_META_UTF16_MASK_def STR_META_ASCII_MASK_def STR_META_VALID_MASK_def
      STR_META_STATE_MASK_def STR_UTF16_LEN_UNKNOWN_def mask_eq_exp_minus_1)

lemmas meta_defs = str_flat_ascii_state_def str_flat_utf_valid_state_def
  str_flat_set_utf_valid_state_def str_flat_cached_utf16_len_def str_flat_init_meta_def
  str_flat_set_utf16_len_def meta_masks

lemma flat_bytes_kept [simp]:
  "fs_bytes (str_flat_set_utf_valid_state v flat) = fs_bytes flat"
  "fs_bytes (str_flat_init_meta a flat) = fs_bytes flat"
  "fs_bytes (str_flat_set_utf16_len n flat) = fs_bytes flat"
  by (simp_all add: meta_defs)

lemma meta_fields:
  "str_flat_ascii_state (str_flat_init_meta a flat) = take_bit 2 a"
  "str_flat_cached_utf16_len (str_flat_init_meta a flat) = STR_UTF16_LEN_UNKNOWN"
  "str_flat_ascii_state (str_flat_set_utf_valid_state v flat) = str_flat_ascii_state flat"
  "str_flat_utf_valid_state (str_flat_set_utf_valid_state v flat) = take_bit 2 v"
  "str_flat_cached_utf16_len (str_flat_set_utf_valid_state v flat) = str_flat_cached_utf16_len flat"
  "str_flat_ascii_state (str_flat_set_utf16_len n flat) = str_flat_ascii_state flat"
  "str_flat_utf_valid_state (str_flat_set_utf16_len n flat) = str_flat_utf_valid_state flat"
  "str_flat_cached_utf16_len (str_flat_set_utf16_len n flat) = take_bit 56 n"
  by (auto simp: meta_defs bit_simps intro!: bit_word_eqI)

lemma meta_init_valid_unknown [simp]:
  "str_flat_utf_valid_state (str_flat_init_meta STR_ASCII_YES flat) = STR_UTF_UNKNOWN"
  "str_flat_utf_valid_state (str_flat_init_meta STR_ASCII_NO flat) = STR_UTF_UNKNOWN"
  "str_flat_utf_valid_state (str_flat_init_meta STR_ASCII_UNKNOWN flat) = STR_UTF_UNKNOWN"
  by (simp_all add: meta_defs mask_eq_exp_minus_1)

lemma meta_states [simp]:
  "take_bit 2 STR_ASCII_YES = STR_ASCII_YES" "take_bit 2 STR_ASCII_NO = STR_ASCII_NO"
  "take_bit 2 STR_UTF_INVALID_SAME_LENGTH = STR_UTF_INVALID_SAME_LENGTH"
  by simp_all

section \<open>Cached answers are right\<close>

definition ascii_bytes :: "bytes \<Rightarrow> bool" where
  "ascii_bytes bs \<longleftrightarrow> (\<forall>b \<in> set bs. b < 0x80)"

definition flat_ok :: "ant_flat_string \<Rightarrow> bool" where
  "flat_ok flat \<longleftrightarrow>
     str_flat_ascii_state flat
       \<in> {STR_ASCII_UNKNOWN, if ascii_bytes (fs_bytes flat) then STR_ASCII_YES else STR_ASCII_NO}
     \<and> str_flat_utf_valid_state flat
       \<in> (if utf8_validate_bytes (fs_bytes flat) (fs_len flat) then {STR_UTF_UNKNOWN, STR_UTF_VALID}
          else {STR_UTF_UNKNOWN, STR_UTF_INVALID, STR_UTF_INVALID_SAME_LENGTH})"

lemma str_detect_ascii_bytes_eq:
  "str_detect_ascii_bytes bs (length bs) = (if ascii_bytes bs then STR_ASCII_YES else STR_ASCII_NO)"
  by (auto simp: str_detect_ascii_bytes_def ascii_bytes_def list_all_iff all_set_conv_all_nth not_le)

lemma ascii_wtf8: "ascii_bytes bs \<Longrightarrow> bs = wtf8 (map unat bs) \<and> (\<forall>c \<in> set (map unat bs). c < 0x80)"
  unfolding ascii_bytes_def
  by (induction bs) (auto simp: wtf8_char_def byte_classes)

lemma ascii_valid: "ascii_bytes bs \<Longrightarrow> utf8_validate_bytes bs (length bs)"
proof -
  assume "ascii_bytes bs"
  then have "bs = wtf8 (map unat bs)" "\<forall>c \<in> set (map unat bs). scalar_value c"
    using ascii_wtf8 [of bs] by (auto simp: scalar_value_def code_point_def surrogate_def)
  then show ?thesis
    unfolding utf8_validate_bytes_iff by blast
qed

lemma flat_ok_init [simp]:
  "flat_ok (str_flat_init_meta (str_detect_ascii_bytes (fs_bytes flat) (length (fs_bytes flat))) flat)"
  by (simp add: flat_ok_def meta_fields str_detect_ascii_bytes_eq)

lemma flat_ok_set_utf16_len [simp]: "flat_ok (str_flat_set_utf16_len n flat) = flat_ok flat"
  by (simp add: flat_ok_def meta_fields fs_len_def)

lemma str_is_ascii_spec:
  assumes "flat_ok flat"
  shows "fst (str_is_ascii flat) = ascii_bytes (fs_bytes flat)"
    and "flat_ok (snd (str_is_ascii flat))"
    and "fs_bytes (snd (str_is_ascii flat)) = fs_bytes flat"
  using assms
  by (auto simp: str_is_ascii_def flat_ok_def fs_len_def str_detect_ascii_bytes_eq meta_fields Let_def
      split: if_splits)

lemma str_is_valid_utf8_spec:
  assumes "flat_ok flat"
  shows "fst (str_is_valid_utf8 flat) = utf8_validate_bytes (fs_bytes flat) (fs_len flat)"
    and "flat_ok (snd (str_is_valid_utf8 flat))"
    and "fs_bytes (snd (str_is_valid_utf8 flat)) = fs_bytes flat"
proof -
  obtain is_ascii flat' where a: "str_is_ascii flat = (is_ascii, flat')" by (cases "str_is_ascii flat")
  then have ok: "flat_ok flat'" "fs_bytes flat' = fs_bytes flat" "is_ascii = ascii_bytes (fs_bytes flat)"
    using str_is_ascii_spec [OF assms] by simp_all
  then have len: "fs_len flat' = fs_len flat" by (simp add: fs_len_def)
  show "fst (str_is_valid_utf8 flat) = utf8_validate_bytes (fs_bytes flat) (fs_len flat)"
    using ok len ascii_valid [of "fs_bytes flat"]
    by (auto simp: str_is_valid_utf8_def a flat_ok_def fs_len_def split: if_splits)
  show "fs_bytes (snd (str_is_valid_utf8 flat)) = fs_bytes flat"
    using ok by (simp add: str_is_valid_utf8_def a Let_def)
  show "flat_ok (snd (str_is_valid_utf8 flat))"
    using ok(1) by (auto simp: str_is_valid_utf8_def a flat_ok_def meta_fields fs_len_def Let_def)
qed

end
