(* ===== verification/Utf16_Index.thy ===== *)
theory Utf16_Index
  imports Flat_String
begin

unbundle bit_operations_syntax

text \<open>
  Code unit positions in strings (\<^verbatim>\<open>src/utf8.c\<close>, the functions on \<^verbatim>\<open>utf16_scan_cursor_t\<close>).
  Scripts index strings by UTF-16 code unit while the bytes are WTF-8, so a lookup scans.
  Two caches make scans short: the last position of the last string, and up to eight
  checkpoint tables with one entry per 64 code units. Both are dropped when the collector's
  sweep epoch moves, because a swept string's address may be reused. A pointer is a number,
  the heap maps it to a flat string, and \<^verbatim>\<open>NULL\<close> is \<open>None\<close>; a cursor's \<^verbatim>\<open>start\<close> is offset 0 and its
  \<^verbatim>\<open>end\<close> the offset \<open>cu_byte_len\<close>. The sweep epoch, a 64-bit counter, is a number.
\<close>

section \<open>State\<close>

record utf16_scan_cache =
  sc_epoch :: nat
  sc_str :: "nat option"
  sc_byte_len :: nat
  sc_byte_pos :: nat
  sc_utf16_pos :: nat

record utf16_scan_cursor =
  cu_str :: nat
  cu_byte_len :: nat
  cu_p :: nat
  cu_utf16_pos :: nat

record utf16_index_point =
  pt_byte_off :: u32
  pt_utf16_pos :: u32

record utf16_index_entry =
  en_str :: "nat option"
  en_byte_len :: nat
  en_points :: "utf16_index_point list option"

record utf16_index_cache =
  ic_epoch :: nat
  ic_victim :: nat
  ic_mru :: nat
  ic_entries :: "utf16_index_entry list"

text \<open>
  The state the functions work on: the string heap, the collector's sweep epoch, what the
  allocator answers, and the two thread-local caches.
\<close>

record text_state =
  ts_heap :: "nat \<Rightarrow> ant_flat_string"
  ts_epoch :: nat
  ts_mem :: mem_env
  ts_scan :: utf16_scan_cache
  ts_index :: utf16_index_cache

definition UTF16_INDEX_CHUNK :: nat where "UTF16_INDEX_CHUNK = 64"
definition UTF16_INDEX_WAYS :: nat where "UTF16_INDEX_WAYS = 8"
definition UTF16_INDEX_MIN_BYTES :: nat where "UTF16_INDEX_MIN_BYTES = 256"

abbreviation text_bytes :: "text_state \<Rightarrow> nat \<Rightarrow> bytes" where
  "text_bytes st str \<equiv> fs_bytes (ts_heap st str)"

text \<open>\<^verbatim>\<open>str_is_ascii\<close> on the string at an address: it may store its answer in the header.\<close>

definition str_is_ascii_at :: "nat \<Rightarrow> text_state \<Rightarrow> bool \<times> text_state" where
  "str_is_ascii_at str st =
     (let (b, flat) = str_is_ascii (ts_heap st str)
      in (b, st\<lparr>ts_heap := (ts_heap st)(str := flat)\<rparr>))"

section \<open>The scan cache and cursors\<close>

definition empty_scan_cache :: "nat \<Rightarrow> utf16_scan_cache" where
  "empty_scan_cache epoch =
     \<lparr>sc_epoch = epoch, sc_str = None, sc_byte_len = 0, sc_byte_pos = 0, sc_utf16_pos = 0\<rparr>"

definition utf16_scan_cache_sync_epoch :: "text_state \<Rightarrow> text_state" where
  "utf16_scan_cache_sync_epoch st =
     (if sc_epoch (ts_scan st) = ts_epoch st then st
      else st\<lparr>ts_scan := empty_scan_cache (ts_epoch st)\<rparr>)"

definition utf16_scan_cursor_init :: "nat \<Rightarrow> nat \<Rightarrow> text_state \<Rightarrow> utf16_scan_cursor \<times> text_state" where
  "utf16_scan_cursor_init str byte_len st =
     (\<lparr>cu_str = str, cu_byte_len = byte_len, cu_p = 0, cu_utf16_pos = 0\<rparr>,
      utf16_scan_cache_sync_epoch st)"

definition utf16_scan_cache_matches :: "utf16_scan_cache \<Rightarrow> utf16_scan_cursor \<Rightarrow> bool" where
  "utf16_scan_cache_matches cache cursor \<longleftrightarrow>
     sc_str cache = Some (cu_str cursor) \<and> sc_byte_pos cache \<le> cu_byte_len cursor"

definition utf16_scan_cursor_resume_utf16 :: "utf16_scan_cache \<Rightarrow> nat \<Rightarrow> utf16_scan_cursor \<Rightarrow> utf16_scan_cursor" where
  "utf16_scan_cursor_resume_utf16 cache target_utf16 cursor =
     (if \<not> utf16_scan_cache_matches cache cursor then cursor
      else if target_utf16 < sc_utf16_pos cache then cursor
      else cursor\<lparr>cu_p := sc_byte_pos cache, cu_utf16_pos := sc_utf16_pos cache\<rparr>)"

definition utf16_scan_cursor_resume_byte :: "utf16_scan_cache \<Rightarrow> nat \<Rightarrow> utf16_scan_cursor \<Rightarrow> utf16_scan_cursor" where
  "utf16_scan_cursor_resume_byte cache target_byte cursor =
     (if \<not> utf16_scan_cache_matches cache cursor then cursor
      else if target_byte < sc_byte_pos cache then cursor
      else cursor\<lparr>cu_p := sc_byte_pos cache, cu_utf16_pos := sc_utf16_pos cache\<rparr>)"

definition utf16_scan_cursor_store :: "utf16_scan_cursor \<Rightarrow> text_state \<Rightarrow> text_state" where
  "utf16_scan_cursor_store cursor st =
     st\<lparr>ts_scan := (ts_scan st)\<lparr>sc_str := Some (cu_str cursor), sc_byte_len := cu_byte_len cursor,
          sc_byte_pos := cu_p cursor, sc_utf16_pos := cu_utf16_pos cursor\<rparr>\<rparr>"

definition utf16_scan_cursor_advance ::
  "bytes \<Rightarrow> nat \<Rightarrow> utf16_scan_cursor \<Rightarrow> utf16_scan_cursor \<times> bool" where
  "utf16_scan_cursor_advance s bound_end cursor =
     (let (slen, units, cp) = utf16_scan_decode s (cu_p cursor) (cu_byte_len cursor) False;
          nxt = cu_p cursor + slen;
          cursor1 = cursor\<lparr>cu_utf16_pos := cu_utf16_pos cursor + units\<rparr>
      in if nxt > bound_end then (cursor1\<lparr>cu_p := bound_end\<rparr>, False)
         else (cursor1\<lparr>cu_p := nxt\<rparr>, True))"

section \<open>The checkpoint index\<close>

definition empty_entry :: utf16_index_entry where
  "empty_entry = \<lparr>en_str = None, en_byte_len = 0, en_points = None\<rparr>"

definition utf16_index_sync_epoch :: "text_state \<Rightarrow> text_state" where
  "utf16_index_sync_epoch st =
     (if ic_epoch (ts_index st) = ts_epoch st then st
      else st\<lparr>ts_index := \<lparr>ic_epoch = ts_epoch st, ic_victim = 0, ic_mru = 0,
             ic_entries = replicate UTF16_INDEX_WAYS empty_entry\<rparr>\<rparr>)"

lemma utf16_scan_decode_progress:
  "utf16_scan_decode s p e want = (slen, units, cp) \<Longrightarrow> 0 < slen \<and> slen \<le> 4 \<and> 0 < units \<and> units \<le> 2 \<and> units \<le> slen"
  by (auto simp: utf16_scan_decode_def Let_def split: if_splits)

function utf16_index_points ::
  "bytes \<Rightarrow> nat \<Rightarrow> nat \<Rightarrow> nat \<Rightarrow> utf16_index_point list \<Rightarrow> utf16_index_point list" where
  "utf16_index_points s e p utf16_pos points =
     (if p < e then
        let (slen, units, cp) = utf16_scan_decode s p e False;
            points1 = (if utf16_pos + units > length points * UTF16_INDEX_CHUNK
                       then points @ [\<lparr>pt_byte_off = word_of_nat p, pt_utf16_pos = word_of_nat utf16_pos\<rparr>]
                       else points)
        in utf16_index_points s e (p + slen) (utf16_pos + units) points1
      else points)"
  by pat_completeness auto
termination
  by (relation "measure (\<lambda>(s, e, p, utf16_pos, points). e - p)")
    (auto dest!: sym [of _ "utf16_scan_decode _ _ _ _"] utf16_scan_decode_progress)

declare utf16_index_points.simps [simp del]

definition utf16_index_max_points :: "nat \<Rightarrow> nat" where
  "utf16_index_max_points byte_len = byte_len div UTF16_INDEX_CHUNK + 2"

definition utf16_index_build :: "mem_env \<Rightarrow> bytes \<Rightarrow> nat \<Rightarrow> utf16_index_point list option" where
  "utf16_index_build m s byte_len =
     (if \<not> alloc_ok m (utf16_index_max_points byte_len * 8) then None
      else Some (utf16_index_points s byte_len 0 0 [\<lparr>pt_byte_off = 0, pt_utf16_pos = 0\<rparr>]))"

text \<open>The first other entry for the string, which becomes the most recently used one.\<close>

definition utf16_index_find :: "utf16_index_cache \<Rightarrow> nat \<Rightarrow> nat \<Rightarrow> nat option" where
  "utf16_index_find ic str byte_len =
     (let matches = (\<lambda>i. en_str (ic_entries ic ! i) = Some str \<and> en_byte_len (ic_entries ic ! i) = byte_len)
      in if matches (ic_mru ic) then Some (ic_mru ic)
         else find (\<lambda>i. i \<noteq> ic_mru ic \<and> matches i) [0..<UTF16_INDEX_WAYS])"

definition utf16_index_get :: "nat \<Rightarrow> nat \<Rightarrow> text_state \<Rightarrow> utf16_index_point list option \<times> text_state" where
  "utf16_index_get str byte_len st0 =
     (if byte_len < UTF16_INDEX_MIN_BYTES \<or> byte_len > 2 ^ 32 - 1 then (None, st0)
      else
        let st = utf16_index_sync_epoch st0;
            ic = ts_index st
        in case utf16_index_find ic str byte_len of
            None \<Rightarrow>
              (None, st\<lparr>ts_index := ic\<lparr>
                 ic_entries := (ic_entries ic)[ic_victim ic :=
                   \<lparr>en_str = Some str, en_byte_len = byte_len, en_points = None\<rparr>],
                 ic_mru := ic_victim ic,
                 ic_victim := (if ic_victim ic + 1 = UTF16_INDEX_WAYS then 0 else ic_victim ic + 1)\<rparr>\<rparr>)
          | Some i \<Rightarrow>
              let ic1 = ic\<lparr>ic_mru := i\<rparr>;
                  entry = ic_entries ic1 ! i
              in case en_points entry of
                  Some points \<Rightarrow> (Some points, st\<lparr>ts_index := ic1\<rparr>)
                | None \<Rightarrow>
                    (case utf16_index_build (ts_mem st) (text_bytes st str) byte_len of
                      None \<Rightarrow> (None, st\<lparr>ts_index := ic1\<rparr>)
                    | Some points \<Rightarrow>
                        (Some points, st\<lparr>ts_index := ic1\<lparr>ic_entries :=
                           (ic_entries ic1)[i := entry\<lparr>en_points := Some points\<rparr>]\<rparr>\<rparr>)))"

fun utf16_index_back :: "utf16_index_point list \<Rightarrow> nat \<Rightarrow> nat \<Rightarrow> nat" where
  "utf16_index_back points target 0 = 0"
| "utf16_index_back points target (Suc point) =
     (if unat (pt_utf16_pos (points ! Suc point)) > target
      then utf16_index_back points target point else Suc point)"

definition utf16_index_seek :: "utf16_index_point list \<Rightarrow> nat \<Rightarrow> utf16_scan_cursor \<Rightarrow> utf16_scan_cursor" where
  "utf16_index_seek points target cursor =
     (let point0 = target div UTF16_INDEX_CHUNK;
          point1 = (if point0 \<ge> length points then length points - 1 else point0);
          checkpoint = points ! utf16_index_back points target point1
      in if unat (pt_utf16_pos checkpoint) \<le> cu_utf16_pos cursor then cursor
         else cursor\<lparr>cu_p := unat (pt_byte_off checkpoint), cu_utf16_pos := unat (pt_utf16_pos checkpoint)\<rparr>)"

definition utf16_scan_cursor_resume_indexed ::
  "nat \<Rightarrow> utf16_scan_cursor \<Rightarrow> text_state \<Rightarrow> utf16_scan_cursor \<times> text_state" where
  "utf16_scan_cursor_resume_indexed target cursor0 st =
     (let cursor = utf16_scan_cursor_resume_utf16 (ts_scan st) target cursor0
      in if target \<le> cu_utf16_pos cursor \<or> target - cu_utf16_pos cursor \<le> UTF16_INDEX_CHUNK
         then (cursor, st)
         else case utf16_index_get (cu_str cursor) (cu_byte_len cursor) st of
             (None, st1) \<Rightarrow> (cursor, st1)
           | (Some points, st1) \<Rightarrow> (utf16_index_seek points target cursor, st1))"

section \<open>Lookups\<close>

lemma utf16_scan_cursor_advance_progress:
  "cu_p cursor < bound_end \<Longrightarrow> cu_p cursor < cu_p (fst (utf16_scan_cursor_advance s bound_end cursor))"
  "cu_p cursor \<le> bound_end \<Longrightarrow> cu_p (fst (utf16_scan_cursor_advance s bound_end cursor)) \<le> bound_end"
  "cu_byte_len (fst (utf16_scan_cursor_advance s bound_end cursor)) = cu_byte_len cursor"
  "cu_str (fst (utf16_scan_cursor_advance s bound_end cursor)) = cu_str cursor"
  using utf16_scan_decode_progress [of s "cu_p cursor" "cu_byte_len cursor" False]
  by (auto simp: utf16_scan_cursor_advance_def Let_def split: prod.splits)

text \<open>The loop that advances a cursor while it is in the string and before a code unit.\<close>

function utf16_cursor_skip :: "bytes \<Rightarrow> nat option \<Rightarrow> utf16_scan_cursor \<Rightarrow> utf16_scan_cursor" where
  "utf16_cursor_skip s idx cursor =
     (if cu_p cursor < cu_byte_len cursor \<and> (\<forall>i \<in> set_option idx. cu_utf16_pos cursor < i)
      then utf16_cursor_skip s idx (fst (utf16_scan_cursor_advance s (cu_byte_len cursor) cursor))
      else cursor)"
  by pat_completeness auto
termination
  by (relation "measure (\<lambda>(s, idx, cursor). cu_byte_len cursor - cu_p cursor)")
    (auto simp: utf16_scan_cursor_advance_progress intro!: diff_less_mono2)

declare utf16_cursor_skip.simps [simp del]

text \<open>
  \<^verbatim>\<open>utf16_strlen\<close> skips to the end of the bytes, \<^verbatim>\<open>flat_utf16_len\<close> of \<^verbatim>\<open>src/ant.c\<close> caches its answer
  in the header of the string.
\<close>

definition utf16_strlen :: "nat \<Rightarrow> bytes \<Rightarrow> nat \<Rightarrow> text_state \<Rightarrow> nat \<times> text_state" where
  "utf16_strlen str s byte_len st0 =
     (let (cursor, st) = utf16_scan_cursor_init str byte_len st0
      in (cu_utf16_pos (utf16_cursor_skip s None cursor), st))"

definition flat_utf16_len :: "nat \<Rightarrow> text_state \<Rightarrow> nat \<times> text_state" where
  "flat_utf16_len str st0 =
     (let (is_ascii, st) = str_is_ascii_at str st0;
          flat = ts_heap st str;
          cached = str_flat_cached_utf16_len flat
      in if is_ascii then (fs_len flat, st)
         else if cached = STR_UTF16_LEN_UNKNOWN then
           let (n, st1) = utf16_strlen str (fs_bytes flat) (fs_len flat) st
           in (n, st1\<lparr>ts_heap := (ts_heap st1)(str := str_flat_set_utf16_len (word_of_nat n) flat)\<rparr>)
         else (unat cached, st))"

text \<open>The conversion of a size to \<^verbatim>\<open>int\<close>, which keeps the low 32 bits.\<close>

definition int_of_size :: "nat \<Rightarrow> int" where
  "int_of_size n = signed_take_bit 31 (int n)"

text \<open>The offset of a code unit and the number of bytes of its character.\<close>

definition utf16_index_to_byte_offset :: "nat \<Rightarrow> nat \<Rightarrow> nat \<Rightarrow> text_state \<Rightarrow> (int \<times> nat option) \<times> text_state" where
  "utf16_index_to_byte_offset str byte_len utf16_idx st0 =
     (let (is_ascii, st1) = str_is_ascii_at str st0
      in if is_ascii then
           (if utf16_idx > byte_len then ((- 1, None), st1)
            else ((int_of_size utf16_idx, Some (if utf16_idx < byte_len then 1 else 0)), st1))
         else
           let s = text_bytes st1 str;
               (cursor0, st2) = utf16_scan_cursor_init str byte_len st1;
               (cursor1, st3) = utf16_scan_cursor_resume_indexed utf16_idx cursor0 st2;
               cursor = utf16_cursor_skip s (Some utf16_idx) cursor1;
               st4 = utf16_scan_cursor_store cursor st3
           in if cu_p cursor \<ge> cu_byte_len cursor then
                (if cu_utf16_pos cursor = utf16_idx then ((int_of_size byte_len, Some 0), st4)
                 else ((- 1, None), st4))
              else
                let (slen, units, cp) = utf16_scan_decode s (cu_p cursor) (cu_byte_len cursor) False
                in ((int_of_size (cu_p cursor), Some slen), st4))"

function utf16_floor_loop :: "bytes \<Rightarrow> nat \<Rightarrow> utf16_scan_cursor \<Rightarrow> utf16_scan_cursor" where
  "utf16_floor_loop s utf16_idx cursor =
     (if cu_p cursor < cu_byte_len cursor \<and> cu_utf16_pos cursor < utf16_idx then
        let (slen, units, cp) = utf16_scan_decode s (cu_p cursor) (cu_byte_len cursor) False
        in if cu_utf16_pos cursor + units > utf16_idx then cursor
           else utf16_floor_loop s utf16_idx
                  (cursor\<lparr>cu_p := cu_p cursor + slen, cu_utf16_pos := cu_utf16_pos cursor + units\<rparr>)
      else cursor)"
  by pat_completeness auto
termination
  by (relation "measure (\<lambda>(s, idx, cursor). cu_byte_len cursor - cu_p cursor)")
    (auto dest!: sym [of _ "utf16_scan_decode _ _ _ _"] utf16_scan_decode_progress)

declare utf16_floor_loop.simps [simp del]

definition utf16_index_to_byte_offset_floor :: "nat \<Rightarrow> nat \<Rightarrow> nat \<Rightarrow> text_state \<Rightarrow> nat \<times> text_state" where
  "utf16_index_to_byte_offset_floor str byte_len utf16_idx st0 =
     (let (is_ascii, st1) = str_is_ascii_at str st0
      in if is_ascii then (if utf16_idx > byte_len then byte_len else utf16_idx, st1)
         else
           let (cursor0, st2) = utf16_scan_cursor_init str byte_len st1;
               cursor1 = utf16_scan_cursor_resume_utf16 (ts_scan st2) utf16_idx cursor0;
               cursor = utf16_floor_loop (text_bytes st2 str) utf16_idx cursor1
           in (cu_p cursor, utf16_scan_cursor_store cursor st2))"

text \<open>The halves of a surrogate pair, as the lookups compute them.\<close>

definition high_half :: "u32 \<Rightarrow> u32" where
  "high_half cp = 0xD800 + drop_bit 10 (cp - 0x10000)"

definition low_half :: "u32 \<Rightarrow> u32" where
  "low_half cp = 0xDC00 + ((cp - 0x10000) AND 0x3FF)"

record utf16_range_splits =
  prefix_surrogate :: u16
  suffix_surrogate :: u16

function utf16_range_start_loop :: "bytes \<Rightarrow> nat \<Rightarrow> utf16_scan_cursor \<Rightarrow> utf16_scan_cursor \<times> u16" where
  "utf16_range_start_loop s utf16_start cursor =
     (if cu_p cursor < cu_byte_len cursor \<and> cu_utf16_pos cursor < utf16_start then
        let (slen, units, cp) = utf16_scan_decode s (cu_p cursor) (cu_byte_len cursor) False
        in if units = 2 \<and> cu_utf16_pos cursor + 1 = utf16_start then
             let (slen, units, cp) = utf16_scan_decode s (cu_p cursor) (cu_byte_len cursor) True
             in (cursor\<lparr>cu_p := cu_p cursor + slen, cu_utf16_pos := cu_utf16_pos cursor + units\<rparr>,
                 ucast (low_half cp))
           else utf16_range_start_loop s utf16_start
                  (cursor\<lparr>cu_p := cu_p cursor + slen, cu_utf16_pos := cu_utf16_pos cursor + units\<rparr>)
      else (cursor, 0))"
  by pat_completeness auto
termination
  by (relation "measure (\<lambda>(s, idx, cursor). cu_byte_len cursor - cu_p cursor)")
    (auto dest!: sym [of _ "utf16_scan_decode _ _ _ _"] utf16_scan_decode_progress)

declare utf16_range_start_loop.simps [simp del]

function utf16_range_end_loop :: "bytes \<Rightarrow> nat \<Rightarrow> utf16_scan_cursor \<Rightarrow> utf16_scan_cursor \<times> u16" where
  "utf16_range_end_loop s utf16_end cursor =
     (if cu_p cursor < cu_byte_len cursor \<and> cu_utf16_pos cursor < utf16_end then
        let (slen, units, cp) = utf16_scan_decode s (cu_p cursor) (cu_byte_len cursor) False
        in if units = 2 \<and> cu_utf16_pos cursor + 1 = utf16_end then
             let (slen, units, cp) = utf16_scan_decode s (cu_p cursor) (cu_byte_len cursor) True
             in (cursor, ucast (high_half cp))
           else utf16_range_end_loop s utf16_end
                  (cursor\<lparr>cu_p := cu_p cursor + slen, cu_utf16_pos := cu_utf16_pos cursor + units\<rparr>)
      else (cursor, 0))"
  by pat_completeness auto
termination
  by (relation "measure (\<lambda>(s, idx, cursor). cu_byte_len cursor - cu_p cursor)")
    (auto dest!: sym [of _ "utf16_scan_decode _ _ _ _"] utf16_scan_decode_progress)

declare utf16_range_end_loop.simps [simp del]

definition utf16_range_to_byte_range ::
  "nat \<Rightarrow> nat \<Rightarrow> nat \<Rightarrow> nat \<Rightarrow> text_state \<Rightarrow> (utf16_range_splits \<times> nat \<times> nat) \<times> text_state" where
  "utf16_range_to_byte_range str byte_len utf16_start utf16_end st0 =
     (let no_splits = \<lparr>prefix_surrogate = 0, suffix_surrogate = 0\<rparr>
      in if utf16_start \<ge> utf16_end then ((no_splits, 0, 0), st0)
         else
           let (is_ascii, st1) = str_is_ascii_at str st0
           in if is_ascii then
                ((no_splits, if utf16_start \<le> byte_len then utf16_start else byte_len,
                  if utf16_end \<le> byte_len then utf16_end else byte_len), st1)
              else
                let s = text_bytes st1 str;
                    (cursor0, st2) = utf16_scan_cursor_init str byte_len st1;
                    (cursor1, st3) = utf16_scan_cursor_resume_indexed utf16_start cursor0 st2;
                    (cursor2, prefix) = utf16_range_start_loop s utf16_start cursor1;
                    (cursor3, suffix) = utf16_range_end_loop s utf16_end cursor2
                in ((\<lparr>prefix_surrogate = prefix, suffix_surrogate = suffix\<rparr>, cu_p cursor2, cu_p cursor3),
                    utf16_scan_cursor_store cursor3 st3))"

function utf16_byte_loop :: "bytes \<Rightarrow> nat \<Rightarrow> utf16_scan_cursor \<Rightarrow> utf16_scan_cursor \<times> bool" where
  "utf16_byte_loop s bound_end cursor =
     (if cu_p cursor < bound_end then
        let advanced = utf16_scan_cursor_advance s bound_end cursor
        in if \<not> snd advanced then (fst advanced, False)
           else utf16_byte_loop s bound_end (fst advanced)
      else (cursor, True))"
  by pat_completeness auto
termination
  by (relation "measure (\<lambda>(s, bound_end, cursor). bound_end - cu_p cursor)")
    (auto simp: utf16_scan_cursor_advance_progress(1) intro!: diff_less_mono2)

declare utf16_byte_loop.simps [simp del]

definition byte_offset_to_utf16 :: "nat \<Rightarrow> nat \<Rightarrow> text_state \<Rightarrow> nat \<times> text_state" where
  "byte_offset_to_utf16 str byte_off st0 =
     (let (is_ascii, st1) = str_is_ascii_at str st0
      in if is_ascii then (byte_off, st1)
         else
           let (cursor0, st2) = utf16_scan_cursor_init str byte_off st1;
               cursor1 = utf16_scan_cursor_resume_byte (ts_scan st2) byte_off cursor0;
               (cursor, ended_on_boundary) = utf16_byte_loop (text_bytes st2 str) byte_off cursor1
           in (cu_utf16_pos cursor,
               if ended_on_boundary then utf16_scan_cursor_store cursor st2 else st2))"

text \<open>
  The loop shared by \<^verbatim>\<open>utf16_code_unit_at\<close> (\<open>whole\<close> false) and \<^verbatim>\<open>utf16_codepoint_at\<close> (\<open>whole\<close> true):
  they differ in what they return at the first unit of a pair.
\<close>

function utf16_unit_loop :: "bool \<Rightarrow> bytes \<Rightarrow> nat \<Rightarrow> utf16_scan_cursor \<Rightarrow> u32 \<times> utf16_scan_cursor" where
  "utf16_unit_loop whole s utf16_idx cursor =
     (if cu_p cursor < cu_byte_len cursor then
        let (slen, units, cp) = utf16_scan_decode s (cu_p cursor) (cu_byte_len cursor) True
        in if cu_utf16_pos cursor = utf16_idx then
             (if \<not> whole \<and> units = 2 then high_half cp else cp, cursor)
           else if units = 2 \<and> cu_utf16_pos cursor + 1 = utf16_idx then (low_half cp, cursor)
           else utf16_unit_loop whole s utf16_idx
                  (cursor\<lparr>cu_p := cu_p cursor + slen, cu_utf16_pos := cu_utf16_pos cursor + units\<rparr>)
      else (0xFFFFFFFF, cursor))"
  by pat_completeness auto
termination
  by (relation "measure (\<lambda>(whole, s, idx, cursor). cu_byte_len cursor - cu_p cursor)")
    (auto dest!: sym [of _ "utf16_scan_decode _ _ _ _"] utf16_scan_decode_progress)

declare utf16_unit_loop.simps [simp del]

definition utf16_code_unit_at :: "nat \<Rightarrow> nat \<Rightarrow> nat \<Rightarrow> text_state \<Rightarrow> u32 \<times> text_state" where
  "utf16_code_unit_at str byte_len utf16_idx st0 =
     (let (is_ascii, st1) = str_is_ascii_at str st0;
          s = text_bytes st1 str
      in if is_ascii then (if utf16_idx \<ge> byte_len then 0xFFFFFFFF else ucast (s ! utf16_idx), st1)
         else
           let (cursor0, st2) = utf16_scan_cursor_init str byte_len st1;
               cursor1 = utf16_scan_cursor_resume_utf16 (ts_scan st2) utf16_idx cursor0;
               (cursor2, st3) =
                 (if utf16_idx > cu_utf16_pos cursor1
                     \<and> utf16_idx - cu_utf16_pos cursor1 > UTF16_INDEX_CHUNK
                  then case utf16_index_get str byte_len st2 of
                      (None, st) \<Rightarrow> (cursor1, st)
                    | (Some points, st) \<Rightarrow> (utf16_index_seek points utf16_idx cursor1, st)
                  else (cursor1, st2));
               (unit, cursor) = utf16_unit_loop False s utf16_idx cursor2
           in (unit, utf16_scan_cursor_store cursor st3))"

definition utf16_codepoint_at :: "nat \<Rightarrow> nat \<Rightarrow> nat \<Rightarrow> text_state \<Rightarrow> u32 \<times> text_state" where
  "utf16_codepoint_at str byte_len utf16_idx st0 =
     (let (is_ascii, st1) = str_is_ascii_at str st0;
          s = text_bytes st1 str
      in if is_ascii then (if utf16_idx \<ge> byte_len then 0xFFFFFFFF else ucast (s ! utf16_idx), st1)
         else
           let (cursor0, st2) = utf16_scan_cursor_init str byte_len st1;
               (cursor2, st3) = utf16_scan_cursor_resume_indexed utf16_idx cursor0 st2;
               (unit, cursor) = utf16_unit_loop True s utf16_idx cursor2
           in (unit, utf16_scan_cursor_store cursor st3))"

end
