(* ===== verification/Utf16_Lookup.thy ===== *)
theory Utf16_Lookup
  imports Utf16_Index
begin

unbundle bit_operations_syntax

text \<open>
  The lookups of \<open>Utf16_Index\<close> answer as a scan from the start would, whatever the caches
  hold. A position of a text is the number of characters before it; \<open>bpos\<close> and \<open>upos\<close> are its
  byte and code unit offsets. The invariant \<open>text_inv\<close> says that cached positions of the
  current epoch are positions of the string they name and that the string is live. Every
  lookup keeps it; the locale \<open>text_query\<close> states that contract once and is interpreted on
  each of them.
\<close>

section \<open>Positions of a text\<close>

definition bpos :: "nat list \<Rightarrow> nat \<Rightarrow> nat" where
  "bpos cs k = length (wtf8 (take k cs))"

definition upos :: "nat list \<Rightarrow> nat \<Rightarrow> nat" where
  "upos cs k = length (utf16 (take k cs))"

definition code_points :: "nat list \<Rightarrow> bool" where
  "code_points cs \<longleftrightarrow> (\<forall>c \<in> set cs. code_point c)"

lemma pos_0 [simp]: "bpos cs 0 = 0" "upos cs 0 = 0"
  by (simp_all add: bpos_def upos_def)

lemma pos_end [simp]: "bpos cs (length cs) = length (wtf8 cs)" "upos cs (length cs) = length (utf16 cs)"
  by (simp_all add: bpos_def upos_def)

lemma pos_Suc:
  "k < length cs \<Longrightarrow> bpos cs (Suc k) = bpos cs k + length (wtf8_char (cs ! k))"
  "k < length cs \<Longrightarrow> upos cs (Suc k) = upos cs k + length (utf16_char (cs ! k))"
  by (simp_all add: bpos_def upos_def take_Suc_conv_app_nth)

lemma bpos_strict: "j < k \<Longrightarrow> k \<le> length cs \<Longrightarrow> bpos cs j < bpos cs k"
proof (induction k)
  case (Suc k)
  then show ?case
    by (cases "j = k") (auto simp: pos_Suc trans_less_add1)
qed simp

lemma upos_strict: "j < k \<Longrightarrow> k \<le> length cs \<Longrightarrow> upos cs j < upos cs k"
proof (induction k)
  case (Suc k)
  then show ?case
    by (cases "j = k") (auto simp: pos_Suc trans_less_add1)
qed simp

lemma upos_mono: "j \<le> k \<Longrightarrow> k \<le> length cs \<Longrightarrow> upos cs j \<le> upos cs k"
  using upos_strict [of j k cs] by (cases "j = k") auto

lemma bpos_less_end: "k \<le> length cs \<Longrightarrow> bpos cs k < length (wtf8 cs) \<longleftrightarrow> k < length cs"
  using bpos_strict [of k "length cs" cs] by (cases "k = length cs") auto

lemma upos_le_bpos: "upos cs k \<le> bpos cs k"
  by (simp add: upos_def bpos_def utf16_le_wtf8)

lemma upos_less_iff: "j \<le> length cs \<Longrightarrow> k \<le> length cs \<Longrightarrow> upos cs j < upos cs k \<longleftrightarrow> j < k"
  using upos_strict [of j k cs] upos_mono [of k j cs] by (metis leD not_le)

lemma bpos_less_iff: "j \<le> length cs \<Longrightarrow> k \<le> length cs \<Longrightarrow> bpos cs j < bpos cs k \<longleftrightarrow> j < k"
  using bpos_strict [of j k cs] bpos_strict [of k j cs] by (metis less_asym linorder_cases)

lemma scan_decode_at:
  assumes "code_points cs" and "k < length cs" and "want \<longrightarrow> e = length (wtf8 cs)"
  shows "utf16_scan_decode (wtf8 cs) (bpos cs k) e want =
    (length (wtf8_char (cs ! k)), length (utf16_char (cs ! k)), if want then word_of_nat (cs ! k) else 0)"
proof -
  have split: "wtf8 cs = wtf8 (take k cs) @ wtf8_char (cs ! k) @ wtf8 (drop (Suc k) cs)"
    using id_take_nth_drop [OF assms(2)] by (metis wtf8_simps(2,3))
  have any: "utf16_scan_decode (wtf8 cs) p e False = utf16_scan_decode (wtf8 cs) p (length (wtf8 cs)) False" for p
    by (simp add: utf16_scan_decode_def Let_def)
  have "utf16_scan_decode (wtf8 cs) (bpos cs k) (length (wtf8 cs)) want =
    (length (wtf8_char (cs ! k)), length (utf16_char (cs ! k)), if want then word_of_nat (cs ! k) else 0)"
    unfolding split bpos_def
    using assms(1,2) by (intro utf16_scan_decode_char) (auto simp: code_points_def)
  with any assms(3) show ?thesis by (cases want) simp_all
qed

section \<open>Cursors\<close>

definition cursor_at :: "nat list \<Rightarrow> nat \<Rightarrow> utf16_scan_cursor \<Rightarrow> bool" where
  "cursor_at cs k cursor \<longleftrightarrow>
     k \<le> length cs \<and> cu_p cursor = bpos cs k \<and> cu_utf16_pos cursor = upos cs k"

lemma cursor_at_start:
  "cursor_at cs 0 \<lparr>cu_str = str, cu_byte_len = n, cu_p = 0, cu_utf16_pos = 0\<rparr>"
  by (simp add: cursor_at_def)

lemma cursor_at_Suc:
  "cursor_at cs k cursor \<Longrightarrow> k < length cs \<Longrightarrow>
    cursor_at cs (Suc k) (cursor\<lparr>cu_p := bpos cs k + length (wtf8_char (cs ! k)),
      cu_utf16_pos := upos cs k + length (utf16_char (cs ! k))\<rparr>)"
  by (simp add: cursor_at_def pos_Suc)

lemma advance_at:
  assumes "code_points cs" and "cursor_at cs k cursor" and "k < length cs"
    and "bpos cs (Suc k) \<le> bound_end"
  shows "utf16_scan_cursor_advance (wtf8 cs) bound_end cursor =
    (cursor\<lparr>cu_p := bpos cs (Suc k), cu_utf16_pos := upos cs (Suc k)\<rparr>, True)"
  using assms scan_decode_at [OF assms(1,3), of False]
  by (simp add: utf16_scan_cursor_advance_def cursor_at_def pos_Suc)

lemma cursor_at_advance:
  assumes "code_points cs" and "cursor_at cs k cursor" and "k < length cs"
    and "cu_byte_len cursor = length (wtf8 cs)"
  shows "fst (utf16_scan_cursor_advance (wtf8 cs) (cu_byte_len cursor) cursor) =
      cursor\<lparr>cu_p := bpos cs (Suc k), cu_utf16_pos := upos cs (Suc k)\<rparr>"
proof -
  have "bpos cs (Suc k) \<le> length (wtf8 cs)"
    using assms(3) bpos_strict [of "Suc k" "length cs" cs] by (cases "Suc k = length cs") auto
  then show ?thesis
    using advance_at [OF assms(1-3)] assms(4) by simp
qed

text \<open>Skipping stops at the first position at or after the code unit, or at the end.\<close>

lemma utf16_cursor_skip_at:
  assumes "code_points cs" and "cursor_at cs k cursor" and "cu_byte_len cursor = length (wtf8 cs)"
  obtains j where "k \<le> j" "cursor_at cs j (utf16_cursor_skip (wtf8 cs) idx cursor)"
    "utf16_cursor_skip (wtf8 cs) idx cursor = cursor\<lparr>cu_p := bpos cs j, cu_utf16_pos := upos cs j\<rparr>"
    "j < length cs \<Longrightarrow> \<exists>i \<in> set_option idx. i \<le> upos cs j"
    "\<And>l i. k \<le> l \<Longrightarrow> l < j \<Longrightarrow> i \<in> set_option idx \<Longrightarrow> upos cs l < i"
proof -
  define stops where "stops k cursor j \<longleftrightarrow> k \<le> j \<and> cursor_at cs j (utf16_cursor_skip (wtf8 cs) idx cursor) \<and>
    utf16_cursor_skip (wtf8 cs) idx cursor = cursor\<lparr>cu_p := bpos cs j, cu_utf16_pos := upos cs j\<rparr> \<and>
    (j < length cs \<longrightarrow> (\<exists>i \<in> set_option idx. i \<le> upos cs j)) \<and>
    (\<forall>l. k \<le> l \<and> l < j \<longrightarrow> (\<forall>i \<in> set_option idx. upos cs l < i))" for k cursor j
  have "\<exists>j. stops k cursor j"
    using assms(2,3)
  proof (induction "length cs - k" arbitrary: k cursor rule: less_induct)
    case less
    have len: "cu_p cursor < cu_byte_len cursor \<longleftrightarrow> k < length cs"
      using less.prems bpos_less_end [of k cs] by (simp add: cursor_at_def)
    have upd: "cursor = cursor\<lparr>cu_p := bpos cs k, cu_utf16_pos := upos cs k\<rparr>"
      using less.prems(1) by (simp add: cursor_at_def)
    show ?case
    proof (cases "k < length cs \<and> (\<forall>i \<in> set_option idx. upos cs k < i)")
      case False
      then have "utf16_cursor_skip (wtf8 cs) idx cursor = cursor"
        using less.prems(1) len by (subst utf16_cursor_skip.simps) (auto simp: cursor_at_def)
      then have "stops k cursor k"
        unfolding stops_def using False less.prems(1) upd by auto
      then show ?thesis ..
    next
      case True
      let ?next = "cursor\<lparr>cu_p := bpos cs (Suc k), cu_utf16_pos := upos cs (Suc k)\<rparr>"
      have at: "cursor_at cs (Suc k) ?next" and "length cs - Suc k < length cs - k"
        using True by (auto simp: cursor_at_def)
      then obtain j where j: "stops (Suc k) ?next j"
        using less.hyps [OF _ at] less.prems(2) by auto
      have "utf16_cursor_skip (wtf8 cs) idx cursor = utf16_cursor_skip (wtf8 cs) idx ?next"
        using True less.prems len cursor_at_advance [OF assms(1) less.prems(1)]
        by (subst utf16_cursor_skip.simps) (auto simp: cursor_at_def)
      moreover have "\<forall>l. k \<le> l \<and> l < j \<longrightarrow> (\<forall>i \<in> set_option idx. upos cs l < i)"
        using j True unfolding stops_def by (metis Suc_leI le_neq_implies_less)
      ultimately have "stops k cursor j"
        using j unfolding stops_def by auto
      then show ?thesis ..
    qed
  qed
  then show thesis using that unfolding stops_def by blast
qed

text \<open>The loop of the floor lookup stops at the last position not after the code unit.\<close>

lemma utf16_floor_loop_at:
  assumes "code_points cs" and "cursor_at cs k cursor" and "cu_byte_len cursor = length (wtf8 cs)"
    and "upos cs k \<le> idx"
  obtains j where "cursor_at cs j (utf16_floor_loop (wtf8 cs) idx cursor)"
    "utf16_floor_loop (wtf8 cs) idx cursor = cursor\<lparr>cu_p := bpos cs j, cu_utf16_pos := upos cs j\<rparr>"
    "upos cs j \<le> idx" "j < length cs \<Longrightarrow> idx < upos cs (Suc j)"
proof -
  define stops where "stops cursor j \<longleftrightarrow> cursor_at cs j (utf16_floor_loop (wtf8 cs) idx cursor) \<and>
    utf16_floor_loop (wtf8 cs) idx cursor = cursor\<lparr>cu_p := bpos cs j, cu_utf16_pos := upos cs j\<rparr> \<and>
    upos cs j \<le> idx \<and> (j < length cs \<longrightarrow> idx < upos cs (Suc j))" for cursor j
  have "\<exists>j. stops cursor j"
    using assms(2-4)
  proof (induction "length cs - k" arbitrary: k cursor rule: less_induct)
    case less
    have at: "cu_p cursor = bpos cs k" "cu_utf16_pos cursor = upos cs k" "k \<le> length cs"
      using less.prems(1) by (simp_all add: cursor_at_def)
    then have upd: "cursor = cursor\<lparr>cu_p := bpos cs k, cu_utf16_pos := upos cs k\<rparr>" by simp
    show ?case
    proof (cases "k < length cs \<and> upos cs (Suc k) \<le> idx")
      case True
      let ?next = "cursor\<lparr>cu_p := bpos cs (Suc k), cu_utf16_pos := upos cs (Suc k)\<rparr>"
      have next_at: "cursor_at cs (Suc k) ?next" and "length cs - Suc k < length cs - k"
        using True by (auto simp: cursor_at_def)
      then obtain j where j: "stops ?next j"
        using less.hyps [OF _ next_at] less.prems(2) True by auto
      have "upos cs k < idx"
        using True upos_strict [of k "Suc k" cs] by simp
      then have "utf16_floor_loop (wtf8 cs) idx cursor = utf16_floor_loop (wtf8 cs) idx ?next"
        using True less.prems(2) at scan_decode_at [OF assms(1), of k False] bpos_less_end [of k cs]
          pos_Suc [of k cs]
        by (subst utf16_floor_loop.simps) simp
      with j have "stops cursor j" unfolding stops_def by auto
      then show ?thesis ..
    next
      case False
      have "utf16_floor_loop (wtf8 cs) idx cursor = cursor"
      proof (cases "k < length cs")
        case True
        then show ?thesis
          using False less.prems(2) at scan_decode_at [OF assms(1), of k False]
          by (subst utf16_floor_loop.simps) (simp add: pos_Suc)
      next
        case False
        then show ?thesis
          using at less.prems(2) by (subst utf16_floor_loop.simps) simp
      qed
      then have "stops cursor k"
        unfolding stops_def using False less.prems(1,3) upd by auto
      then show ?thesis ..
    qed
  qed
  then show thesis using that unfolding stops_def by blast
qed

text \<open>Surrogate halves.\<close>

lemma word_of_unat: "unat w = n \<Longrightarrow> w = word_of_nat n"
  by auto

lemma pair_halves:
  assumes "0x10000 \<le> c" and "c < 0x110000"
  shows "high_half (word_of_nat c) = word_of_nat (utf16_char c ! 0)"
    and "low_half (word_of_nat c) = word_of_nat (utf16_char c ! 1)"
proof -
  have c: "unat (word_of_nat c :: u32) = c"
    using assms by (simp add: unsigned_of_nat take_bit_nat_eq_self)
  then have "(0x10000 :: u32) \<le> word_of_nat c"
    using assms(1) by (simp add: word_le_nat_alt)
  then have d: "unat ((word_of_nat c :: u32) - 0x10000) = c - 0x10000"
    using c by (simp add: unat_sub)
  have q: "(c - 0x10000) div 0x400 < 0x400" using assms(2) by simp
  have "unat (high_half (word_of_nat c)) = 0xD800 + (c - 0x10000) div 0x400"
    using q d unat_drop_bit_u32 [where n = 10 and x = "(word_of_nat c :: u32) - 0x10000"]
    by (simp add: high_half_def unat_word_ariths)
  then have "unat (high_half (word_of_nat c)) = utf16_char c ! 0"
    using assms(1) by (simp add: utf16_char_def)
  then show "high_half (word_of_nat c) = word_of_nat (utf16_char c ! 0)"
    by (rule word_of_unat)
  have "(0x3FF :: u32) = mask 10" by (simp add: mask_eq_exp_minus_1)
  then have "unat (((word_of_nat c :: u32) - 0x10000) AND 0x3FF) = (c - 0x10000) mod 0x400"
    using unat_mask_and [where x = "(word_of_nat c :: u32) - 0x10000" and n = 10] d by simp
  then have "unat (low_half (word_of_nat c)) = 0xDC00 + (c - 0x10000) mod 0x400"
    using mod_less_divisor [where m = "c - 0x10000" and n = "0x400"] by (simp add: low_half_def unat_word_ariths)
  then have "unat (low_half (word_of_nat c)) = utf16_char c ! 1"
    using assms(1) by (simp add: utf16_char_def)
  then show "low_half (word_of_nat c) = word_of_nat (utf16_char c ! 1)"
    by (rule word_of_unat)
qed

text \<open>What \<^verbatim>\<open>charCodeAt\<close> and \<^verbatim>\<open>codePointAt\<close> are to return at a code unit, by recursion on the text.\<close>

fun unit_spec :: "bool \<Rightarrow> nat list \<Rightarrow> nat \<Rightarrow> u32" where
  "unit_spec whole [] i = 0xFFFFFFFF"
| "unit_spec whole (c # cs) i =
     (if i = 0 \<and> whole then word_of_nat c
      else if i < length (utf16_char c) then word_of_nat (utf16_char c ! i)
      else unit_spec whole cs (i - length (utf16_char c)))"

lemma unit_spec_units:
  "unit_spec False cs i = (if i < length (utf16 cs) then word_of_nat (utf16 cs ! i) else 0xFFFFFFFF)"
  by (induction cs arbitrary: i) (auto simp: nth_append)

lemma utf16_unit_loop_at:
  assumes "code_points cs" and "cursor_at cs k cursor" and "cu_byte_len cursor = length (wtf8 cs)"
    and "upos cs k \<le> idx"
  obtains j where "cursor_at cs j (snd (utf16_unit_loop whole (wtf8 cs) idx cursor))"
    "utf16_unit_loop whole (wtf8 cs) idx cursor =
      (unit_spec whole (drop k cs) (idx - upos cs k), cursor\<lparr>cu_p := bpos cs j, cu_utf16_pos := upos cs j\<rparr>)"
proof -
  define stops where "stops k cursor j \<longleftrightarrow>
    cursor_at cs j (snd (utf16_unit_loop whole (wtf8 cs) idx cursor)) \<and>
    utf16_unit_loop whole (wtf8 cs) idx cursor =
      (unit_spec whole (drop k cs) (idx - upos cs k), cursor\<lparr>cu_p := bpos cs j, cu_utf16_pos := upos cs j\<rparr>)"
    for k cursor j
  have "\<exists>j. stops k cursor j"
    using assms(2-4)
  proof (induction "length cs - k" arbitrary: k cursor rule: less_induct)
    case less
    have at: "cu_p cursor = bpos cs k" "cu_utf16_pos cursor = upos cs k" "k \<le> length cs"
      using less.prems(1) by (simp_all add: cursor_at_def)
    then have upd: "cursor = cursor\<lparr>cu_p := bpos cs k, cu_utf16_pos := upos cs k\<rparr>" by simp
    show ?case
    proof (cases "k < length cs")
      case False
      then have "stops k cursor k"
        unfolding stops_def using at less.prems(1,2) upd
        by (subst (1 2) utf16_unit_loop.simps) simp
      then show ?thesis ..
    next
      case True
      let ?c = "cs ! k"
      have drop: "drop k cs = ?c # drop (Suc k) cs" using True by (simp add: Cons_nth_drop_Suc)
      have c: "code_point ?c" using True assms(1) by (simp add: code_points_def)
      note decode = scan_decode_at [OF assms(1) True, of True "length (wtf8 cs)"]
      have inside: "bpos cs k < length (wtf8 cs)" using True at bpos_less_end [of k cs] by simp
      show ?thesis
      proof (cases "idx < upos cs (Suc k)")
        case here: True
        have "stops k cursor k"
        proof (cases "?c < 0x10000")
          case True
          then have "utf16_char ?c = [?c]" by (simp add: utf16_char_def)
          then show ?thesis
            unfolding stops_def using at less.prems decode inside upd here pos_Suc(2) [OF \<open>k < length cs\<close>]
            by (subst (1 2) utf16_unit_loop.simps) (simp add: drop)
        next
          case False
          then have two: "length (utf16_char ?c) = 2" by (simp add: utf16_char_length)
          have halves: "high_half (word_of_nat ?c) = word_of_nat (utf16_char ?c ! 0)"
            "low_half (word_of_nat ?c) = word_of_nat (utf16_char ?c ! 1)"
            using False c pair_halves [of ?c] by (simp_all add: code_point_def)
          have "idx = upos cs k \<or> idx = upos cs k + 1"
            using here less.prems(3) pos_Suc(2) [OF \<open>k < length cs\<close>] two by linarith
          then show ?thesis
            unfolding stops_def using at less.prems decode inside upd two halves
            by (subst (1 2) utf16_unit_loop.simps) (auto simp: drop)
        qed
        then show ?thesis ..
      next
        case False
        let ?next = "cursor\<lparr>cu_p := bpos cs (Suc k), cu_utf16_pos := upos cs (Suc k)\<rparr>"
        have next_at: "cursor_at cs (Suc k) ?next" and "length cs - Suc k < length cs - k"
          using True by (auto simp: cursor_at_def)
        then obtain j where j: "stops (Suc k) ?next j"
          using less.hyps [OF _ next_at] less.prems(2) False by auto
        have step: "upos cs (Suc k) = upos cs k + length (utf16_char ?c)"
          "bpos cs (Suc k) = bpos cs k + length (wtf8_char ?c)"
          using pos_Suc [OF True] by simp_all
        have "utf16_unit_loop whole (wtf8 cs) idx cursor = utf16_unit_loop whole (wtf8 cs) idx ?next"
          using at less.prems(2) decode inside False
          by (subst utf16_unit_loop.simps) (auto simp: step utf16_char_length)
        moreover have "unit_spec whole (drop k cs) (idx - upos cs k)
            = unit_spec whole (drop (Suc k) cs) (idx - upos cs (Suc k))"
          using False unfolding drop step by (auto simp: utf16_char_length)
        ultimately have "stops k cursor j"
          using j unfolding stops_def by auto
        then show ?thesis ..
      qed
    qed
  qed
  then show thesis using that unfolding stops_def by blast
qed

section \<open>Ranges\<close>

text \<open>
  Where the two loops of the range lookup stop. A range that starts at the second unit of a
  pair gives its low half as the prefix and starts after the pair; one that ends between the
  units of a pair gives the high half as the suffix and ends before the pair.
\<close>

definition starts_at :: "nat list \<Rightarrow> nat \<Rightarrow> nat \<Rightarrow> u16 \<Rightarrow> bool" where
  "starts_at cs start j pre \<longleftrightarrow>
     j \<le> length cs \<and>
     (pre = 0 \<and> (upos cs j = start \<or> j = length cs \<and> upos cs j < start) \<or>
      0 < j \<and> 0x10000 \<le> cs ! (j - 1) \<and> upos cs j = start + 1 \<and> pre = word_of_nat (utf16_char (cs ! (j - 1)) ! 1))"

definition ends_at :: "nat list \<Rightarrow> nat \<Rightarrow> nat \<Rightarrow> u16 \<Rightarrow> bool" where
  "ends_at cs e j suf \<longleftrightarrow>
     j \<le> length cs \<and>
     (suf = 0 \<and> (upos cs j = e \<or> j = length cs \<and> upos cs j < e) \<or>
      j < length cs \<and> 0x10000 \<le> cs ! j \<and> upos cs j + 1 = e \<and> suf = word_of_nat (utf16_char (cs ! j) ! 0))"

lemma ucast_u32_u16: "ucast (word_of_nat n :: u32) = (word_of_nat n :: u16)"
  by (simp add: word_unat_eq_iff unsigned_ucast_eq unsigned_of_nat)

lemma utf16_range_start_loop_at:
  assumes "code_points cs" and "cursor_at cs k cursor" and "cu_byte_len cursor = length (wtf8 cs)"
    and "upos cs k \<le> start"
  obtains j pre where "k \<le> j" "starts_at cs start j pre" "utf16_range_start_loop (wtf8 cs) start cursor =
    (cursor\<lparr>cu_p := bpos cs j, cu_utf16_pos := upos cs j\<rparr>, pre)"
proof -
  define stops where "stops k cursor j pre \<longleftrightarrow> k \<le> j \<and> starts_at cs start j pre \<and>
    utf16_range_start_loop (wtf8 cs) start cursor =
      (cursor\<lparr>cu_p := bpos cs j, cu_utf16_pos := upos cs j\<rparr>, pre)" for k cursor j pre
  have "\<exists>j pre. stops k cursor j pre"
    using assms(2-4)
  proof (induction "length cs - k" arbitrary: k cursor rule: less_induct)
    case less
    have at: "cu_p cursor = bpos cs k" "cu_utf16_pos cursor = upos cs k" "k \<le> length cs"
      using less.prems(1) by (simp_all add: cursor_at_def)
    then have upd: "cursor = cursor\<lparr>cu_p := bpos cs k, cu_utf16_pos := upos cs k\<rparr>" by simp
    show ?case
    proof (cases "k < length cs \<and> upos cs k < start")
      case False
      then have "stops k cursor k 0"
        unfolding stops_def starts_at_def
        using at less.prems(2,3) upd bpos_less_end [of k cs]
        by (subst utf16_range_start_loop.simps) auto
      then show ?thesis by blast
    next
      case True
      let ?c = "cs ! k"
      have k: "k < length cs" and before: "upos cs k < start" using True by simp_all
      have step: "upos cs (Suc k) = upos cs k + length (utf16_char ?c)"
        "bpos cs (Suc k) = bpos cs k + length (wtf8_char ?c)"
        using pos_Suc [OF k] by simp_all
      have inside: "bpos cs k < length (wtf8 cs)" using k at bpos_less_end [of k cs] by simp
      note decode = scan_decode_at [OF assms(1) k, of True "length (wtf8 cs)"]
        scan_decode_at [OF assms(1) k, of False]
      show ?thesis
      proof (cases "length (utf16_char ?c) = 2 \<and> upos cs k + 1 = start")
        case split: True
        then have "0x10000 \<le> ?c" by (simp add: utf16_char_length split: if_splits)
        moreover have "?c < 0x110000" using assms(1) k by (simp add: code_points_def code_point_def)
        ultimately have "stops k cursor (Suc k) (word_of_nat (utf16_char ?c ! 1))"
          unfolding stops_def starts_at_def
          using at less.prems(2) inside split k decode pair_halves(2) [of ?c] ucast_u32_u16
          by (subst utf16_range_start_loop.simps) (simp add: step)
        then show ?thesis by blast
      next
        case False
        let ?next = "cursor\<lparr>cu_p := bpos cs (Suc k), cu_utf16_pos := upos cs (Suc k)\<rparr>"
        have next_at: "cursor_at cs (Suc k) ?next" and "length cs - Suc k < length cs - k"
          and "upos cs (Suc k) \<le> start"
          using k before False by (auto simp: cursor_at_def step utf16_char_length split: if_splits)
        then obtain j pre where j: "stops (Suc k) ?next j pre"
          using less.hyps [OF _ next_at] less.prems(2) by auto
        have "utf16_range_start_loop (wtf8 cs) start cursor = utf16_range_start_loop (wtf8 cs) start ?next"
          using at less.prems(2) decode inside before False
          by (subst utf16_range_start_loop.simps) (auto simp: step)
        with j have "stops k cursor j pre"
          unfolding stops_def by auto
        then show ?thesis by blast
      qed
    qed
  qed
  then show thesis using that unfolding stops_def by blast
qed

lemma utf16_range_end_loop_at:
  assumes "code_points cs" and "cursor_at cs k cursor" and "cu_byte_len cursor = length (wtf8 cs)"
    and "upos cs k \<le> e"
  obtains j suf where "k \<le> j" "ends_at cs e j suf" "utf16_range_end_loop (wtf8 cs) e cursor =
    (cursor\<lparr>cu_p := bpos cs j, cu_utf16_pos := upos cs j\<rparr>, suf)"
proof -
  define stops where "stops k cursor j suf \<longleftrightarrow> k \<le> j \<and> ends_at cs e j suf \<and>
    utf16_range_end_loop (wtf8 cs) e cursor =
      (cursor\<lparr>cu_p := bpos cs j, cu_utf16_pos := upos cs j\<rparr>, suf)" for k cursor j suf
  have "\<exists>j suf. stops k cursor j suf"
    using assms(2-4)
  proof (induction "length cs - k" arbitrary: k cursor rule: less_induct)
    case less
    have at: "cu_p cursor = bpos cs k" "cu_utf16_pos cursor = upos cs k" "k \<le> length cs"
      using less.prems(1) by (simp_all add: cursor_at_def)
    then have upd: "cursor = cursor\<lparr>cu_p := bpos cs k, cu_utf16_pos := upos cs k\<rparr>" by simp
    show ?case
    proof (cases "k < length cs \<and> upos cs k < e")
      case False
      then have "stops k cursor k 0"
        unfolding stops_def ends_at_def
        using at less.prems(2,3) upd bpos_less_end [of k cs]
        by (subst utf16_range_end_loop.simps) auto
      then show ?thesis by blast
    next
      case True
      let ?c = "cs ! k"
      have k: "k < length cs" and before: "upos cs k < e" using True by simp_all
      have step: "upos cs (Suc k) = upos cs k + length (utf16_char ?c)"
        "bpos cs (Suc k) = bpos cs k + length (wtf8_char ?c)"
        using pos_Suc [OF k] by simp_all
      have inside: "bpos cs k < length (wtf8 cs)" using k at bpos_less_end [of k cs] by simp
      note decode = scan_decode_at [OF assms(1) k, of True "length (wtf8 cs)"]
        scan_decode_at [OF assms(1) k, of False]
      show ?thesis
      proof (cases "length (utf16_char ?c) = 2 \<and> upos cs k + 1 = e")
        case split: True
        then have "0x10000 \<le> ?c" by (simp add: utf16_char_length split: if_splits)
        moreover have "?c < 0x110000" using assms(1) k by (simp add: code_points_def code_point_def)
        ultimately have "stops k cursor k (word_of_nat (utf16_char ?c ! 0))"
          unfolding stops_def ends_at_def
          using at less.prems(2) inside split k decode pair_halves(1) [of ?c] ucast_u32_u16 upd
          by (subst utf16_range_end_loop.simps) simp
        then show ?thesis by blast
      next
        case False
        let ?next = "cursor\<lparr>cu_p := bpos cs (Suc k), cu_utf16_pos := upos cs (Suc k)\<rparr>"
        have next_at: "cursor_at cs (Suc k) ?next" and "length cs - Suc k < length cs - k"
          and "upos cs (Suc k) \<le> e"
          using k before False by (auto simp: cursor_at_def step utf16_char_length split: if_splits)
        then obtain j suf where j: "stops (Suc k) ?next j suf"
          using less.hyps [OF _ next_at] less.prems(2) by auto
        have "utf16_range_end_loop (wtf8 cs) e cursor = utf16_range_end_loop (wtf8 cs) e ?next"
          using at less.prems(2) decode inside before False
          by (subst utf16_range_end_loop.simps) (auto simp: step)
        with j have "stops k cursor j suf"
          unfolding stops_def by auto
        then show ?thesis by blast
      qed
    qed
  qed
  then show thesis using that unfolding stops_def by blast
qed

text \<open>The units of the range: the prefix, the units of the bytes between, and the suffix.\<close>

definition half_list :: "u16 \<Rightarrow> nat list" where
  "half_list h = (if h = 0 then [] else [unat h])"

lemma half_list_unit:
  assumes "0 < n" and "n < 0x10000"
  shows "half_list (word_of_nat n) = [n]"
proof -
  have "unat (word_of_nat n :: u16) = n"
    using assms(2) by (simp add: unsigned_of_nat take_bit_nat_eq_self)
  with assms(1) show ?thesis
    by (auto simp: half_list_def)
qed

lemma pair_bounds:
  assumes "code_point c" and "0x10000 \<le> c"
  shows "utf16_char c = [utf16_char c ! 0, utf16_char c ! 1]"
    "0 < utf16_char c ! 0" "utf16_char c ! 0 < 0x10000"
    "0 < utf16_char c ! 1" "utf16_char c ! 1 < 0x10000"
proof -
  have "(c - 0x10000) div 0x400 < 0x400" "(c - 0x10000) mod 0x400 < 0x400"
    using assms by (simp_all add: code_point_def)
  then show "utf16_char c = [utf16_char c ! 0, utf16_char c ! 1]"
    "0 < utf16_char c ! 0" "utf16_char c ! 0 < 0x10000"
    "0 < utf16_char c ! 1" "utf16_char c ! 1 < 0x10000"
    using assms(2) by (simp_all add: utf16_char_def)
qed

lemma starts_at_units:
  assumes "code_points cs" and "starts_at cs start j pre"
  shows "drop start (utf16 (take j cs)) = half_list pre" "start \<le> upos cs j \<or> j = length cs"
proof -
  show "drop start (utf16 (take j cs)) = half_list pre"
    using assms(2) unfolding starts_at_def
  proof (elim conjE disjE)
    assume "0 < j" and j: "j \<le> length cs" and big: "0x10000 \<le> cs ! (j - 1)" and up: "upos cs j = start + 1"
      and pre: "pre = word_of_nat (utf16_char (cs ! (j - 1)) ! 1)"
    then obtain i where i: "j = Suc i" by (cases j) auto
    let ?c = "cs ! i"
    have c: "code_point ?c" using assms(1) i j by (simp add: code_points_def)
    have take: "take j cs = take i cs @ [?c]" using i j by (simp add: take_Suc_conv_app_nth)
    note pair = pair_bounds [OF c] big i
    have "upos cs j = upos cs i + 2"
      using pos_Suc(2) [of i cs] i j big by (simp add: utf16_char_length)
    then have "start = length (utf16 (take i cs)) + 1"
      using up by (simp add: upos_def)
    then have "drop start (utf16 (take j cs)) = drop 1 (utf16_char ?c)"
      unfolding take by simp
    also have "\<dots> = [utf16_char ?c ! 1]"
      using pair by (metis One_nat_def diff_Suc_1 drop0 drop_Suc_Cons)
    finally show ?thesis
      using pre pair half_list_unit [of "utf16_char ?c ! 1"] by simp
  qed (simp_all add: half_list_def upos_def)
  show "start \<le> upos cs j \<or> j = length cs"
    using assms(2) by (auto simp: starts_at_def)
qed

lemma ends_at_units:
  assumes "code_points cs" and "ends_at cs e j suf"
  shows "take e (utf16 cs) = utf16 (take j cs) @ half_list suf"
proof -
  have split: "utf16 cs = utf16 (take j cs) @ utf16 (drop j cs)"
    by (metis append_take_drop_id utf16_simps(3))
  show ?thesis
    using assms(2) unfolding ends_at_def
  proof (elim conjE disjE)
    assume j: "j < length cs" and big: "0x10000 \<le> cs ! j" and up: "upos cs j + 1 = e"
      and suf: "suf = word_of_nat (utf16_char (cs ! j) ! 0)"
    have c: "code_point (cs ! j)" using assms(1) j by (simp add: code_points_def)
    note pair = pair_bounds [OF c big]
    have "utf16 (drop j cs) = utf16_char (cs ! j) @ utf16 (drop (Suc j) cs)"
      using j by (metis Cons_nth_drop_Suc utf16_simps(2))
    then have "take 1 (utf16 (drop j cs)) = [utf16_char (cs ! j) ! 0]"
      using pair(1) by (metis One_nat_def append_Cons take0 take_Suc_Cons)
    moreover have "e = length (utf16 (take j cs)) + 1" using up by (simp add: upos_def)
    ultimately show ?thesis
      using suf half_list_unit [OF pair(2,3)] by (subst split) simp
  qed (subst split, simp add: half_list_def upos_def)+
qed

lemma range_units:
  assumes "code_points cs" and "starts_at cs start i pre" and "ends_at cs e j suf" and "i \<le> j" and "start < e"
  shows "take (e - start) (drop start (utf16 cs)) = half_list pre @ utf16 (drop i (take j cs)) @ half_list suf"
proof -
  have "take (e - start) (drop start (utf16 cs)) = drop start (take e (utf16 cs))"
    by (simp add: drop_take)
  also have "\<dots> = drop start (utf16 (take i cs) @ utf16 (drop i (take j cs)) @ half_list suf)"
  proof -
    have "take j cs = take i cs @ drop i (take j cs)"
      using assms(4) by (metis append_take_drop_id min.absorb1 take_take)
    then show ?thesis
      using ends_at_units [OF assms(1,3)] by (metis append.assoc utf16_simps(3))
  qed
  also have "\<dots> = half_list pre @ utf16 (drop i (take j cs)) @ half_list suf"
  proof (cases "start \<le> upos cs i")
    case True
    then show ?thesis
      using starts_at_units(1) [OF assms(1,2)] by (simp add: upos_def)
  next
    case False
    then have "i = length cs" using starts_at_units(2) [OF assms(1,2)] by simp
    moreover from this assms(3,4) have "suf = 0" by (auto simp: ends_at_def)
    ultimately show ?thesis
      using starts_at_units(1) [OF assms(1,2)] by (simp add: half_list_def)
  qed
  finally show ?thesis .
qed

section \<open>Byte offsets\<close>

text \<open>
  The loop of \<^verbatim>\<open>byte_offset_to_utf16\<close> from a position before the offset: an offset between
  characters ends on the boundary; one inside a character does not and counts the units of
  that character too.
\<close>

lemma utf16_byte_loop_at:
  assumes "code_points cs" and "cursor_at cs k cursor" and "k \<le> j" and "j < length cs \<or> j = length cs \<and> off = bpos cs j"
    and "bpos cs j \<le> off" and "j < length cs \<Longrightarrow> off < bpos cs (Suc j)"
  shows "utf16_byte_loop (wtf8 cs) off cursor =
    (if off = bpos cs j then (cursor\<lparr>cu_p := bpos cs j, cu_utf16_pos := upos cs j\<rparr>, True)
     else (cursor\<lparr>cu_p := off, cu_utf16_pos := upos cs (Suc j)\<rparr>, False))"
  using assms(2,3)
proof (induction "j - k" arbitrary: k cursor)
  case 0
  then have at: "cu_p cursor = bpos cs j" "cu_utf16_pos cursor = upos cs j"
    by (auto simp: cursor_at_def)
  show ?case
  proof (cases "off = bpos cs j")
    case True
    then show ?thesis
      using at by (subst utf16_byte_loop.simps) simp
  next
    case False
    then have j: "j < length cs" "bpos cs j < off" "off < bpos cs (Suc j)"
      using assms(4-6) by auto
    then show ?thesis
      using at False pos_Suc [OF j(1)] scan_decode_at [OF assms(1) j(1), of False]
      by (subst utf16_byte_loop.simps) (simp add: utf16_scan_cursor_advance_def)
  qed
next
  case (Suc d)
  then have k: "k < j" "k < length cs" using assms(4) by auto
  then have "bpos cs (Suc k) \<le> bpos cs j" "bpos cs k < off"
    using assms(4,5) bpos_less_iff [of j cs "Suc k"] bpos_strict [of k j cs] by (auto simp: not_less[symmetric])
  then have "utf16_scan_cursor_advance (wtf8 cs) off cursor =
      (cursor\<lparr>cu_p := bpos cs (Suc k), cu_utf16_pos := upos cs (Suc k)\<rparr>, True)"
    using advance_at [OF assms(1) Suc.prems(1) k(2)] assms(5) by simp
  moreover have "cursor_at cs (Suc k) (cursor\<lparr>cu_p := bpos cs (Suc k), cu_utf16_pos := upos cs (Suc k)\<rparr>)"
    using k by (simp add: cursor_at_def)
  ultimately show ?case
    using Suc.hyps(1) [of "Suc k" "cursor\<lparr>cu_p := bpos cs (Suc k), cu_utf16_pos := upos cs (Suc k)\<rparr>"]
      Suc.hyps(2) k \<open>bpos cs k < off\<close> Suc.prems(1)
    by (subst utf16_byte_loop.simps) (simp add: cursor_at_def)
qed

lemma position_before:
  assumes "off \<le> length (wtf8 cs)"
  obtains j where "j \<le> length cs" "bpos cs j \<le> off" "j < length cs \<Longrightarrow> off < bpos cs (Suc j)"
    "j < length cs \<or> j = length cs \<and> off = bpos cs j"
proof -
  define j where "j = (GREATEST j. j \<le> length cs \<and> bpos cs j \<le> off)"
  have j: "j \<le> length cs \<and> bpos cs j \<le> off"
    unfolding j_def by (rule GreatestI_nat [of _ 0 "length cs"]) auto
  moreover have "off < bpos cs (Suc j)" if "j < length cs"
  proof (rule ccontr)
    assume "\<not> off < bpos cs (Suc j)"
    then have "Suc j \<le> j"
      unfolding j_def using that by (intro Greatest_le_nat [of _ _ "length cs"]) (auto simp: j_def)
    then show False by simp
  qed
  ultimately show thesis
    using that [of j] assms by (cases "j = length cs") auto
qed

section \<open>The checkpoint table\<close>

lemma utf16_index_points_bound:
  assumes "0 < length points" and "(length points - 1) * UTF16_INDEX_CHUNK \<le> pos" and "pos \<le> p"
    and "p \<le> e \<or> pos \<le> e + 1"
  shows "length (utf16_index_points s e p pos points) \<le> utf16_index_max_points e"
  using assms
proof (induction s e p pos points rule: utf16_index_points.induct)
  case (1 s e p pos points)
  show ?case
  proof (cases "p < e")
    case False
    have "(length points - 1) * 64 \<le> e + 1"
      using "1.prems" by (auto simp: UTF16_INDEX_CHUNK_def)
    then have "length points \<le> e div 64 + 2" by linarith
    then show ?thesis
      using False by (subst utf16_index_points.simps)
        (simp add: utf16_index_max_points_def UTF16_INDEX_CHUNK_def)
  next
    case True
    obtain slen units cp where d: "utf16_scan_decode s p e False = (slen, units, cp)"
      by (cases "utf16_scan_decode s p e False") auto
    note prog = utf16_scan_decode_progress [OF d]
    let ?points = "if pos + units > length points * UTF16_INDEX_CHUNK
      then points @ [\<lparr>pt_byte_off = word_of_nat p, pt_utf16_pos = word_of_nat pos\<rparr>] else points"
    have "length (utf16_index_points s e (p + slen) (pos + units) ?points) \<le> utf16_index_max_points e"
      using True "1.prems" prog by (intro "1.IH" [OF True d [symmetric] refl refl]) (auto simp: UTF16_INDEX_CHUNK_def)
    then show ?thesis
      using True d by (subst utf16_index_points.simps) simp
  qed
qed

definition point_ok :: "nat list \<Rightarrow> utf16_index_point \<Rightarrow> bool" where
  "point_ok cs pt \<longleftrightarrow>
     (\<exists>k \<le> length cs. unat (pt_byte_off pt) = bpos cs k \<and> unat (pt_utf16_pos pt) = upos cs k)"

definition points_ok :: "nat list \<Rightarrow> utf16_index_point list \<Rightarrow> bool" where
  "points_ok cs points \<longleftrightarrow>
     points \<noteq> [] \<and> pt_utf16_pos (points ! 0) = 0 \<and> (\<forall>pt \<in> set points. point_ok cs pt)"

lemma utf16_index_points_ok:
  assumes "code_points cs" and "length (wtf8 cs) < 2 ^ 32" and "k \<le> length cs" and "points_ok cs points"
  shows "points_ok cs (utf16_index_points (wtf8 cs) (length (wtf8 cs)) (bpos cs k) (upos cs k) points)"
  using assms(3,4)
proof (induction "length cs - k" arbitrary: k points)
  case 0
  then have "k = length cs" by simp
  with 0 show ?case by (subst utf16_index_points.simps) simp
next
  case (Suc d)
  then have k: "k < length cs" by simp
  have small: "bpos cs k < 2 ^ 32" "upos cs k < 2 ^ 32"
    using assms(2) bpos_strict [of k "length cs" cs] k upos_le_bpos [of cs k] by auto
  let ?pt = "\<lparr>pt_byte_off = word_of_nat (bpos cs k), pt_utf16_pos = word_of_nat (upos cs k)\<rparr>"
  have "point_ok cs ?pt"
    unfolding point_ok_def using k small
    by (intro exI [of _ k]) (simp add: unsigned_of_nat take_bit_nat_eq_self)
  then have ok: "points_ok cs (points @ [?pt])"
    using Suc.prems(2) by (auto simp: points_ok_def nth_append)
  have rec: "points_ok cs (utf16_index_points (wtf8 cs) (length (wtf8 cs)) (bpos cs (Suc k)) (upos cs (Suc k)) ps)"
    if "points_ok cs ps" for ps
    using Suc.hyps(1) [of "Suc k" ps] Suc.hyps(2) k that by simp
  show ?case
    using k rec [OF ok] rec [OF Suc.prems(2)] scan_decode_at [OF assms(1) k, of False] bpos_less_end [of k cs]
    by (subst utf16_index_points.simps) (simp add: pos_Suc)
qed

lemma utf16_index_back_ok:
  "points_ok cs points \<Longrightarrow> point < length points \<Longrightarrow>
    utf16_index_back points target point < length points \<and>
    unat (pt_utf16_pos (points ! utf16_index_back points target point)) \<le> target"
  by (induction point) (auto simp: points_ok_def)

lemma utf16_index_seek_at:
  assumes "points_ok cs points" and "cursor_at cs k cursor" and "upos cs k \<le> target"
  obtains j where "cursor_at cs j (utf16_index_seek points target cursor)" "upos cs j \<le> target"
    "utf16_index_seek points target cursor = cursor\<lparr>cu_p := bpos cs j, cu_utf16_pos := upos cs j\<rparr>"
proof -
  define point where "point = (if target div UTF16_INDEX_CHUNK \<ge> length points then length points - 1
    else target div UTF16_INDEX_CHUNK)"
  define pt where "pt = points ! utf16_index_back points target point"
  have "point < length points" using assms(1) by (auto simp: point_def points_ok_def)
  from utf16_index_back_ok [OF assms(1) this, of target] have pt: "pt \<in> set points" "unat (pt_utf16_pos pt) \<le> target"
    by (simp_all add: pt_def)
  then obtain j where j: "j \<le> length cs" "unat (pt_byte_off pt) = bpos cs j" "unat (pt_utf16_pos pt) = upos cs j"
    using assms(1) by (auto simp: points_ok_def point_ok_def)
  have seek: "utf16_index_seek points target cursor = (if unat (pt_utf16_pos pt) \<le> cu_utf16_pos cursor then cursor
    else cursor\<lparr>cu_p := unat (pt_byte_off pt), cu_utf16_pos := unat (pt_utf16_pos pt)\<rparr>)"
    by (simp add: utf16_index_seek_def point_def pt_def Let_def)
  show thesis
  proof (cases "unat (pt_utf16_pos pt) \<le> cu_utf16_pos cursor")
    case True
    then show ?thesis
      using seek assms(2,3) that [of k] by (simp add: cursor_at_def)
  next
    case False
    then show ?thesis
      using seek j pt(2) that [of j] by (simp add: cursor_at_def)
  qed
qed

section \<open>The invariant of the caches\<close>

definition text_of :: "text_state \<Rightarrow> nat \<Rightarrow> nat list \<Rightarrow> bool" where
  "text_of st str cs \<longleftrightarrow> code_points cs \<and> text_bytes st str = wtf8 cs"

definition scan_ok :: "nat set \<Rightarrow> text_state \<Rightarrow> bool" where
  "scan_ok live st \<longleftrightarrow>
     sc_epoch (ts_scan st) \<le> ts_epoch st \<and>
     (sc_epoch (ts_scan st) = ts_epoch st \<longrightarrow>
       (\<forall>str. sc_str (ts_scan st) = Some str \<longrightarrow> str \<in> live \<and>
         (\<forall>cs. text_of st str cs \<longrightarrow>
           (\<exists>k \<le> length cs. sc_byte_pos (ts_scan st) = bpos cs k \<and> sc_utf16_pos (ts_scan st) = upos cs k))))"

definition entry_ok :: "nat set \<Rightarrow> text_state \<Rightarrow> utf16_index_entry \<Rightarrow> bool" where
  "entry_ok live st entry \<longleftrightarrow>
     (\<forall>str. en_str entry = Some str \<longrightarrow> str \<in> live \<and>
       (\<forall>cs points. text_of st str cs \<longrightarrow> en_byte_len entry = length (wtf8 cs) \<longrightarrow>
         en_points entry = Some points \<longrightarrow> points_ok cs points))"

definition index_ok :: "nat set \<Rightarrow> text_state \<Rightarrow> bool" where
  "index_ok live st \<longleftrightarrow>
     ic_epoch (ts_index st) \<le> ts_epoch st \<and>
     length (ic_entries (ts_index st)) = UTF16_INDEX_WAYS \<and>
     ic_victim (ts_index st) < UTF16_INDEX_WAYS \<and> ic_mru (ts_index st) < UTF16_INDEX_WAYS \<and>
     (ic_epoch (ts_index st) = ts_epoch st \<longrightarrow> (\<forall>entry \<in> set (ic_entries (ts_index st)). entry_ok live st entry))"

definition header_ok :: "ant_flat_string \<Rightarrow> bool" where
  "header_ok flat \<longleftrightarrow> flat_ok flat \<and>
     (\<forall>cs. code_points cs \<longrightarrow> fs_bytes flat = wtf8 cs \<longrightarrow>
       str_flat_cached_utf16_len flat
         \<in> {STR_UTF16_LEN_UNKNOWN, take_bit 56 (word_of_nat (length (utf16 cs)))})"

definition text_inv :: "nat set \<Rightarrow> text_state \<Rightarrow> bool" where
  "text_inv live st \<longleftrightarrow> (\<forall>str. header_ok (ts_heap st str)) \<and> scan_ok live st \<and> index_ok live st"

text \<open>Two states with the same string contents and epoch; lookups only move between such states.\<close>

definition same_texts :: "text_state \<Rightarrow> text_state \<Rightarrow> bool" where
  "same_texts st st' \<longleftrightarrow> (\<forall>str. text_bytes st' str = text_bytes st str) \<and> ts_epoch st' = ts_epoch st"

lemma same_texts_refl [simp]: "same_texts st st"
  by (simp add: same_texts_def)

lemma same_texts_trans: "same_texts st st1 \<Longrightarrow> same_texts st1 st2 \<Longrightarrow> same_texts st st2"
  by (simp add: same_texts_def)

lemma same_texts_text_of: "same_texts st st' \<Longrightarrow> text_of st' str cs = text_of st str cs"
  by (simp add: same_texts_def text_of_def)

lemma same_texts_entry: "same_texts st st' \<Longrightarrow> entry_ok live st' entry = entry_ok live st entry"
  by (simp add: entry_ok_def same_texts_text_of)

lemma text_frame [simp]:
  "text_of (st\<lparr>ts_scan := x\<rparr>) str cs = text_of st str cs"
  "text_of (st\<lparr>ts_index := y\<rparr>) str cs = text_of st str cs"
  "entry_ok live (st\<lparr>ts_scan := x\<rparr>) entry = entry_ok live st entry"
  "entry_ok live (st\<lparr>ts_index := y\<rparr>) entry = entry_ok live st entry"
  "same_texts st (st\<lparr>ts_scan := x\<rparr>)" "same_texts st (st\<lparr>ts_index := y\<rparr>)"
  by (simp_all add: text_of_def entry_ok_def same_texts_def)

lemma cache_frame [simp]:
  "scan_ok live (st\<lparr>ts_index := y\<rparr>) = scan_ok live st"
  "index_ok live (st\<lparr>ts_scan := x\<rparr>) = index_ok live st"
  by (simp_all add: scan_ok_def index_ok_def)

lemma header_ok_ascii:
  assumes "header_ok flat"
  shows "header_ok (snd (str_is_ascii flat))"
proof -
  have "flat_ok flat" using assms by (simp add: header_ok_def)
  note spec = str_is_ascii_spec [OF this]
  have "str_flat_cached_utf16_len (snd (str_is_ascii flat))
      \<in> {str_flat_cached_utf16_len flat, STR_UTF16_LEN_UNKNOWN}"
    by (simp add: str_is_ascii_def Let_def meta_fields)
  then show ?thesis
    using assms spec unfolding header_ok_def by auto
qed

lemma str_is_ascii_at_inv:
  assumes "text_inv live st" and "str_is_ascii_at str st = (b, st')"
  shows "text_inv live st'" "same_texts st st'" "b = ascii_bytes (text_bytes st str)"
    "ts_scan st' = ts_scan st" "ts_index st' = ts_index st"
proof -
  have header: "header_ok (ts_heap st str)" using assms(1) by (simp add: text_inv_def)
  then have flat: "flat_ok (ts_heap st str)" by (simp add: header_ok_def)
  obtain flat' where a: "str_is_ascii (ts_heap st str) = (b, flat')"
    and st': "st' = st\<lparr>ts_heap := (ts_heap st)(str := flat')\<rparr>"
    using assms(2) by (auto simp: str_is_ascii_at_def split: prod.splits)
  note spec = str_is_ascii_spec [OF flat, unfolded a fst_conv snd_conv]
  show same: "same_texts st st'" using spec(3) by (simp add: same_texts_def st')
  show "b = ascii_bytes (text_bytes st str)" by (rule spec(1))
  show "ts_scan st' = ts_scan st" "ts_index st' = ts_index st" by (simp_all add: st')
  show "text_inv live st'"
    using assms(1) same_texts_text_of [OF same] same_texts_entry [OF same] header_ok_ascii [OF header] a
    by (simp add: text_inv_def scan_ok_def index_ok_def st')
qed

lemma cursor_init_inv:
  assumes "text_inv live st" and "utf16_scan_cursor_init str n st = (cursor, st')"
  shows "text_inv live st'" "same_texts st st'" "sc_epoch (ts_scan st') = ts_epoch st'"
    "ts_heap st' = ts_heap st"
    "cursor = \<lparr>cu_str = str, cu_byte_len = n, cu_p = 0, cu_utf16_pos = 0\<rparr>"
  using assms
  by (auto simp: utf16_scan_cursor_init_def utf16_scan_cache_sync_epoch_def text_inv_def
      scan_ok_def empty_scan_cache_def split: if_splits)

lemma cursor_store_inv:
  assumes "text_inv live st" and "sc_epoch (ts_scan st) = ts_epoch st" and "cu_str cursor \<in> live"
    and "\<And>cs. text_of st (cu_str cursor) cs \<Longrightarrow> \<exists>k. cursor_at cs k cursor"
  shows "text_inv live (utf16_scan_cursor_store cursor st)" "same_texts st (utf16_scan_cursor_store cursor st)"
  using assms unfolding text_inv_def utf16_scan_cursor_store_def
  by (auto simp: scan_ok_def cursor_at_def)

lemma index_sync_inv:
  assumes "text_inv live st"
  shows "text_inv live (utf16_index_sync_epoch st)" "same_texts st (utf16_index_sync_epoch st)"
    "ic_epoch (ts_index (utf16_index_sync_epoch st)) = ts_epoch st"
    "ts_scan (utf16_index_sync_epoch st) = ts_scan st" "ts_epoch (utf16_index_sync_epoch st) = ts_epoch st"
  using assms
  by (auto simp: utf16_index_sync_epoch_def text_inv_def index_ok_def empty_entry_def entry_ok_def
      UTF16_INDEX_WAYS_def)

lemma utf16_index_find_ok:
  assumes "utf16_index_find ic str n = Some i" and "ic_mru ic < UTF16_INDEX_WAYS"
  shows "i < UTF16_INDEX_WAYS" "en_str (ic_entries ic ! i) = Some str" "en_byte_len (ic_entries ic ! i) = n"
  using assms by (auto simp: utf16_index_find_def Let_def find_Some_iff split: if_splits)

lemma index_build_ok:
  assumes "code_points cs" and "s = wtf8 cs" and "utf16_index_build m s (length s) = Some points"
    and "length s \<le> 2 ^ 32 - 1"
  shows "points_ok cs points"
proof -
  have "points_ok cs [\<lparr>pt_byte_off = 0, pt_utf16_pos = 0\<rparr>]"
    by (auto simp: points_ok_def point_ok_def intro: exI [of _ 0])
  then show ?thesis
    using assms utf16_index_points_ok [OF assms(1), of 0]
    by (auto simp: utf16_index_build_def split: if_splits)
qed

lemma utf16_index_get_inv:
  assumes "text_inv live st" and "str \<in> live" and "utf16_index_get str n st = (r, st')"
  shows "text_inv live st'" "same_texts st st'" "ts_scan st' = ts_scan st"
    "\<And>cs points. text_of st str cs \<Longrightarrow> n = length (wtf8 cs) \<Longrightarrow> r = Some points \<Longrightarrow> points_ok cs points"
proof -
  define st1 where "st1 = utf16_index_sync_epoch st"
  note sync = index_sync_inv [OF assms(1), folded st1_def]
  let ?ic = "ts_index st1"
  have ix: "length (ic_entries ?ic) = UTF16_INDEX_WAYS" "ic_victim ?ic < UTF16_INDEX_WAYS"
    "ic_mru ?ic < UTF16_INDEX_WAYS" "\<forall>entry \<in> set (ic_entries ?ic). entry_ok live st1 entry"
    using sync by (auto simp: text_inv_def index_ok_def)
  have inv: "text_inv live (st1\<lparr>ts_index := ic\<rparr>)"
    if "ic_epoch ic = ic_epoch ?ic" "length (ic_entries ic) = UTF16_INDEX_WAYS" "ic_victim ic < UTF16_INDEX_WAYS"
      "ic_mru ic < UTF16_INDEX_WAYS" "\<forall>entry \<in> set (ic_entries ic). entry_ok live st1 entry" for ic
    using that sync by (simp add: text_inv_def index_ok_def)
  have same: "same_texts st (st1\<lparr>ts_index := ic\<rparr>)" "ts_scan (st1\<lparr>ts_index := ic\<rparr>) = ts_scan st" for ic
    using same_texts_trans [OF sync(2), of "st1\<lparr>ts_index := ic\<rparr>"] sync(4) by simp_all
  have result: "text_inv live st' \<and> same_texts st st' \<and> ts_scan st' = ts_scan st \<and>
    (\<forall>cs points. text_of st str cs \<longrightarrow> n = length (wtf8 cs) \<longrightarrow> r = Some points \<longrightarrow> points_ok cs points)"
  proof (cases "n < UTF16_INDEX_MIN_BYTES \<or> n > 2 ^ 32 - 1")
    case True
    then show ?thesis using assms(1,3) by (auto simp: utf16_index_get_def)
  next
    case range: False
    show ?thesis
    proof (cases "utf16_index_find ?ic str n")
      case None
      let ?new = "\<lparr>en_str = Some str, en_byte_len = n, en_points = None\<rparr>"
      have "entry_ok live st1 ?new" using assms(2) by (simp add: entry_ok_def)
      then have "\<forall>entry \<in> set ((ic_entries ?ic)[ic_victim ?ic := ?new]). entry_ok live st1 entry"
        using ix(4) set_update_subset_insert [of "ic_entries ?ic" "ic_victim ?ic" ?new] by blast
      then show ?thesis
        using range None assms(3) same ix
        by (auto simp: utf16_index_get_def Let_def st1_def [symmetric] intro!: inv)
    next
      case (Some i)
      note i = utf16_index_find_ok [OF Some ix(3)]
      let ?entry = "ic_entries ?ic ! i"
      have ok: "entry_ok live st1 ?entry" using ix i(1) by simp
      show ?thesis
      proof (cases "en_points ?entry")
        case (Some points)
        then show ?thesis
          using range \<open>utf16_index_find ?ic str n = Some i\<close> assms(3) same ix i ok same_texts_text_of [OF sync(2)]
          by (auto simp: utf16_index_get_def Let_def st1_def [symmetric] entry_ok_def intro!: inv)
      next
        case no_points: None
        show ?thesis
        proof (cases "utf16_index_build (ts_mem st1) (text_bytes st1 str) n")
          case None
          then show ?thesis
            using range \<open>utf16_index_find ?ic str n = Some i\<close> no_points assms(3) same ix i
            by (auto simp: utf16_index_get_def Let_def st1_def [symmetric] intro!: inv)
        next
          case (Some points)
          have points: "points_ok cs points" if "text_of st str cs" "n = length (wtf8 cs)" for cs
            using that Some range sync(2) index_build_ok [of cs "text_bytes st1 str" "ts_mem st1" points]
            by (simp add: text_of_def same_texts_def)
          let ?new = "?entry\<lparr>en_points := Some points\<rparr>"
          have "entry_ok live st1 ?new"
            using points i ok same_texts_text_of [OF sync(2)] by (simp add: entry_ok_def)
          then have "\<forall>entry \<in> set ((ic_entries ?ic)[i := ?new]). entry_ok live st1 entry"
            using ix(4) set_update_subset_insert [of "ic_entries ?ic" i ?new] by blast
          then show ?thesis
            using range \<open>utf16_index_find ?ic str n = Some i\<close> no_points Some assms(3) same ix i points
            by (auto simp: utf16_index_get_def Let_def st1_def [symmetric] intro!: inv)
        qed
      qed
    qed
  qed
  from result show "text_inv live st'" "same_texts st st'" "ts_scan st' = ts_scan st" by simp_all
  from result show "\<And>cs points. text_of st str cs \<Longrightarrow> n = length (wtf8 cs) \<Longrightarrow> r = Some points \<Longrightarrow> points_ok cs points"
    by blast
qed

lemma resume_utf16_at:
  assumes "text_inv live st" and "sc_epoch (ts_scan st) = ts_epoch st" and "text_of st (cu_str cursor) cs"
    and "cursor_at cs k cursor" and "upos cs k \<le> target"
  obtains j where "cursor_at cs j (utf16_scan_cursor_resume_utf16 (ts_scan st) target cursor)" "upos cs j \<le> target"
proof (cases "utf16_scan_cache_matches (ts_scan st) cursor \<and> sc_utf16_pos (ts_scan st) \<le> target")
  case True
  with assms(1-3) obtain j where "j \<le> length cs" "sc_byte_pos (ts_scan st) = bpos cs j"
    "sc_utf16_pos (ts_scan st) = upos cs j"
    by (auto simp: text_inv_def scan_ok_def utf16_scan_cache_matches_def)
  with True show ?thesis
    using that [of j] by (simp add: utf16_scan_cursor_resume_utf16_def cursor_at_def)
next
  case False
  then show ?thesis
    using that [of k] assms(4,5) by (auto simp: utf16_scan_cursor_resume_utf16_def not_less)
qed

lemma resume_byte_at:
  assumes "text_inv live st" and "sc_epoch (ts_scan st) = ts_epoch st" and "text_of st (cu_str cursor) cs"
    and "cursor_at cs k cursor" and "bpos cs k \<le> target"
  obtains j where "cursor_at cs j (utf16_scan_cursor_resume_byte (ts_scan st) target cursor)" "bpos cs j \<le> target"
proof (cases "utf16_scan_cache_matches (ts_scan st) cursor \<and> sc_byte_pos (ts_scan st) \<le> target")
  case True
  with assms(1-3) obtain j where "j \<le> length cs" "sc_byte_pos (ts_scan st) = bpos cs j"
    "sc_utf16_pos (ts_scan st) = upos cs j"
    by (auto simp: text_inv_def scan_ok_def utf16_scan_cache_matches_def)
  with True show ?thesis
    using that [of j] by (simp add: utf16_scan_cursor_resume_byte_def cursor_at_def)
next
  case False
  then show ?thesis
    using that [of k] assms(4,5) by (auto simp: utf16_scan_cursor_resume_byte_def not_less)
qed

lemma resume_keeps [simp]:
  "cu_str (utf16_scan_cursor_resume_utf16 cache target cursor) = cu_str cursor"
  "cu_byte_len (utf16_scan_cursor_resume_utf16 cache target cursor) = cu_byte_len cursor"
  "cu_str (utf16_scan_cursor_resume_byte cache target cursor) = cu_str cursor"
  "cu_byte_len (utf16_scan_cursor_resume_byte cache target cursor) = cu_byte_len cursor"
  "cu_str (utf16_index_seek points target cursor) = cu_str cursor"
  "cu_byte_len (utf16_index_seek points target cursor) = cu_byte_len cursor"
  by (simp_all add: utf16_scan_cursor_resume_utf16_def utf16_scan_cursor_resume_byte_def
      utf16_index_seek_def Let_def)

lemma resume_indexed_inv:
  assumes "text_inv live st" and "sc_epoch (ts_scan st) = ts_epoch st" and "cu_str cursor \<in> live"
    and "utf16_scan_cursor_resume_indexed target cursor st = (cursor', st')"
  shows "text_inv live st'" "same_texts st st'" "sc_epoch (ts_scan st') = ts_epoch st'"
    "cu_str cursor' = cu_str cursor" "cu_byte_len cursor' = cu_byte_len cursor"
    "\<And>cs k. text_of st (cu_str cursor) cs \<Longrightarrow> cu_byte_len cursor = length (wtf8 cs) \<Longrightarrow>
      cursor_at cs k cursor \<Longrightarrow> upos cs k \<le> target \<Longrightarrow> \<exists>j. cursor_at cs j cursor' \<and> upos cs j \<le> target"
proof -
  define cursor1 where "cursor1 = utf16_scan_cursor_resume_utf16 (ts_scan st) target cursor"
  have keeps: "cu_str cursor1 = cu_str cursor" "cu_byte_len cursor1 = cu_byte_len cursor"
    by (simp_all add: cursor1_def)
  obtain r st1 where get: "utf16_index_get (cu_str cursor) (cu_byte_len cursor) st = (r, st1)"
    by (cases "utf16_index_get (cu_str cursor) (cu_byte_len cursor) st")
  note inv = utf16_index_get_inv [OF assms(1,3) get]
  have cases: "cursor' = cursor1 \<and> (st' = st \<or> st' = st1)
      \<or> (\<exists>points. r = Some points \<and> cursor' = utf16_index_seek points target cursor1 \<and> st' = st1)"
    using assms(4) get keeps
    by (auto simp: utf16_scan_cursor_resume_indexed_def cursor1_def [symmetric] Let_def
        split: if_splits option.splits)
  then show "text_inv live st'" "same_texts st st'" "sc_epoch (ts_scan st') = ts_epoch st'"
    "cu_str cursor' = cu_str cursor" "cu_byte_len cursor' = cu_byte_len cursor"
    using assms(1,2) inv keeps by (auto simp: same_texts_def)
  fix cs k
  assume txt_of: "text_of st (cu_str cursor) cs" and len: "cu_byte_len cursor = length (wtf8 cs)"
    and at: "cursor_at cs k cursor" "upos cs k \<le> target"
  obtain j where j: "cursor_at cs j cursor1" "upos cs j \<le> target"
    using resume_utf16_at [OF assms(1,2) txt_of at] by (auto simp: cursor1_def)
  from cases show "\<exists>j. cursor_at cs j cursor' \<and> upos cs j \<le> target"
  proof (elim disjE exE conjE)
    fix points assume "r = Some points" and c': "cursor' = utf16_index_seek points target cursor1"
    then have "points_ok cs points" using inv(4) [OF txt_of len] by simp
    from utf16_index_seek_at [OF this j] show ?thesis unfolding c' by blast
  qed (use j in auto)
qed

section \<open>The lookups\<close>

lemma ascii_text:
  assumes "text_of st str cs" and "ascii_bytes (text_bytes st str)"
  shows "utf16 cs = cs" "wtf8 cs = map byte cs" "\<forall>c \<in> set cs. c < 0x80"
    "k \<le> length cs \<Longrightarrow> bpos cs k = k" "k \<le> length cs \<Longrightarrow> upos cs k = k" "unit_spec whole cs i = unit_spec False cs i"
proof -
  have small: "c < 0x80" if "c \<in> set cs" for c
  proof (rule ccontr)
    assume big: "\<not> c < 0x80"
    have c: "code_point c" "set (wtf8_char c) \<subseteq> set (wtf8 cs)"
      using that assms(1) by (auto simp: text_of_def code_points_def wtf8_def)
    then have "hd (wtf8_char c) \<in> set (wtf8 cs)"
      using wtf8_char_nonempty(1) [of c] hd_in_set by blast
    then have hd: "unat (hd (wtf8_char c)) < 0x80"
      using assms by (auto simp: text_of_def ascii_bytes_def byte_classes)
    from c(1) big hd show False
      by (cases rule: code_point_cases) simp_all
  qed
  then show "\<forall>c \<in> set cs. c < 0x80" by simp
  have maps: "wtf8 ds = map byte ds \<and> utf16 ds = ds \<and> unit_spec whole ds i = unit_spec False ds i"
    if "\<forall>c \<in> set ds. c < 0x80" for ds i
    using that by (induction ds arbitrary: i) (auto simp: wtf8_char_def utf16_char_def)
  show "utf16 cs = cs" "wtf8 cs = map byte cs" "unit_spec whole cs i = unit_spec False cs i"
    using maps [of cs] small by simp_all
  have "\<forall>c \<in> set (take k cs). c < 0x80" using small by (meson in_set_takeD)
  from maps [OF this] show "k \<le> length cs \<Longrightarrow> bpos cs k = k" "k \<le> length cs \<Longrightarrow> upos cs k = k"
    by (simp_all add: bpos_def upos_def)
qed

end
