(* ===== verification/Utf16_Queries.thy ===== *)
theory Utf16_Queries
  imports Utf16_Lookup
begin

unbundle bit_operations_syntax

text \<open>
  The answers of the lookups, as functions of the text alone, and the proof that each lookup
  gives its answer and keeps the invariant of the caches (the interpretations of
  \<open>text_query\<close>). The last section runs lookups, allocations and sweeps in any order: in
  every reachable state the caches are transparent.
\<close>

section \<open>The contract of a lookup\<close>

locale text_query =
  fixes run :: "nat \<Rightarrow> 'q \<Rightarrow> text_state \<Rightarrow> 'r \<times> text_state"
    and answer :: "nat list \<Rightarrow> 'q \<Rightarrow> 'r"
  assumes run_inv: "text_inv live st \<Longrightarrow> str \<in> live \<Longrightarrow> text_inv live (snd (run str q st))"
    and run_texts: "text_inv live st \<Longrightarrow> str \<in> live \<Longrightarrow> same_texts st (snd (run str q st))"
    and run_answer: "text_inv live st \<Longrightarrow> str \<in> live \<Longrightarrow> text_of st str cs \<Longrightarrow> fst (run str q st) = answer cs q"

text \<open>A sequence of lookups, each on the state the previous one left.\<close>

fun run_all :: "(nat \<Rightarrow> 'q \<Rightarrow> text_state \<Rightarrow> 'r \<times> text_state) \<Rightarrow> (nat \<times> 'q) list \<Rightarrow> text_state \<Rightarrow> 'r list \<times> text_state" where
  "run_all run [] st = ([], st)"
| "run_all run ((str, q) # qs) st =
     (let (r, st1) = run str q st;
          (rs, st2) = run_all run qs st1
      in (r # rs, st2))"

context text_query
begin

lemma run_all_answers:
  assumes "text_inv live st" and "\<forall>(str, q) \<in> set qs. str \<in> live \<and> text_of st str (texts str)"
  shows "fst (run_all run qs st) = map (\<lambda>(str, q). answer (texts str) q) qs
    \<and> text_inv live (snd (run_all run qs st)) \<and> same_texts st (snd (run_all run qs st))"
  using assms
proof (induction qs arbitrary: st)
  case (Cons sq qs)
  obtain str q where sq: "sq = (str, q)" by (cases sq)
  obtain r st1 where run: "run str q st = (r, st1)" by (cases "run str q st")
  have str: "str \<in> live" "text_of st str (texts str)" using Cons.prems(2) by (simp_all add: sq)
  note st1 = run_inv [OF Cons.prems(1) str(1), of q] run_texts [OF Cons.prems(1) str(1), of q]
    run_answer [OF Cons.prems(1) str, of q]
  have "\<forall>(str, q) \<in> set qs. str \<in> live \<and> text_of st1 str (texts str)"
    using Cons.prems(2) st1(2) run by (auto simp: same_texts_text_of)
  moreover have "text_inv live st1" using st1(1) run by simp
  ultimately show ?case
    using Cons.IH [of st1] st1 run same_texts_trans [of st st1] by (auto simp: sq split: prod.splits)
qed simp

end

section \<open>Code units and code points\<close>

text \<open>No loop changes which string a cursor is on.\<close>

lemma utf16_unit_loop_keeps: "cu_str (snd (utf16_unit_loop whole s i cursor)) = cu_str cursor"
  by (induction whole s i cursor rule: utf16_unit_loop.induct)
    (subst utf16_unit_loop.simps, auto split: prod.splits)

lemma utf16_cursor_skip_keeps: "cu_str (utf16_cursor_skip s i cursor) = cu_str cursor"
  by (induction s i cursor rule: utf16_cursor_skip.induct)
    (subst utf16_cursor_skip.simps, simp add: utf16_scan_cursor_advance_progress)

lemma utf16_floor_loop_keeps: "cu_str (utf16_floor_loop s i cursor) = cu_str cursor"
  by (induction s i cursor rule: utf16_floor_loop.induct)
    (subst utf16_floor_loop.simps, auto split: prod.splits)

lemma utf16_range_start_loop_keeps: "cu_str (fst (utf16_range_start_loop s i cursor)) = cu_str cursor"
  by (induction s i cursor rule: utf16_range_start_loop.induct)
    (subst utf16_range_start_loop.simps, auto split: prod.splits)

lemma utf16_range_end_loop_keeps: "cu_str (fst (utf16_range_end_loop s i cursor)) = cu_str cursor"
  by (induction s i cursor rule: utf16_range_end_loop.induct)
    (subst utf16_range_end_loop.simps, auto split: prod.splits)

lemma utf16_byte_loop_keeps: "cu_str (fst (utf16_byte_loop s i cursor)) = cu_str cursor"
  by (induction s i cursor rule: utf16_byte_loop.induct)
    (subst utf16_byte_loop.simps, simp add: Let_def utf16_scan_cursor_advance_progress)

lemma unit_spec_drop:
  assumes "cursor_at cs j cursor" and "upos cs j \<le> i"
  shows "unit_spec whole (drop j cs) (i - upos cs j) = unit_spec whole cs i"
proof -
  have "unit_spec whole (drop j cs) (i - upos cs j) = unit_spec whole cs i"
    if "j \<le> length cs" "upos cs j \<le> i"
    using that
  proof (induction cs arbitrary: j i)
    case (Cons c cs)
    show ?case
    proof (cases j)
      case (Suc l)
      have "upos (c # cs) j = length (utf16_char c) + upos cs l" by (simp add: Suc upos_def)
      with Cons.IH [of l "i - length (utf16_char c)"] Cons.prems show ?thesis
        by (auto simp: Suc)
    qed simp
  qed simp
  with assms show ?thesis by (simp add: cursor_at_def)
qed

definition unit_at :: "bool \<Rightarrow> nat \<Rightarrow> nat \<Rightarrow> text_state \<Rightarrow> u32 \<times> text_state" where
  "unit_at whole str i st =
     (if whole then utf16_codepoint_at str (fs_len (ts_heap st str)) i st
      else utf16_code_unit_at str (fs_len (ts_heap st str)) i st)"

lemma fs_len_text: "fs_len (ts_heap st str) = length (text_bytes st str)"
  by (simp add: fs_len_def)

lemma unit_at_steps:
  assumes "str_is_ascii_at str st = (False, st1)"
    and "utf16_scan_cursor_init str (length (text_bytes st str)) st1 = (cursor0, st2)"
    and "utf16_scan_cursor_resume_indexed i cursor0 st2 = (cursor2, st3)"
  shows "unit_at whole str i st =
    (let (unit, cursor) = utf16_unit_loop whole (text_bytes st1 str) i cursor2
     in (unit, utf16_scan_cursor_store cursor st3))"
proof -
  have str: "cu_str cursor0 = str" "cu_byte_len cursor0 = length (text_bytes st str)"
    using assms(2) by (auto simp: utf16_scan_cursor_init_def)
  let ?c1 = "utf16_scan_cursor_resume_utf16 (ts_scan st2) i cursor0"
  have "(if i > cu_utf16_pos ?c1 \<and> i - cu_utf16_pos ?c1 > UTF16_INDEX_CHUNK
      then case utf16_index_get str (length (text_bytes st str)) st2 of
          (None, st) \<Rightarrow> (?c1, st)
        | (Some points, st) \<Rightarrow> (utf16_index_seek points i ?c1, st)
      else (?c1, st2)) = (cursor2, st3)"
    using assms(3) str by (auto simp: utf16_scan_cursor_resume_indexed_def Let_def not_le split: if_splits)
  then show ?thesis
    using assms by (simp add: unit_at_def utf16_code_unit_at_def utf16_codepoint_at_def fs_len_text Let_def)
qed

text \<open>How every indexed lookup on a string that is not ASCII starts.\<close>

lemma indexed_start:
  assumes "text_inv live st" and "str \<in> live" and "str_is_ascii_at str st = (is_ascii, st1)"
    and "utf16_scan_cursor_init str (length (text_bytes st str)) st1 = (cursor0, st2)"
    and "utf16_scan_cursor_resume_indexed i cursor0 st2 = (cursor2, st3)"
  shows "text_inv live st3" "same_texts st st3" "sc_epoch (ts_scan st3) = ts_epoch st3"
    "cu_str cursor2 = str" "cu_byte_len cursor2 = length (text_bytes st str)"
    "\<And>cs. text_of st str cs \<Longrightarrow> \<exists>j. cursor_at cs j cursor2 \<and> upos cs j \<le> i"
proof -
  note ascii = str_is_ascii_at_inv [OF assms(1,3)]
  note init = cursor_init_inv [OF ascii(1) assms(4)]
  have "cu_str cursor0 \<in> live" using init(5) assms(2) by simp
  note resume = resume_indexed_inv [OF init(1,3) this assms(5)]
  show "text_inv live st3" "same_texts st st3" "sc_epoch (ts_scan st3) = ts_epoch st3"
    "cu_str cursor2 = str" "cu_byte_len cursor2 = length (text_bytes st str)"
    using resume init(5) same_texts_trans [OF same_texts_trans [OF ascii(2) init(2)] resume(2)] by simp_all
  fix cs assume cs: "text_of st str cs"
  then have "text_of st2 (cu_str cursor0) cs"
    using same_texts_text_of [OF same_texts_trans [OF ascii(2) init(2)]] init(5) by simp
  moreover have "length (text_bytes st str) = length (wtf8 cs)"
    using cs by (simp add: text_of_def)
  ultimately show "\<exists>j. cursor_at cs j cursor2 \<and> upos cs j \<le> i"
    using resume(6) [of cs 0] init(5) by (simp add: cursor_at_start)
qed

lemma store_ok:
  assumes "text_inv live st1" and "same_texts st st1" and "sc_epoch (ts_scan st1) = ts_epoch st1"
    and "str \<in> live" and "cu_str cursor = str"
    and "\<And>cs. text_of st str cs \<Longrightarrow> \<exists>k. cursor_at cs k cursor"
  shows "text_inv live (utf16_scan_cursor_store cursor st1)" "same_texts st (utf16_scan_cursor_store cursor st1)"
  using cursor_store_inv [OF assms(1,3), of cursor] assms(4-6) same_texts_text_of [OF assms(2)]
    same_texts_trans [OF assms(2)] by blast+

lemma unit_at_ok:
  assumes "text_inv live st" and "str \<in> live" and "unit_at whole str i st = (r, st')"
  shows "text_inv live st' \<and> same_texts st st' \<and> (\<forall>cs. text_of st str cs \<longrightarrow> r = unit_spec whole cs i)"
proof -
  obtain is_ascii st1 where a: "str_is_ascii_at str st = (is_ascii, st1)" by (cases "str_is_ascii_at str st")
  note ascii = str_is_ascii_at_inv [OF assms(1) a]
  show ?thesis
  proof (cases is_ascii)
    case True
    then have res: "r = (if i \<ge> length (text_bytes st str) then 0xFFFFFFFF else ucast (text_bytes st1 str ! i))" "st' = st1"
      using assms(3) a by (auto simp: unit_at_def utf16_code_unit_at_def utf16_codepoint_at_def fs_len_text split: if_splits)
    have "r = unit_spec whole cs i" if cs: "text_of st str cs" for cs
    proof -
      have "ascii_bytes (text_bytes st str)" using ascii(3) True by simp
      note as = ascii_text [OF cs this]
      have "text_bytes st1 str = map byte cs" "text_bytes st str = map byte cs"
        using ascii(2) cs as(2) by (auto simp: same_texts_def text_of_def)
      moreover have "cs ! i < 256" if "i < length cs"
        using as(3) nth_mem [OF that] by fastforce
      ultimately show ?thesis
        unfolding res as(6) [of whole] unit_spec_units as(1) by simp
    qed
    then show ?thesis using ascii res(2) by simp
  next
    case False
    then have a': "str_is_ascii_at str st = (False, st1)" using a by simp
    obtain cursor0 st2 where c0: "utf16_scan_cursor_init str (length (text_bytes st str)) st1 = (cursor0, st2)"
      by (cases "utf16_scan_cursor_init str (length (text_bytes st str)) st1")
    obtain cursor2 st3 where c2: "utf16_scan_cursor_resume_indexed i cursor0 st2 = (cursor2, st3)"
      by (cases "utf16_scan_cursor_resume_indexed i cursor0 st2")
    note start = indexed_start [OF assms(1,2) a c0 c2]
    obtain unit cursor where loop: "utf16_unit_loop whole (text_bytes st1 str) i cursor2 = (unit, cursor)"
      by (cases "utf16_unit_loop whole (text_bytes st1 str) i cursor2")
    have res: "r = unit" "st' = utf16_scan_cursor_store cursor st3"
      using unit_at_steps [OF a' c0 c2] assms(3) loop by simp_all
    have str: "cu_str cursor = str"
      using utf16_unit_loop_keeps [of whole "text_bytes st1 str" i cursor2] loop start(4) by simp
    have found: "\<exists>k. cursor_at cs k cursor \<and> unit = unit_spec whole cs i" if cs: "text_of st str cs" for cs
    proof -
      have bytes: "text_bytes st1 str = wtf8 cs" "cu_byte_len cursor2 = length (wtf8 cs)" "code_points cs"
        using cs ascii(2) start(5) by (simp_all add: text_of_def same_texts_def)
      obtain j where j: "cursor_at cs j cursor2" "upos cs j \<le> i" using start(6) [OF cs] by blast
      from utf16_unit_loop_at [OF bytes(3) j(1) bytes(2) j(2), of whole] obtain l
        where "cursor_at cs l (snd (utf16_unit_loop whole (wtf8 cs) i cursor2))"
          "fst (utf16_unit_loop whole (wtf8 cs) i cursor2) = unit_spec whole (drop j cs) (i - upos cs j)"
        by (metis fst_conv)
      then show ?thesis
        using loop bytes(1) unit_spec_drop [OF j(1,2)] by auto
    qed
    then show ?thesis
      unfolding res using store_ok [OF start(1-3) assms(2) str] by blast
  qed
qed

lemma text_queryI:
  assumes "\<And>live st str q r st'. text_inv live st \<Longrightarrow> str \<in> live \<Longrightarrow> run str q st = (r, st') \<Longrightarrow>
    text_inv live st' \<and> same_texts st st' \<and> (\<forall>cs. text_of st str cs \<longrightarrow> r = answer cs q)"
  shows "text_query run answer"
proof
  fix live st str q
  assume "text_inv live st" "str \<in> live"
  from assms [OF this, of q "fst (run str q st)" "snd (run str q st)"]
  have ok: "text_inv live (snd (run str q st)) \<and> same_texts st (snd (run str q st)) \<and>
    (\<forall>cs. text_of st str cs \<longrightarrow> fst (run str q st) = answer cs q)" by simp
  then show "text_inv live (snd (run str q st))" "same_texts st (snd (run str q st))" by simp_all
  fix cs assume "text_of st str cs"
  with ok show "fst (run str q st) = answer cs q" by simp
qed

interpretation code_unit_query: text_query "unit_at False" "unit_spec False"
  by (rule text_queryI) (rule unit_at_ok)

interpretation codepoint_query: text_query "unit_at True" "unit_spec True"
  by (rule text_queryI) (rule unit_at_ok)

section \<open>Byte offsets of code units\<close>

text \<open>
  The first position at or after a code unit gives the offset; there is none for an index
  past the end, and none for an index inside a final surrogate pair.
\<close>

definition first_pos :: "nat list \<Rightarrow> nat \<Rightarrow> nat option" where
  "first_pos cs i = find (\<lambda>j. i \<le> upos cs j) [0..<Suc (length cs)]"

definition offset_spec :: "nat list \<Rightarrow> nat \<Rightarrow> int \<times> nat option" where
  "offset_spec cs i =
     (case first_pos cs i of
        None \<Rightarrow> (- 1, None)
      | Some j \<Rightarrow>
          if j < length cs then (int_of_size (bpos cs j), Some (length (wtf8_char (cs ! j))))
          else if upos cs j = i then (int_of_size (length (wtf8 cs)), Some 0)
          else (- 1, None))"

lemma find_upt_Some:
  assumes "j < n" and "P j" and "\<And>l. l < j \<Longrightarrow> \<not> P l"
  shows "find P [0..<n] = Some j"
  unfolding find_Some_iff using assms by (intro exI [of _ j]) simp

lemma find_upt_None:
  assumes "\<And>l. l < n \<Longrightarrow> \<not> P l"
  shows "find P [0..<n] = None"
  unfolding find_None_iff using assms by simp

lemma first_posI:
  assumes "j \<le> length cs" and "i \<le> upos cs j" and "\<And>l. l < j \<Longrightarrow> upos cs l < i"
  shows "first_pos cs i = Some j"
  unfolding first_pos_def using assms by (intro find_upt_Some) (simp_all add: less_Suc_eq_le not_le)

lemma first_pos_None:
  assumes "length (utf16 cs) < i"
  shows "first_pos cs i = None"
  unfolding first_pos_def
proof (rule find_upt_None)
  fix l assume "l < Suc (length cs)"
  then show "\<not> i \<le> upos cs l"
    using upos_mono [of l "length cs" cs] assms by simp
qed

definition offset_at :: "nat \<Rightarrow> nat \<Rightarrow> text_state \<Rightarrow> (int \<times> nat option) \<times> text_state" where
  "offset_at str i st = utf16_index_to_byte_offset str (fs_len (ts_heap st str)) i st"

lemma offset_at_ok:
  assumes "text_inv live st" and "str \<in> live" and "offset_at str i st = (r, st')"
  shows "text_inv live st' \<and> same_texts st st' \<and> (\<forall>cs. text_of st str cs \<longrightarrow> r = offset_spec cs i)"
proof -
  obtain is_ascii st1 where a: "str_is_ascii_at str st = (is_ascii, st1)" by (cases "str_is_ascii_at str st")
  note ascii = str_is_ascii_at_inv [OF assms(1) a]
  show ?thesis
  proof (cases is_ascii)
    case True
    then have res: "r = (if i > length (text_bytes st str) then (- 1, None)
        else (int_of_size i, Some (if i < length (text_bytes st str) then 1 else 0)))" "st' = st1"
      using assms(3) a by (auto simp: offset_at_def utf16_index_to_byte_offset_def fs_len_text split: if_splits)
    have "r = offset_spec cs i" if cs: "text_of st str cs" for cs
    proof -
      have "ascii_bytes (text_bytes st str)" using ascii(3) True by simp
      note as = ascii_text [OF cs this]
      have len: "length (text_bytes st str) = length cs" using cs as(2) by (simp add: text_of_def)
      show ?thesis
      proof (cases "i \<le> length cs")
        case True
        then have "first_pos cs i = Some i" using as(5) by (intro first_posI) auto
        moreover have "length (wtf8_char (cs ! i)) = 1" if "i < length cs"
          using as(3) nth_mem [OF that] by (simp add: wtf8_char_length)
        ultimately show ?thesis
          unfolding res len offset_spec_def using True as by auto
      next
        case False
        then have "first_pos cs i = None" using as(1) by (intro first_pos_None) simp
        then show ?thesis unfolding res len offset_spec_def using False by simp
      qed
    qed
    then show ?thesis using ascii res(2) by simp
  next
    case False
    obtain cursor0 st2 where c0: "utf16_scan_cursor_init str (length (text_bytes st str)) st1 = (cursor0, st2)"
      by (cases "utf16_scan_cursor_init str (length (text_bytes st str)) st1")
    obtain cursor1 st3 where c1: "utf16_scan_cursor_resume_indexed i cursor0 st2 = (cursor1, st3)"
      by (cases "utf16_scan_cursor_resume_indexed i cursor0 st2")
    note start = indexed_start [OF assms(1,2) a c0 c1]
    define cursor where "cursor = utf16_cursor_skip (text_bytes st1 str) (Some i) cursor1"
    have st': "st' = utf16_scan_cursor_store cursor st3"
      and r: "r = (if cu_p cursor \<ge> cu_byte_len cursor
          then if cu_utf16_pos cursor = i then (int_of_size (length (text_bytes st str)), Some 0) else (- 1, None)
          else (int_of_size (cu_p cursor),
            Some (fst (utf16_scan_decode (text_bytes st1 str) (cu_p cursor) (cu_byte_len cursor) False))))"
      using assms(3) a False c0 c1
      by (auto simp: offset_at_def utf16_index_to_byte_offset_def fs_len_text cursor_def Let_def
          split: if_splits prod.splits)
    have found: "\<exists>k. cursor_at cs k cursor \<and> r = offset_spec cs i" if cs: "text_of st str cs" for cs
    proof -
      have bytes: "text_bytes st1 str = wtf8 cs" "text_bytes st str = wtf8 cs" "code_points cs"
        "cu_byte_len cursor1 = length (wtf8 cs)"
        using cs ascii(2) start(5) by (simp_all add: text_of_def same_texts_def)
      obtain k where k: "cursor_at cs k cursor1" "upos cs k \<le> i" using start(6) [OF cs] by blast
      obtain j where j: "k \<le> j" "cursor_at cs j cursor"
          "cursor = cursor1\<lparr>cu_p := bpos cs j, cu_utf16_pos := upos cs j\<rparr>"
          "j < length cs \<Longrightarrow> \<exists>l \<in> set_option (Some i). l \<le> upos cs j"
          "\<And>l m. k \<le> l \<Longrightarrow> l < j \<Longrightarrow> m \<in> set_option (Some i) \<Longrightarrow> upos cs l < m"
        using utf16_cursor_skip_at [OF bytes(3) k(1) bytes(4), of "Some i"] unfolding cursor_def bytes(1)
        by blast
      have before: "upos cs l < i" if "l < j" for l
        using j(5) [of l i] that k(2) upos_strict [of l k cs] k(1) by (cases "k \<le> l") (auto simp: cursor_at_def)
      have jl: "j \<le> length cs" using j(2) by (simp add: cursor_at_def)
      have r': "r = offset_spec cs i"
      proof (cases "j < length cs")
        case True
        then have "first_pos cs i = Some j" using j(4) before by (intro first_posI) auto
        then show ?thesis
          using True j(3) bytes scan_decode_at [OF bytes(3) True, of False] bpos_less_end [of j cs]
          by (simp add: r offset_spec_def)
      next
        case False
        then have end_pos: "j = length cs" using jl by simp
        show ?thesis
        proof (cases "i \<le> upos cs j")
          case True
          then have "first_pos cs i = Some j" using jl before by (intro first_posI) auto
          then show ?thesis using j(3) bytes by (simp add: r offset_spec_def end_pos)
        next
          case False
          then have "first_pos cs i = None" by (intro first_pos_None) (simp add: end_pos)
          then show ?thesis using j(3) bytes False by (simp add: r offset_spec_def end_pos)
        qed
      qed
      with j(2) show ?thesis by blast
    qed
    then show ?thesis
      unfolding st' using store_ok [OF start(1-3) assms(2), of cursor] utf16_cursor_skip_keeps [of "text_bytes st1 str" "Some i" cursor1] start(4)
      by (auto simp: cursor_def)
  qed
qed

interpretation offset_query: text_query offset_at offset_spec
  by (rule text_queryI) (rule offset_at_ok)

text \<open>The floor lookup gives the offset of the last position not after the code unit.\<close>

definition last_pos :: "nat list \<Rightarrow> nat \<Rightarrow> nat" where
  "last_pos cs i = length (takeWhile (\<lambda>j. upos cs (Suc j) \<le> i) [0..<length cs])"

lemma takeWhile_upt:
  assumes "j \<le> n" and "\<And>l. l < j \<Longrightarrow> P l" and "j < n \<Longrightarrow> \<not> P j"
  shows "length (takeWhile P [0..<n]) = j"
proof -
  have "takeWhile P [0..<n] = take j [0..<n]"
    using assms by (intro takeWhile_eq_take_P_nth) auto
  with assms(1) show ?thesis by simp
qed

lemma last_posI:
  assumes "j \<le> length cs" and "upos cs j \<le> i" and "j < length cs \<Longrightarrow> i < upos cs (Suc j)"
  shows "last_pos cs i = j"
  unfolding last_pos_def
proof (rule takeWhile_upt)
  fix l assume "l < j"
  then show "upos cs (Suc l) \<le> i"
    using upos_mono [of "Suc l" j cs] assms(1,2) by simp
qed (use assms in auto)

definition floor_at :: "nat \<Rightarrow> nat \<Rightarrow> text_state \<Rightarrow> nat \<times> text_state" where
  "floor_at str i st = utf16_index_to_byte_offset_floor str (fs_len (ts_heap st str)) i st"

lemma floor_at_ok:
  assumes "text_inv live st" and "str \<in> live" and "floor_at str i st = (r, st')"
  shows "text_inv live st' \<and> same_texts st st' \<and> (\<forall>cs. text_of st str cs \<longrightarrow> r = bpos cs (last_pos cs i))"
proof -
  obtain is_ascii st1 where a: "str_is_ascii_at str st = (is_ascii, st1)" by (cases "str_is_ascii_at str st")
  note ascii = str_is_ascii_at_inv [OF assms(1) a]
  show ?thesis
  proof (cases is_ascii)
    case True
    then have res: "r = min i (length (text_bytes st str))" "st' = st1"
      using assms(3) a
      by (auto simp: floor_at_def utf16_index_to_byte_offset_floor_def fs_len_text split: if_splits)
    have "r = bpos cs (last_pos cs i)" if cs: "text_of st str cs" for cs
    proof -
      have "ascii_bytes (text_bytes st str)" using ascii(3) True by simp
      note as = ascii_text [OF cs this]
      have "last_pos cs i = min i (length cs)" using as(5) by (intro last_posI) auto
      then show ?thesis using res as(2,4) cs by (simp add: text_of_def)
    qed
    then show ?thesis using ascii res(2) by simp
  next
    case False
    obtain cursor0 st2 where c0: "utf16_scan_cursor_init str (length (text_bytes st str)) st1 = (cursor0, st2)"
      by (cases "utf16_scan_cursor_init str (length (text_bytes st str)) st1")
    note init = cursor_init_inv [OF ascii(1) c0]
    note same = same_texts_trans [OF ascii(2) init(2)]
    define cursor1 where "cursor1 = utf16_scan_cursor_resume_utf16 (ts_scan st2) i cursor0"
    define cursor where "cursor = utf16_floor_loop (text_bytes st2 str) i cursor1"
    have res: "r = cu_p cursor" "st' = utf16_scan_cursor_store cursor st2"
      using assms(3) a False c0
      by (auto simp: floor_at_def utf16_index_to_byte_offset_floor_def fs_len_text cursor_def cursor1_def Let_def)
    have found: "\<exists>k. cursor_at cs k cursor \<and> r = bpos cs (last_pos cs i)" if cs: "text_of st str cs" for cs
    proof -
      have cs2: "text_of st2 (cu_str cursor0) cs" using cs same_texts_text_of [OF same] init(5) by simp
      then have bytes: "text_bytes st2 str = wtf8 cs" "code_points cs" "cu_byte_len cursor1 = length (wtf8 cs)"
        using cs init(5) by (simp_all add: text_of_def cursor1_def)
      have "cursor_at cs 0 cursor0" using init(5) by (simp add: cursor_at_start)
      then obtain k where k: "cursor_at cs k cursor1" "upos cs k \<le> i"
        using resume_utf16_at [OF init(1,3) cs2, of 0] by (auto simp: cursor1_def)
      from utf16_floor_loop_at [OF bytes(2) k(1) bytes(3) k(2)] obtain j where j: "cursor_at cs j cursor"
        "upos cs j \<le> i" "j < length cs \<Longrightarrow> i < upos cs (Suc j)"
        unfolding cursor_def bytes(1) by metis
      then have "last_pos cs i = j" by (intro last_posI) (simp_all add: cursor_at_def)
      with j(1) show ?thesis using res(1) by (auto simp: cursor_at_def)
    qed
    have "cu_str cursor = str"
      using init(5) by (simp add: cursor_def cursor1_def utf16_floor_loop_keeps)
    then show ?thesis
      unfolding res(2) using store_ok [OF init(1) same init(3) assms(2)] found by blast
  qed
qed

interpretation floor_query: text_query floor_at "\<lambda>cs i. bpos cs (last_pos cs i)"
  by (rule text_queryI) (rule floor_at_ok)

section \<open>Code units of byte offsets\<close>

text \<open>Offsets are taken within the string; inside a character its end counts.\<close>

definition units_before :: "nat list \<Rightarrow> nat \<Rightarrow> nat" where
  "units_before cs off =
     (case find (\<lambda>j. off \<le> bpos cs j) [0..<Suc (length cs)] of
        Some j \<Rightarrow> upos cs j | None \<Rightarrow> length (utf16 cs))"

definition byte_to_unit :: "nat \<Rightarrow> nat \<Rightarrow> text_state \<Rightarrow> nat \<times> text_state" where
  "byte_to_unit str off st = byte_offset_to_utf16 str (min off (fs_len (ts_heap st str))) st"

lemma units_beforeI:
  assumes "j \<le> length cs" and "bpos cs j \<le> off" and "j < length cs \<Longrightarrow> off < bpos cs (Suc j)"
    and "j < length cs \<or> j = length cs \<and> off = bpos cs j"
  shows "units_before cs off = upos cs (if off = bpos cs j then j else Suc j)"
proof -
  let ?l = "if off = bpos cs j then j else Suc j"
  have "find (\<lambda>j. off \<le> bpos cs j) [0..<Suc (length cs)] = Some ?l"
  proof (rule find_upt_Some)
    show "?l < Suc (length cs)" "off \<le> bpos cs ?l" using assms by auto
    fix l assume "l < ?l"
    then have "l < j \<or> l = j \<and> off \<noteq> bpos cs j" by (auto split: if_splits)
    then show "\<not> off \<le> bpos cs l" using assms(1,2) bpos_strict [of l j cs] by auto
  qed
  then show ?thesis by (simp add: units_before_def)
qed

lemma units_before_past_end: "length (wtf8 cs) < off \<Longrightarrow> units_before cs off = length (utf16 cs)"
proof -
  assume off: "length (wtf8 cs) < off"
  have "find (\<lambda>j. off \<le> bpos cs j) [0..<Suc (length cs)] = None"
  proof (rule find_upt_None)
    fix l assume "l < Suc (length cs)"
    then show "\<not> off \<le> bpos cs l"
      using off bpos_strict [of l "length cs" cs] by (cases "l = length cs") auto
  qed
  then show ?thesis by (simp add: units_before_def)
qed

lemma units_before_min: "units_before cs (min off (length (wtf8 cs))) = units_before cs off"
proof (cases "off \<le> length (wtf8 cs)")
  case False
  moreover have "units_before cs (length (wtf8 cs)) = length (utf16 cs)"
    using units_beforeI [of "length cs" cs "length (wtf8 cs)"] by simp
  ultimately show ?thesis by (simp add: units_before_past_end min_def)
qed (simp add: min_def)

lemma byte_to_unit_ok:
  assumes "text_inv live st" and "str \<in> live" and "byte_to_unit str off0 st = (r, st')"
  shows "text_inv live st' \<and> same_texts st st' \<and> (\<forall>cs. text_of st str cs \<longrightarrow> r = units_before cs off0)"
proof -
  define off where "off = min off0 (length (text_bytes st str))"
  obtain is_ascii st1 where a: "str_is_ascii_at str st = (is_ascii, st1)" by (cases "str_is_ascii_at str st")
  note ascii = str_is_ascii_at_inv [OF assms(1) a]
  have answer: "units_before cs off0 = units_before cs off" "off \<le> length (wtf8 cs)" if "text_of st str cs" for cs
    using units_before_min [of cs off0] that by (simp_all add: off_def text_of_def)
  show ?thesis
  proof (cases is_ascii)
    case True
    then have res: "r = off" "st' = st1"
      using assms(3) a by (auto simp: byte_to_unit_def byte_offset_to_utf16_def off_def fs_len_text)
    have "r = units_before cs off0" if cs: "text_of st str cs" for cs
    proof -
      have "ascii_bytes (text_bytes st str)" using ascii(3) True by simp
      note as = ascii_text [OF cs this]
      have "off \<le> length cs" using cs as(2) by (simp add: off_def text_of_def)
      then have "units_before cs off = upos cs off"
        using units_beforeI [of off cs off] as(4) [of off] as(4) [of "Suc off"]
        by (cases "off = length cs") auto
      then show ?thesis using res answer(1) [OF cs] as(5) \<open>off \<le> length cs\<close> by simp
    qed
    then show ?thesis using ascii res(2) by simp
  next
    case False
    obtain cursor0 st2 where c0: "utf16_scan_cursor_init str off st1 = (cursor0, st2)"
      by (cases "utf16_scan_cursor_init str off st1")
    note init = cursor_init_inv [OF ascii(1) c0]
    note same = same_texts_trans [OF ascii(2) init(2)]
    define cursor1 where "cursor1 = utf16_scan_cursor_resume_byte (ts_scan st2) off cursor0"
    obtain cursor ok where loop: "utf16_byte_loop (text_bytes st2 str) off cursor1 = (cursor, ok)"
      by (cases "utf16_byte_loop (text_bytes st2 str) off cursor1")
    have res: "r = cu_utf16_pos cursor" "st' = (if ok then utf16_scan_cursor_store cursor st2 else st2)"
      using assms(3) a False c0 loop
      by (auto simp: byte_to_unit_def byte_offset_to_utf16_def off_def fs_len_text cursor1_def Let_def)
    have found: "(ok \<longrightarrow> (\<exists>k. cursor_at cs k cursor)) \<and> r = units_before cs off0" if cs: "text_of st str cs" for cs
    proof -
      have cs2: "text_of st2 (cu_str cursor0) cs" using cs same_texts_text_of [OF same] init(5) by simp
      then have bytes: "text_bytes st2 str = wtf8 cs" "code_points cs"
        using init(5) by (simp_all add: text_of_def)
      have "cursor_at cs 0 cursor0" using init(5) by (simp add: cursor_at_start)
      then obtain k where k: "cursor_at cs k cursor1" "bpos cs k \<le> off"
        using resume_byte_at [OF init(1,3) cs2, of 0] by (auto simp: cursor1_def)
      obtain j where j: "j \<le> length cs" "bpos cs j \<le> off" "j < length cs \<Longrightarrow> off < bpos cs (Suc j)"
        "j < length cs \<or> j = length cs \<and> off = bpos cs j"
        using position_before [OF answer(2) [OF cs]] by blast
      have "k \<le> j"
      proof (rule ccontr)
        assume "\<not> k \<le> j"
        then have "j < length cs" "bpos cs (Suc j) \<le> bpos cs k"
          using k(1) bpos_less_iff [of k cs "Suc j"] by (auto simp: cursor_at_def not_less [symmetric])
        with j(3) k(2) show False by simp
      qed
      note result = utf16_byte_loop_at [OF bytes(2) k(1) this j(4,2,3)]
      show ?thesis
        using loop result answer(1) [OF cs] units_beforeI [OF j(1,2,3,4)] res(1) bytes(1) j(1)
        by (auto simp: cursor_at_def split: if_splits)
    qed
    have "cu_str cursor = str"
      using utf16_byte_loop_keeps [of "text_bytes st2 str" off cursor1] loop init(5) by (simp add: cursor1_def)
    then show ?thesis
      unfolding res(2) using store_ok [OF init(1) same init(3) assms(2), of cursor] found init(1) same
      by (cases ok) auto
  qed
qed

interpretation byte_query: text_query byte_to_unit units_before
  by (rule text_queryI) (rule byte_to_unit_ok)

section \<open>Ranges\<close>

lemma ascii_units: "\<forall>c \<in> set cs. c < 0x80 \<Longrightarrow> utf16 cs = cs"
  by (induction cs) (simp_all add: utf16_char_def)

definition range_at :: "nat \<Rightarrow> nat \<times> nat \<Rightarrow> text_state \<Rightarrow> (utf16_range_splits \<times> nat \<times> nat) \<times> text_state" where
  "range_at str ab st = utf16_range_to_byte_range str (fs_len (ts_heap st str)) (fst ab) (snd ab) st"

text \<open>
  What a range result says about the text: the two byte offsets are positions, and the units
  between them with the split halves are the units of the range.
\<close>

definition range_ok :: "nat list \<Rightarrow> nat \<times> nat \<Rightarrow> utf16_range_splits \<times> nat \<times> nat \<Rightarrow> bool" where
  "range_ok cs ab r \<longleftrightarrow>
     (\<exists>i j. i \<le> j \<and> j \<le> length cs \<and> fst (snd r) = bpos cs i \<and> snd (snd r) = bpos cs j \<and>
       take (snd ab - fst ab) (drop (fst ab) (utf16 cs))
         = half_list (prefix_surrogate (fst r)) @ utf16 (drop i (take j cs)) @ half_list (suffix_surrogate (fst r)))"

lemma range_at_ok:
  assumes "text_inv live st" and "str \<in> live" and "range_at str (a, b) st = (r, st')"
  shows "text_inv live st' \<and> same_texts st st' \<and> (\<forall>cs. text_of st str cs \<longrightarrow> range_ok cs (a, b) r)"
proof (cases "a < b")
  case False
  then show ?thesis
    using assms by (auto simp: range_at_def utf16_range_to_byte_range_def range_ok_def half_list_def
        intro!: exI [of _ 0])
next
  case less: True
  obtain is_ascii st1 where asc: "str_is_ascii_at str st = (is_ascii, st1)" by (cases "str_is_ascii_at str st")
  note ascii = str_is_ascii_at_inv [OF assms(1) asc]
  show ?thesis
  proof (cases is_ascii)
    case True
    let ?n = "length (text_bytes st str)"
    have res: "r = (\<lparr>prefix_surrogate = 0, suffix_surrogate = 0\<rparr>, min a ?n, min b ?n)" "st' = st1"
      using assms(3) asc True less
      by (auto simp: range_at_def utf16_range_to_byte_range_def fs_len_text split: if_splits)
    have "range_ok cs (a, b) r" if cs: "text_of st str cs" for cs
    proof -
      have "ascii_bytes (text_bytes st str)" using ascii(3) True by simp
      note as = ascii_text [OF cs this]
      have n: "?n = length cs" using cs as(2) by (simp add: text_of_def)
      have "utf16 (drop (min a (length cs)) (take (min b (length cs)) cs)) = drop a (take b cs)"
      proof -
        have "\<forall>c \<in> set (drop m (take l cs)). c < 0x80" for m l
          using as(3) by (meson in_set_dropD in_set_takeD)
        then show ?thesis using less by (simp add: ascii_units min_def)
      qed
      then show ?thesis
        unfolding range_ok_def res n using as(1,4) less
        by (intro exI [of _ "min a (length cs)"] exI [of _ "min b (length cs)"]) (auto simp: half_list_def drop_take)
    qed
    then show ?thesis using ascii res(2) by simp
  next
    case False
    obtain cursor0 st2 where c0: "utf16_scan_cursor_init str (length (text_bytes st str)) st1 = (cursor0, st2)"
      by (cases "utf16_scan_cursor_init str (length (text_bytes st str)) st1")
    obtain cursor1 st3 where c1: "utf16_scan_cursor_resume_indexed a cursor0 st2 = (cursor1, st3)"
      by (cases "utf16_scan_cursor_resume_indexed a cursor0 st2")
    note start = indexed_start [OF assms(1,2) asc c0 c1]
    obtain cursor2 pre where c2: "utf16_range_start_loop (text_bytes st1 str) a cursor1 = (cursor2, pre)"
      by (cases "utf16_range_start_loop (text_bytes st1 str) a cursor1")
    obtain cursor3 suf where c3: "utf16_range_end_loop (text_bytes st1 str) b cursor2 = (cursor3, suf)"
      by (cases "utf16_range_end_loop (text_bytes st1 str) b cursor2")
    have res: "r = (\<lparr>prefix_surrogate = pre, suffix_surrogate = suf\<rparr>, cu_p cursor2, cu_p cursor3)"
      "st' = utf16_scan_cursor_store cursor3 st3"
      using assms(3) asc False less c0 c1 c2 c3
      by (auto simp: range_at_def utf16_range_to_byte_range_def fs_len_text Let_def)
    have found: "(\<exists>k. cursor_at cs k cursor3) \<and> range_ok cs (a, b) r" if cs: "text_of st str cs" for cs
    proof -
      have bytes: "text_bytes st1 str = wtf8 cs" "cu_byte_len cursor1 = length (wtf8 cs)" "code_points cs"
        using cs ascii(2) start(5) by (simp_all add: text_of_def same_texts_def)
      obtain k where k: "cursor_at cs k cursor1" "upos cs k \<le> a" using start(6) [OF cs] by blast
      obtain i where i: "starts_at cs a i pre" "cursor2 = cursor1\<lparr>cu_p := bpos cs i, cu_utf16_pos := upos cs i\<rparr>"
        using utf16_range_start_loop_at [OF bytes(3) k(1) bytes(2) k(2)] c2 bytes(1) by (metis prod.inject)
      have at: "cursor_at cs i cursor2" "upos cs i \<le> b" "cu_byte_len cursor2 = length (wtf8 cs)"
        using i less bytes(2) by (auto simp: cursor_at_def starts_at_def)
      obtain j where j: "i \<le> j" "ends_at cs b j suf" "cursor3 = cursor2\<lparr>cu_p := bpos cs j, cu_utf16_pos := upos cs j\<rparr>"
        using utf16_range_end_loop_at [OF bytes(3) at(1,3,2)] c3 bytes(1) by (metis prod.inject)
      have "j \<le> length cs" using j(2) by (simp add: ends_at_def)
      moreover note range_units [OF bytes(3) i(1) j(2,1) less]
      ultimately have "range_ok cs (a, b) r"
        unfolding range_ok_def res(1) using i(2) j(1,3) by (intro exI [of _ i] exI [of _ j]) simp
      moreover have "cursor_at cs j cursor3" using j(3) \<open>j \<le> length cs\<close> by (simp add: cursor_at_def)
      ultimately show ?thesis by blast
    qed
    have "cu_str cursor3 = str"
      using utf16_range_start_loop_keeps [of "text_bytes st1 str" a cursor1] c2 start(4)
        utf16_range_end_loop_keeps [of "text_bytes st1 str" b cursor2] c3 by simp
    then show ?thesis
      unfolding res(2) using store_ok [OF start(1-3) assms(2), of cursor3] found by blast
  qed
qed

section \<open>The cached length\<close>

lemma utf16_strlen_ok:
  assumes "text_inv live st" and "utf16_strlen str s n st = (r, st')"
  shows "text_inv live st'" "same_texts st st'" "ts_heap st' = ts_heap st"
    "\<And>cs. code_points cs \<Longrightarrow> s = wtf8 cs \<Longrightarrow> n = length s \<Longrightarrow> r = length (utf16 cs)"
proof -
  obtain cursor st1 where c: "utf16_scan_cursor_init str n st = (cursor, st1)"
    by (cases "utf16_scan_cursor_init str n st")
  note init = cursor_init_inv [OF assms(1) c]
  have res: "r = cu_utf16_pos (utf16_cursor_skip s None cursor)" "st' = st1"
    using assms(2) c by (auto simp: utf16_strlen_def)
  show "text_inv live st'" "same_texts st st'" "ts_heap st' = ts_heap st" using init res by simp_all
  fix cs assume cs: "code_points cs" "s = wtf8 cs" "n = length s"
  have start: "cursor_at cs 0 cursor" "cu_byte_len cursor = length (wtf8 cs)"
    using init(5) cs by (simp_all add: cursor_at_start)
  obtain j where j: "cursor_at cs j (utf16_cursor_skip (wtf8 cs) None cursor)"
    "j < length cs \<Longrightarrow> \<exists>i \<in> set_option None. i \<le> upos cs j"
    using utf16_cursor_skip_at [OF cs(1) start, of None] by blast
  then have "\<not> j < length cs" by auto
  with j(1) show "r = length (utf16 cs)" using res cs(2) by (simp add: cursor_at_def)
qed

lemma flat_utf16_len_ok:
  assumes "text_inv live st" and "flat_utf16_len str st = (r, st')"
  shows "text_inv live st' \<and> same_texts st st' \<and>
    (\<forall>cs. text_of st str cs \<longrightarrow> length (utf16 cs) < 2 ^ 56 - 1 \<longrightarrow> r = length (utf16 cs))"
proof -
  obtain is_ascii st1 where a: "str_is_ascii_at str st = (is_ascii, st1)" by (cases "str_is_ascii_at str st")
  note ascii = str_is_ascii_at_inv [OF assms(1) a]
  let ?flat = "ts_heap st1 str"
  have bytes: "fs_bytes ?flat = text_bytes st str" using ascii(2) by (simp add: same_texts_def)
  have header: "header_ok ?flat" using ascii(1) by (simp add: text_inv_def)
  have small: "unat (take_bit 56 (word_of_nat n :: u64)) = n" if "n < 2 ^ 56 - 1" for n
    using that by (simp add: unsigned_take_bit_eq unsigned_of_nat take_bit_nat_eq_self)
  consider (ascii) is_ascii | (cached) "\<not> is_ascii" "str_flat_cached_utf16_len ?flat \<noteq> STR_UTF16_LEN_UNKNOWN"
    | (scan) "\<not> is_ascii" "str_flat_cached_utf16_len ?flat = STR_UTF16_LEN_UNKNOWN" by blast
  then show ?thesis
  proof cases
    case ascii
    then have res: "r = length (text_bytes st str)" "st' = st1"
      using assms(2) a bytes by (auto simp: flat_utf16_len_def fs_len_def)
    have "r = length (utf16 cs)" if cs: "text_of st str cs" for cs
      using ascii_text(1,2) [OF cs] str_is_ascii_at_inv(3) [OF assms(1) a] ascii cs res(1)
      by (auto simp: text_of_def)
    then show ?thesis using res(2) \<open>text_inv live st1\<close> \<open>same_texts st st1\<close> by simp
  next
    case cached
    then have res: "r = unat (str_flat_cached_utf16_len ?flat)" "st' = st1"
      using assms(2) a by (auto simp: flat_utf16_len_def)
    have "r = length (utf16 cs)" if "text_of st str cs" "length (utf16 cs) < 2 ^ 56 - 1" for cs
      using header cached(2) that bytes small [OF that(2)] res(1) by (auto simp: header_ok_def text_of_def)
    then show ?thesis using res(2) ascii by simp
  next
    case scan
    obtain n st2 where l: "utf16_strlen str (fs_bytes ?flat) (fs_len ?flat) st1 = (n, st2)"
      by (cases "utf16_strlen str (fs_bytes ?flat) (fs_len ?flat) st1")
    note len = utf16_strlen_ok [OF ascii(1) l]
    let ?new = "str_flat_set_utf16_len (word_of_nat n) ?flat"
    have res: "r = n" "st' = st2\<lparr>ts_heap := (ts_heap st2)(str := ?new)\<rparr>"
      using assms(2) a scan l by (auto simp: flat_utf16_len_def)
    have n: "n = length (utf16 cs)" if "text_of st str cs" for cs
      using len(4) [of cs] that bytes by (simp add: text_of_def fs_len_def)
    have "header_ok ?new"
      using header n bytes by (auto simp: header_ok_def meta_fields text_of_def)
    moreover have same: "same_texts st st'"
      using same_texts_trans [OF ascii(2) len(2)] len(3) res(2) by (simp add: same_texts_def)
    moreover have "same_texts st2 st'" using len(3) res(2) by (simp add: same_texts_def)
    ultimately have "text_inv live st'"
      using len(1) same_texts_text_of [of st2 st'] same_texts_entry [of st2 st'] res(2)
      by (simp add: text_inv_def scan_ok_def index_ok_def)
    then show ?thesis using same n res(1) by blast
  qed
qed

end
