(* ===== verification/Utf8_Export.thy ===== *)
theory Utf8_Export
  imports Codec_Streams Utf16_Queries
begin

unbundle bit_operations_syntax

text \<open>
  Text leaving the runtime (\<^verbatim>\<open>src/utf8.c\<close>, \<^verbatim>\<open>utf8_export_wtf8\<close> and its callers, and \<^verbatim>\<open>TextEncoder\<close> of
  \<^verbatim>\<open>src/modules/textcodec.c\<close>). A string is exported as the UTF-8 of its scalar values; a destination
  that is too short gets the characters that fit. The library functions are parameters: \<open>enc\<close> is
  \<^verbatim>\<open>utf8proc_encode_char\<close> and \<open>iter\<close> is \<^verbatim>\<open>utf8proc_iterate\<close>, which returns the number of bytes read
  (not positive for an error) and the code point.
\<close>

section \<open>The export loop\<close>

definition utf8_wtf8_surrogate_at :: "bytes \<Rightarrow> nat \<Rightarrow> nat \<Rightarrow> u16 option" where
  "utf8_wtf8_surrogate_at s len pos =
     (if pos + 2 \<ge> len \<or> s ! pos \<noteq> 0xed \<or> s ! (pos + 1) AND 0xe0 \<noteq> 0xa0 \<or> s ! (pos + 2) AND 0xc0 \<noteq> 0x80
      then None
      else
        let out = push_bit 12 (ucast (s ! pos AND 0x0f)) OR push_bit 6 (ucast (s ! (pos + 1) AND 0x3f))
                  OR ucast (s ! (pos + 2) AND 0x3f)
        in if out \<ge> 0xd800 \<and> out \<le> 0xdfff then Some out else None)"

text \<open>One round of the loop: the bytes to write, the bytes read and the code units they stand for.\<close>

definition utf8_export_piece ::
  "(u32 \<Rightarrow> bytes) \<Rightarrow> (bytes \<Rightarrow> int \<times> int) \<Rightarrow> bytes \<Rightarrow> nat \<Rightarrow> nat \<Rightarrow> bytes \<times> nat \<times> nat" where
  "utf8_export_piece enc iter s str_len pos =
     (case utf8_wtf8_surrogate_at s str_len pos of
        Some first \<Rightarrow>
          (case (if first \<le> 0xdbff then utf8_wtf8_surrogate_at s str_len (pos + 3) else None) of
             Some second \<Rightarrow>
               if second \<ge> 0xdc00
               then (enc (0x10000 + push_bit 10 (ucast (first - 0xd800)) + ucast (second - 0xdc00)), 6, 2)
               else ([0xef, 0xbf, 0xbd], 3, 1)
           | None \<Rightarrow> ([0xef, 0xbf, 0xbd], 3, 1))
      | None \<Rightarrow>
          let (n, cp) = iter (take (str_len - pos) (drop pos s))
          in if n > 0 then (take (nat n) (drop pos s), nat n, if cp \<ge> 0x10000 then 2 else 1)
             else ([0xef, 0xbf, 0xbd], 1, 1))"

lemma utf8_export_piece_progress: "0 < fst (snd (utf8_export_piece enc iter s str_len pos))"
  by (auto simp: utf8_export_piece_def case_prod_beta split: option.splits)

function utf8_export_loop ::
  "(u32 \<Rightarrow> bytes) \<Rightarrow> (bytes \<Rightarrow> int \<times> int) \<Rightarrow> bytes \<Rightarrow> nat \<Rightarrow> nat \<Rightarrow> nat \<Rightarrow> bytes \<Rightarrow> nat \<Rightarrow> bytes \<times> nat" where
  "utf8_export_loop enc iter s str_len dst_len pos written read_units =
     (if pos < str_len then
        let piece = utf8_export_piece enc iter s str_len pos
        in if length (fst piece) > dst_len - length written then (written, read_units)
           else utf8_export_loop enc iter s str_len dst_len (pos + fst (snd piece)) (written @ fst piece)
                  (read_units + snd (snd piece))
      else (written, read_units))"
  by pat_completeness auto
termination
  by (relation "measure (\<lambda>(enc, iter, s, str_len, dst_len, pos, written, read_units). str_len - pos)")
    (auto simp: utf8_export_piece_progress intro!: diff_less_mono2)

declare utf8_export_loop.simps [simp del]

definition utf8_export_wtf8 ::
  "(u32 \<Rightarrow> bytes) \<Rightarrow> (bytes \<Rightarrow> int \<times> int) \<Rightarrow> bytes \<Rightarrow> nat \<Rightarrow> nat \<Rightarrow> bytes \<times> nat" where
  "utf8_export_wtf8 enc iter s str_len dst_len = utf8_export_loop enc iter s str_len dst_len 0 [] 0"

section \<open>Exported length\<close>

definition utf8_export_length_slow ::
  "(u32 \<Rightarrow> bytes) \<Rightarrow> (bytes \<Rightarrow> int \<times> int) \<Rightarrow> ant_flat_string \<Rightarrow> nat \<Rightarrow> nat \<times> ant_flat_string" where
  "utf8_export_length_slow enc iter flat0 str_len =
     (let (valid, flat) = str_is_valid_utf8 flat0
      in if valid then (str_len, flat)
         else
           let len = length (fst (utf8_export_wtf8 enc iter (fs_bytes flat) str_len size_max))
           in (len, if len = str_len then str_flat_set_utf_valid_state STR_UTF_INVALID_SAME_LENGTH flat else flat))"

definition utf8_export_length ::
  "(u32 \<Rightarrow> bytes) \<Rightarrow> (bytes \<Rightarrow> int \<times> int) \<Rightarrow> ant_flat_string \<Rightarrow> nat \<Rightarrow> nat \<times> ant_flat_string" where
  "utf8_export_length enc iter flat str_len =
     (if str_len = 0 then (0, flat)
      else
        let state = str_flat_utf_valid_state flat
        in if state = STR_UTF_VALID \<or> state = STR_UTF_INVALID_SAME_LENGTH then (str_len, flat)
           else if state = STR_UTF_UNKNOWN then
             let (is_ascii, flat1) = str_is_ascii flat
             in if is_ascii then (str_len, flat1) else utf8_export_length_slow enc iter flat1 str_len
           else utf8_export_length_slow enc iter flat str_len)"

section \<open>Export into a buffer\<close>

definition str_is_valid_utf8_at :: "nat \<Rightarrow> text_state \<Rightarrow> bool \<times> text_state" where
  "str_is_valid_utf8_at str st =
     (let (b, flat) = str_is_valid_utf8 (ts_heap st str)
      in (b, st\<lparr>ts_heap := (ts_heap st)(str := flat)\<rparr>))"

text \<open>The loop that moves a length back to the start of a character.\<close>

fun utf8_boundary_back :: "bytes \<Rightarrow> nat \<Rightarrow> nat" where
  "utf8_boundary_back s 0 = 0"
| "utf8_boundary_back s (Suc len) =
     (if s ! Suc len AND 0xc0 = 0x80 then utf8_boundary_back s len else Suc len)"

text \<open>The bytes written and the code units read.\<close>

definition utf8_export_into ::
  "(u32 \<Rightarrow> bytes) \<Rightarrow> (bytes \<Rightarrow> int \<times> int) \<Rightarrow> nat \<Rightarrow> nat \<Rightarrow> nat \<Rightarrow> text_state \<Rightarrow> (bytes \<times> nat) \<times> text_state" where
  "utf8_export_into enc iter str str_len dst_len st0 =
     (if str_len = 0 then (([], 0), st0)
      else
        let (valid, st) = str_is_valid_utf8_at str st0;
            s = text_bytes st str
        in if \<not> valid then (utf8_export_wtf8 enc iter s str_len dst_len, st)
           else
             let len0 = (if str_len < dst_len then str_len else dst_len);
                 len = (if len0 < str_len then utf8_boundary_back s len0 else len0);
                 (units, st1) = utf16_strlen str s len st
             in ((take len s, units), st1))"

text \<open>\<^verbatim>\<open>TextEncoder.encode\<close> and \<^verbatim>\<open>encodeInto\<close> on the string at an address.\<close>

definition te_encode ::
  "mem_env \<Rightarrow> (u32 \<Rightarrow> bytes) \<Rightarrow> (bytes \<Rightarrow> int \<times> int) \<Rightarrow> nat \<Rightarrow> nat \<Rightarrow> text_state \<Rightarrow> (js_error + bytes) \<times> text_state" where
  "te_encode m enc iter str str_len st =
     (if \<not> alloc_ok m (ab_size + str_len) then (Inl Oom, st)
      else
        let (r, st1) = utf8_export_into enc iter str str_len str_len st
        in (Inr (fst r), st1))"

text \<open>The fields \<^verbatim>\<open>read\<close> and \<^verbatim>\<open>written\<close>, and the bytes stored unless the buffer is detached.\<close>

definition js_textencoder_encode_into ::
  "(u32 \<Rightarrow> bytes) \<Rightarrow> (bytes \<Rightarrow> int \<times> int) \<Rightarrow> nat \<Rightarrow> nat \<Rightarrow> bool \<Rightarrow> nat \<Rightarrow> text_state \<Rightarrow> (nat \<times> nat \<times> bytes) \<times> text_state" where
  "js_textencoder_encode_into enc iter str str_len detached available st =
     (let (r, st1) = utf8_export_into enc iter str str_len available st
      in ((snd r, length (fst r), if detached then [] else fst r), st1))"

section \<open>The export of a text\<close>

text \<open>
  The documented behaviour of \<^verbatim>\<open>utf8proc_iterate\<close>: the first character of the input if the input
  starts with a well-formed one, and an error otherwise.
\<close>

definition utf8proc_iterates :: "(bytes \<Rightarrow> int \<times> int) \<Rightarrow> bool" where
  "utf8proc_iterates iter \<longleftrightarrow>
     (\<forall>c rest. scalar_value c \<longrightarrow> iter (wtf8_char c @ rest) = (int (length (wtf8_char c)), int c)) \<and>
     (\<forall>bs. (\<forall>c rest. scalar_value c \<longrightarrow> bs \<noteq> wtf8_char c @ rest) \<longrightarrow> fst (iter bs) \<le> 0)"

lemma surrogate_second_byte: "(y :: u8) AND 0xe0 = 0xa0 \<longleftrightarrow> 0xA0 \<le> unat y \<and> unat y < 0xC0"
proof -
  have "(0xe0 :: u8) = NOT (mask 5)" by (simp add: mask_eq_exp_minus_1)
  then have "unat (y AND 0xe0) = unat y div 32 * 32" using unat_and_not_mask [of y 5] by simp
  then show ?thesis unfolding word_unat_eq_iff using unat_u8_bound [of y] by simp arith
qed

lemma unat_u16_3:
  "unat (push_bit 12 (ucast (a AND 0x0f :: u8)) OR push_bit 6 (ucast (b AND 0x3f :: u8)) OR ucast (c AND 0x3f :: u8) :: u16)
    = unat a mod 16 * 4096 + unat b mod 64 * 64 + unat c mod 64"
proof -
  have low: "unat (push_bit 6 (ucast (b AND 0x3F)) OR ucast (c AND 0x3F) :: u16)
      = unat b mod 64 * 64 + unat c mod 64"
    using mod_less_divisor [of 64 "unat b"]
    by (subst unat_push_or) (simp_all add: byte_fields unat_ucast_u8_u16)
  have "unat b mod 64 * 64 + unat c mod 64 < 4096" "unat a mod 16 * 4096 < 65536"
    using mod_less_divisor [of 64 "unat b"] mod_less_divisor [of 64 "unat c"] mod_less_divisor [of 16 "unat a"] by linarith+
  then show ?thesis
    unfolding or.assoc by (subst unat_push_or) (simp_all add: low byte_fields unat_ucast_u8_u16)
qed

lemma surrogate_at_char:
  assumes "code_point c" and "s = xs @ wtf8_char c @ ys" and "len = length s" and "pos = length xs"
  shows "utf8_wtf8_surrogate_at s len pos = (if surrogate c then Some (word_of_nat c) else None)"
proof (cases "surrogate c")
  case True
  obtain y z where c: "wtf8_char c = [0xED, y, z]" "0xA0 \<le> unat y" "unat y \<le> 0xBF" "0x80 \<le> unat z" "unat z < 0xC0"
    "c = 0xD000 + unat y mod 64 * 64 + unat z mod 64"
    using surrogate_bytes [OF True] by metis
  let ?w = "push_bit 12 (ucast (0xED AND 0x0f :: u8)) OR push_bit 6 (ucast (y AND 0x3f)) OR ucast (z AND 0x3f) :: u16"
  have w: "unat ?w = c" unfolding unat_u16_3 using c(6) by simp
  have range: "0xD800 \<le> c" "c < 0xE000" using True by (simp_all add: surrogate_def)
  then have "?w = word_of_nat c" "0xd800 \<le> ?w" "?w \<le> 0xdfff"
    using w by (simp_all add: word_unat_eq_iff word_le_nat_alt unsigned_of_nat take_bit_nat_eq_self)
  moreover have "y AND 0xe0 = 0xa0" "z AND 0xc0 = 0x80"
    using c(2-5) by (simp_all add: surrogate_second_byte byte_classes)
  ultimately show ?thesis
    using True c(1) assms(2-4) by (simp add: utf8_wtf8_surrogate_at_def nth_append)
next
  case False
  have "utf8_wtf8_surrogate_at s len pos = None" if ed: "s ! pos = 0xED"
  proof -
    have "hd (wtf8_char c) = 0xED" using ed assms(2,4) by (simp add: nth_append hd_conv_nth)
    then have range: "0xD000 \<le> c" "c < 0xE000" using ed_char [OF assms(1)] by simp_all
    then have "c < 0xD800" using False by (simp add: surrogate_def)
    then have "(c - 0xD000) div 64 < 32" using range by (simp add: div_less_iff_less_mult)
    moreover have "s ! (pos + 1) = byte (0x80 + (c - 0xD000) div 64)"
      using ed_bytes(1) [OF range] assms(2,4) by (simp add: nth_append)
    ultimately show ?thesis by (simp add: utf8_wtf8_surrogate_at_def surrogate_second_byte)
  qed
  then show ?thesis using False by (auto simp: utf8_wtf8_surrogate_at_def)
qed

lemma surrogate_at_end: "len \<le> pos \<Longrightarrow> utf8_wtf8_surrogate_at s len pos = None"
  by (simp add: utf8_wtf8_surrogate_at_def)

lemma fffd_bytes: "wtf8_char 0xFFFD = [0xEF, 0xBF, 0xBD]"
  by (simp add: wtf8_char_def byte_def)

lemma surrogate_length: "surrogate c \<Longrightarrow> length (wtf8_char c) = 3"
  using surrogate_bytes [of c] by (metis length_Cons list.size(3) numeral_3_eq_3)

lemma export_pair_cp:
  assumes "high_surrogate h" and "low_surrogate l"
  shows "0x10000 + push_bit 10 (ucast ((word_of_nat h :: u16) - 0xd800)) + ucast ((word_of_nat l :: u16) - 0xdc00)
    = (word_of_nat (join_pair h l) :: u32)"
proof -
  have h: "0xD800 \<le> h" "h < 0xDC00" and l: "0xDC00 \<le> l" "l < 0xE000"
    using assms by (simp_all add: high_surrogate_def low_surrogate_def)
  have u: "unat (word_of_nat h :: u16) = h" "unat (word_of_nat l :: u16) = l"
    using h l by (simp_all add: unsigned_of_nat take_bit_nat_eq_self)
  have "unat ((word_of_nat h :: u16) - 0xd800) = h - 0xD800" "unat ((word_of_nat l :: u16) - 0xdc00) = l - 0xDC00"
    using u h l by (simp_all add: unat_sub_if_size word_size)
  then have half: "unat (ucast ((word_of_nat h :: u16) - 0xd800) :: u32) = h - 0xD800"
    "unat (ucast ((word_of_nat l :: u16) - 0xdc00) :: u32) = l - 0xDC00"
    by (simp_all only: unat_ucast_u16_u32)
  moreover have "h - 0xD800 < 0x400" "l - 0xDC00 < 0x400" using h l by auto
  ultimately have "unat (0x10000 + push_bit 10 (ucast ((word_of_nat h :: u16) - 0xd800) :: u32)
      + ucast ((word_of_nat l :: u16) - 0xdc00)) = join_pair h l"
    using unat_pair_sum [of "ucast ((word_of_nat h :: u16) - 0xd800)" "ucast ((word_of_nat l :: u16) - 0xdc00)"]
    by (simp only: join_pair_def)
  then show ?thesis by (metis word_of_unat)
qed

text \<open>The first scalar value of a text with the characters it takes.\<close>

lemma usv_first:
  assumes "cs \<noteq> []"
  obtains (pair) h l rest where "cs = h # l # rest" "high_surrogate h" "low_surrogate l" "usv cs = join_pair h l # usv rest"
  | (one) c rest where "cs = c # rest" "usv cs = to_scalar c # usv rest"
      "high_surrogate c \<Longrightarrow> rest = [] \<or> \<not> low_surrogate (hd rest)"
proof (cases cs rule: usv.cases)
  case (2 c)
  then show ?thesis using one [of c "[]"] by simp
next
  case (3 c d ds)
  then show ?thesis
    using pair [of c d ds] one [of c "d # ds"] by (cases "high_surrogate c \<and> low_surrogate d") auto
qed (use assms in simp)

lemma word_less_eq_of_nat:
  "n < 65536 \<Longrightarrow> k < 65536 \<Longrightarrow> (word_of_nat n :: u16) \<le> word_of_nat k \<longleftrightarrow> n \<le> k"
  by (simp add: word_le_nat_alt unsigned_of_nat take_bit_nat_eq_self)

lemma surrogate_class:
  assumes "surrogate c"
  shows "(word_of_nat c :: u16) \<le> 0xdbff \<longleftrightarrow> high_surrogate c" "0xdc00 \<le> (word_of_nat c :: u16) \<longleftrightarrow> low_surrogate c"
proof -
  have c: "0xD800 \<le> c" "c < 0xE000" using assms by (simp_all add: surrogate_def)
  have "unat (word_of_nat c :: u16) = c" using c by (simp add: unsigned_of_nat take_bit_nat_eq_self)
  then show "(word_of_nat c :: u16) \<le> 0xdbff \<longleftrightarrow> high_surrogate c" "0xdc00 \<le> (word_of_nat c :: u16) \<longleftrightarrow> low_surrogate c"
    using c by (auto simp: word_le_nat_alt high_surrogate_def low_surrogate_def)
qed

lemma export_piece_pair:
  assumes "utf8proc_encodes enc" and "high_surrogate h" and "low_surrogate l"
    and "s = xs @ wtf8_char h @ wtf8_char l @ ys" and "len = length s" and "pos = length xs"
  shows "utf8_export_piece enc iter s len pos = (wtf8_char (join_pair h l), 6, 2)"
proof -
  have sur: "surrogate h" "surrogate l" using assms(2,3) by (simp_all add: surrogate_halves)
  then have cp: "code_point h" "code_point l" by (simp_all add: surrogate_def code_point_def)
  have three: "length (wtf8_char h) = 3" using surrogate_length [OF sur(1)] .
  have first: "utf8_wtf8_surrogate_at s len pos = Some (word_of_nat h)"
    using surrogate_at_char [OF cp(1) assms(4-6)] sur by simp
  have second: "utf8_wtf8_surrogate_at s len (pos + 3) = Some (word_of_nat l)"
    using surrogate_at_char [OF cp(2), of s "xs @ wtf8_char h" ys len "pos + 3"] assms(4-6) three sur by simp
  have "enc (0x10000 + push_bit 10 (ucast ((word_of_nat h :: u16) - 0xd800)) + ucast ((word_of_nat l :: u16) - 0xdc00))
      = wtf8_char (join_pair h l)"
    by (rule utf8proc_encodesD [OF assms(1) scalar_join_pair [OF assms(2,3)] export_pair_cp [OF assms(2,3)]])
  then show ?thesis
    using surrogate_class [OF sur(1)] surrogate_class [OF sur(2)] assms(2,3)
    by (simp add: utf8_export_piece_def first second)
qed

lemma export_piece_lone:
  assumes "surrogate c" and "list_all code_point cs" and "high_surrogate c \<Longrightarrow> cs = [] \<or> \<not> low_surrogate (hd cs)"
    and "s = xs @ wtf8_char c @ wtf8 cs" and "len = length s" and "pos = length xs"
  shows "utf8_export_piece enc iter s len pos = (wtf8_char 0xFFFD, 3, 1)"
proof -
  have cp: "code_point c" using assms(1) by (simp add: surrogate_def code_point_def)
  have three: "length (wtf8_char c) = 3" using surrogate_length [OF assms(1)] .
  have first: "utf8_wtf8_surrogate_at s len pos = Some (word_of_nat c)"
    using surrogate_at_char [OF cp assms(4-6)] assms(1) by simp
  have second: "utf8_wtf8_surrogate_at s len (pos + 3) = None \<or>
      (\<exists>d. utf8_wtf8_surrogate_at s len (pos + 3) = Some (word_of_nat d) \<and> surrogate d \<and> \<not> low_surrogate d)"
    if high: "high_surrogate c"
  proof (cases cs)
    case Nil
    then show ?thesis using surrogate_at_end [of len "pos + 3" s] assms(4-6) three by simp
  next
    case (Cons d ds)
    then have d: "code_point d" "\<not> low_surrogate d" using assms(2) assms(3) [OF high] by simp_all
    have "utf8_wtf8_surrogate_at s len (pos + 3) = (if surrogate d then Some (word_of_nat d) else None)"
      using surrogate_at_char [OF d(1), of s "xs @ wtf8_char c" "wtf8 ds" len "pos + 3"] assms(4-6) three Cons by simp
    then show ?thesis using d(2) by auto
  qed
  show ?thesis
  proof (cases "high_surrogate c")
    case True
    from second [OF True] show ?thesis
    proof
      assume "utf8_wtf8_surrogate_at s len (pos + 3) = None"
      then show ?thesis by (simp add: utf8_export_piece_def first fffd_bytes)
    next
      assume "\<exists>d. utf8_wtf8_surrogate_at s len (pos + 3) = Some (word_of_nat d) \<and> surrogate d \<and> \<not> low_surrogate d"
      then obtain d where "utf8_wtf8_surrogate_at s len (pos + 3) = Some (word_of_nat d)" "surrogate d" "\<not> low_surrogate d"
        by blast
      then show ?thesis
        using surrogate_class(2) [of d] by (simp add: utf8_export_piece_def first fffd_bytes)
    qed
  next
    case False
    then show ?thesis
      using surrogate_class(1) [OF assms(1)] by (simp add: utf8_export_piece_def first fffd_bytes)
  qed
qed

lemma export_piece_scalar:
  assumes "utf8proc_iterates iter" and "scalar_value c"
    and "s = xs @ wtf8_char c @ ys" and "len = length s" and "pos = length xs"
  shows "utf8_export_piece enc iter s len pos = (wtf8_char c, length (wtf8_char c), length (utf16_char c))"
proof -
  have c: "code_point c" "\<not> surrogate c" using assms(2) by (simp_all add: scalar_value_def)
  have "utf8_wtf8_surrogate_at s len pos = None"
    using surrogate_at_char [OF c(1) assms(3-5)] c(2) by simp
  moreover have "iter (take (len - pos) (drop pos s)) = (int (length (wtf8_char c)), int c)"
    using assms(1,2) by (simp add: utf8proc_iterates_def assms(3-5))
  ultimately show ?thesis
    using assms(3,5) by (simp add: utf8_export_piece_def utf16_char_length)
qed

lemma export_piece_text:
  assumes "utf8proc_encodes enc" and "utf8proc_iterates iter" and "list_all code_point cs" and "cs \<noteq> []"
    and "s = xs @ wtf8 cs" and "len = length s" and "pos = length xs"
  obtains v bs rest where "usv cs = v # usv rest" "wtf8 cs = bs @ wtf8 rest" "length rest < length cs"
    "list_all code_point rest" "utf8_export_piece enc iter s len pos = (wtf8_char v, length bs, length (utf16_char v))"
  using assms(4)
proof (cases rule: usv_first)
  case (pair h l rest)
  have "surrogate h" "surrogate l" using pair(2,3) by (simp_all add: surrogate_halves)
  then have "length (wtf8_char h) = 3" "length (wtf8_char l) = 3"
    by (simp_all add: surrogate_length)
  moreover have "length (utf16_char (join_pair h l)) = 2" using utf16_join_pair [OF pair(2,3)] by simp
  ultimately show ?thesis
    using that [of "join_pair h l" rest "wtf8_char h @ wtf8_char l"] pair assms(3,5)
      export_piece_pair [OF assms(1) pair(2,3), of s xs "wtf8 rest" len pos iter] assms(6,7) by simp
next
  case (one c rest)
  have rest: "list_all code_point rest" "code_point c" using assms(3) one(1) by simp_all
  show ?thesis
  proof (cases "surrogate c")
    case True
    have "length (wtf8_char c) = 3" using surrogate_length [OF True] .
    then show ?thesis
      using that [of "0xFFFD" rest "wtf8_char c"] one(1,2) rest True assms(5-7)
        export_piece_lone [OF True rest(1) one(3), of s xs len pos enc iter]
      by (simp add: to_scalar_def utf16_char_length)
  next
    case False
    then have "scalar_value c" using rest(2) by (simp add: scalar_value_def)
    then show ?thesis
      using that [of c rest "wtf8_char c"] one(1,2) rest assms(5-7)
        export_piece_scalar [OF assms(2), of c s xs "wtf8 rest" len pos enc]
      by (simp add: to_scalar_scalar)
  qed
qed

text \<open>The leading characters of a text that fit a number of bytes.\<close>

fun fit_chars :: "nat \<Rightarrow> nat list \<Rightarrow> nat list" where
  "fit_chars n [] = []"
| "fit_chars n (v # vs) =
     (if length (wtf8_char v) \<le> n then v # fit_chars (n - length (wtf8_char v)) vs else [])"

lemma fit_chars_length: "length (wtf8 (fit_chars n vs)) \<le> n"
proof (induction vs arbitrary: n)
  case (Cons v vs)
  show ?case using Cons.IH [of "n - length (wtf8_char v)"] by auto
qed simp

lemma fit_chars_all: "length (wtf8 vs) \<le> n \<Longrightarrow> fit_chars n vs = vs"
  by (induction vs arbitrary: n) auto

lemma fit_chars_split:
  "n < length (wtf8 vs) \<Longrightarrow>
    \<exists>v rest. vs = fit_chars n vs @ v # rest \<and> n < length (wtf8 (fit_chars n vs)) + length (wtf8_char v)"
proof (induction vs arbitrary: n)
  case (Cons v vs)
  show ?case
  proof (cases "length (wtf8_char v) \<le> n")
    case True
    with Cons.prems have "n - length (wtf8_char v) < length (wtf8 vs)" by simp
    from Cons.IH [OF this] True show ?thesis by auto
  qed simp
qed simp

lemma export_loop_text:
  assumes "utf8proc_encodes enc" and "utf8proc_iterates iter" and "list_all code_point cs"
    and "s = xs @ wtf8 cs" and "len = length s" and "pos = length xs"
  shows "utf8_export_loop enc iter s len dst_len pos out units =
    (out @ wtf8 (fit_chars (dst_len - length out) (usv cs)),
     units + length (utf16 (fit_chars (dst_len - length out) (usv cs))))"
  using assms(3-)
proof (induction "length cs" arbitrary: cs xs pos out units rule: less_induct)
  case less
  show ?case
  proof (cases "cs = []")
    case True
    then show ?thesis using less.prems by (subst utf8_export_loop.simps) simp
  next
    case False
    obtain v bs rest where piece: "usv cs = v # usv rest" "wtf8 cs = bs @ wtf8 rest" "length rest < length cs"
      "list_all code_point rest" "utf8_export_piece enc iter s len pos = (wtf8_char v, length bs, length (utf16_char v))"
      by (rule export_piece_text [OF assms(1,2) less.prems(1) False less.prems(2-4)])
    have more: "pos < len" using False less.prems by simp
    have IH: "utf8_export_loop enc iter s len dst_len (pos + length bs) (out @ wtf8_char v) (units + length (utf16_char v)) =
      ((out @ wtf8_char v) @ wtf8 (fit_chars (dst_len - length (out @ wtf8_char v)) (usv rest)),
       units + length (utf16_char v) + length (utf16 (fit_chars (dst_len - length (out @ wtf8_char v)) (usv rest))))"
      using less.prems piece by (intro less.hyps [where xs = "xs @ bs"]) simp_all
    have sub: "dst_len - length (out @ wtf8_char v) = dst_len - length out - length (wtf8_char v)" by simp
    show ?thesis
      using IH more unfolding sub by (subst utf8_export_loop.simps) (simp add: piece)
  qed
qed

lemma export_wtf8_text:
  assumes "utf8proc_encodes enc" and "utf8proc_iterates iter" and "list_all code_point cs"
  shows "utf8_export_wtf8 enc iter (wtf8 cs) (length (wtf8 cs)) dst_len =
    (wtf8 (fit_chars dst_len (usv cs)), length (utf16 (fit_chars dst_len (usv cs))))"
  using export_loop_text [OF assms, of "wtf8 cs" "[]"] by (simp add: utf8_export_wtf8_def)

section \<open>Export into a buffer of any size\<close>

lemma utf8_boundary_back_at:
  "i \<le> j \<Longrightarrow> \<forall>k. i < k \<and> k \<le> j \<longrightarrow> s ! k AND 0xc0 = 0x80 \<Longrightarrow> i = 0 \<or> s ! i AND 0xc0 \<noteq> 0x80 \<Longrightarrow>
    utf8_boundary_back s j = i"
proof (induction j)
  case (Suc j)
  then show ?case by (cases "i = Suc j") simp_all
qed simp

lemma wtf8_char_hd: "code_point c \<Longrightarrow> hd (wtf8_char c) AND 0xc0 \<noteq> 0x80"
proof -
  assume "code_point c"
  then have "unat (hd (wtf8_char c)) < 0x80 \<or> 0xC0 \<le> unat (hd (wtf8_char c))"
    by (cases rule: code_point_cases) simp_all
  then show ?thesis by (auto simp: byte_classes)
qed

lemma utf8_boundary_back_text:
  assumes "list_all code_point cs" and "n < length (wtf8 cs)"
  shows "utf8_boundary_back (wtf8 cs) n = length (wtf8 (fit_chars n cs))"
proof -
  obtain v rest where cs: "cs = fit_chars n cs @ v # rest" "n < length (wtf8 (fit_chars n cs)) + length (wtf8_char v)"
    using fit_chars_split [OF assms(2)] by blast
  let ?i = "length (wtf8 (fit_chars n cs))"
  have bytes: "wtf8 cs = wtf8 (fit_chars n cs) @ wtf8_char v @ wtf8 rest" by (subst cs(1)) simp
  have "v \<in> set cs" by (subst cs(1)) simp
  then have v: "code_point v" using assms(1) by (simp add: list_all_iff)
  obtain a x where ax: "wtf8_char v = a # x" by (cases "wtf8_char v") simp_all
  show ?thesis
  proof (rule utf8_boundary_back_at [OF fit_chars_length])
    show "?i = 0 \<or> wtf8 cs ! ?i AND 0xc0 \<noteq> 0x80"
      using wtf8_char_hd [OF v] ax by (simp add: bytes nth_append)
    show "\<forall>k. ?i < k \<and> k \<le> n \<longrightarrow> wtf8 cs ! k AND 0xc0 = 0x80"
    proof (intro allI impI)
      fix k assume k: "?i < k \<and> k \<le> n"
      then have j: "k - Suc ?i < length x" using cs(2) unfolding ax list.size by arith
      have "wtf8 cs ! k = x ! (k - Suc ?i)"
        using k j ax by (simp add: bytes nth_append nth_Cons')
      moreover have "x ! (k - Suc ?i) \<in> set (tl (wtf8_char v))" using j ax by simp
      ultimately show "wtf8 cs ! k AND 0xc0 = 0x80" using wtf8_char_tail by (simp add: byte_classes)
    qed
  qed
qed

lemma cursor_skip_prefix:
  "cu_byte_len cursor \<le> length s \<Longrightarrow> utf16_cursor_skip (s @ t) idx cursor = utf16_cursor_skip s idx cursor"
proof (induction s idx cursor rule: utf16_cursor_skip.induct)
  case (1 s idx cursor)
  have "utf16_scan_decode (s @ t) (cu_p cursor) e False = utf16_scan_decode s (cu_p cursor) e False"
    if "cu_p cursor < cu_byte_len cursor" for e
    using that 1(2) by (simp add: utf16_scan_decode_def nth_append Let_def)
  then have "utf16_scan_cursor_advance (s @ t) (cu_byte_len cursor) cursor = utf16_scan_cursor_advance s (cu_byte_len cursor) cursor"
    if "cu_p cursor < cu_byte_len cursor"
    using that by (simp add: utf16_scan_cursor_advance_def)
  then show ?case
    using 1 by (subst (1 2) utf16_cursor_skip.simps) (simp add: utf16_scan_cursor_advance_progress(3))
qed

lemma utf16_strlen_prefix:
  assumes "text_inv live st" and "utf16_strlen str (wtf8 cs @ t) (length (wtf8 cs)) st = (r, st')" and "code_points cs"
  shows "text_inv live st'" "same_texts st st'" "r = length (utf16 cs)"
proof -
  have "utf16_strlen str (wtf8 cs @ t) (length (wtf8 cs)) st = utf16_strlen str (wtf8 cs) (length (wtf8 cs)) st"
    by (simp add: utf16_strlen_def utf16_scan_cursor_init_def cursor_skip_prefix)
  with utf16_strlen_ok [OF assms(1), of str "wtf8 cs" "length (wtf8 cs)" r st'] assms(2,3)
  show "text_inv live st'" "same_texts st st'" "r = length (utf16 cs)" by simp_all
qed

lemma header_ok_valid:
  assumes "header_ok flat"
  shows "header_ok (snd (str_is_valid_utf8 flat))"
proof -
  have "flat_ok flat" using assms by (simp add: header_ok_def)
  note spec = str_is_valid_utf8_spec [OF this]
  have "str_flat_cached_utf16_len (snd (str_is_valid_utf8 flat))
      \<in> {str_flat_cached_utf16_len flat, STR_UTF16_LEN_UNKNOWN}"
    by (auto simp: str_is_valid_utf8_def str_is_ascii_def Let_def meta_fields)
  then show ?thesis
    using assms spec unfolding header_ok_def by auto
qed

lemma str_is_valid_utf8_at_inv:
  assumes "text_inv live st" and "str_is_valid_utf8_at str st = (b, st')"
  shows "text_inv live st'" "same_texts st st'" "b = utf8_validate_bytes (text_bytes st str) (length (text_bytes st str))"
proof -
  have header: "header_ok (ts_heap st str)" using assms(1) by (simp add: text_inv_def)
  then have flat: "flat_ok (ts_heap st str)" by (simp add: header_ok_def)
  obtain flat' where a: "str_is_valid_utf8 (ts_heap st str) = (b, flat')"
    and st': "st' = st\<lparr>ts_heap := (ts_heap st)(str := flat')\<rparr>"
    using assms(2) by (auto simp: str_is_valid_utf8_at_def split: prod.splits)
  note spec = str_is_valid_utf8_spec [OF flat, unfolded a fst_conv snd_conv]
  show same: "same_texts st st'" using spec(3) by (simp add: same_texts_def st')
  show "b = utf8_validate_bytes (text_bytes st str) (length (text_bytes st str))" using spec(1) by (simp add: fs_len_def)
  show "text_inv live st'"
    using assms(1) same_texts_text_of [OF same] same_texts_entry [OF same] header_ok_valid [OF header] a
    by (simp add: text_inv_def scan_ok_def index_ok_def st')
qed

lemma wtf8_inj:
  "\<forall>c \<in> set cs. code_point c \<Longrightarrow> \<forall>c \<in> set ds. code_point c \<Longrightarrow> wtf8 cs = wtf8 ds \<Longrightarrow> cs = ds"
proof (induction cs arbitrary: ds)
  case Nil
  then show ?case using wtf8_eq_Nil [of ds] by simp
next
  case (Cons c cs)
  then have "wtf8 ds \<noteq> []" by (metis wtf8_eq_Nil list.discI)
  then obtain d ds' where d: "ds = d # ds'" by (cases ds) simp_all
  then have eq: "wtf8_char c @ wtf8 cs = wtf8_char d @ wtf8 ds'" using Cons.prems(3) by simp
  have cp: "code_point c" "code_point d" using Cons.prems(1,2) d by simp_all
  define bs where "bs = wtf8_char c @ wtf8 cs"
  have bs: "bs = [] @ wtf8_char c @ wtf8 cs" "bs = [] @ wtf8_char d @ wtf8 ds'"
    using eq by (simp_all only: bs_def append_Nil)
  have "wtf8_decode_at bs (length bs) 0 = Some (length (wtf8_char c), word_of_nat c)"
    unfolding bs(1) using wtf8_decode_at_char [OF cp(1), of "[]"] by simp
  moreover have "wtf8_decode_at bs (length bs) 0 = Some (length (wtf8_char d), word_of_nat d)"
    unfolding bs(2) using wtf8_decode_at_char [OF cp(2), of "[]"] by simp
  ultimately have "length (wtf8_char c) = length (wtf8_char d)" by simp
  with eq have "wtf8_char c = wtf8_char d" "wtf8 cs = wtf8 ds'" by simp_all
  then show ?case using wtf8_char_inj [OF cp] Cons.IH [of ds'] Cons.prems d by simp
qed

lemma validate_scalars:
  assumes "code_points cs" and "utf8_validate_bytes (wtf8 cs) (length (wtf8 cs))"
  shows "\<forall>c \<in> set cs. scalar_value c"
proof -
  obtain ds where ds: "\<forall>c \<in> set ds. scalar_value c" "wtf8 cs = wtf8 ds"
    using assms(2) utf8_validate_bytes_iff [of "wtf8 cs"] by blast
  then have "cs = ds" using assms(1) by (intro wtf8_inj) (auto simp: code_points_def scalar_value_def)
  with ds show ?thesis by simp
qed

lemma code_points_list: "code_points cs \<longleftrightarrow> list_all code_point cs"
  by (simp add: code_points_def list_all_iff)

lemma fit_chars_prefix: "\<exists>rest. vs = fit_chars n vs @ rest"
  by (induction vs arbitrary: n) auto

lemma utf8_export_into_ok:
  assumes "utf8proc_encodes enc" and "utf8proc_iterates iter" and "text_inv live st" and "text_of st str cs"
    and "utf8_export_into enc iter str (fs_len (ts_heap st str)) dst_len st = (r, st')"
  shows "text_inv live st' \<and> same_texts st st' \<and>
    r = (wtf8 (fit_chars dst_len (usv cs)), length (utf16 (fit_chars dst_len (usv cs))))"
proof -
  have tx: "code_points cs" "text_bytes st str = wtf8 cs" "fs_len (ts_heap st str) = length (wtf8 cs)"
    using assms(4) by (simp_all add: text_of_def fs_len_text)
  obtain valid st1 where v: "str_is_valid_utf8_at str st = (valid, st1)" by (cases "str_is_valid_utf8_at str st")
  note inv = str_is_valid_utf8_at_inv [OF assms(3) v]
  have bytes: "text_bytes st1 str = wtf8 cs" using inv(2) tx(2) by (simp add: same_texts_def)
  consider (empty) "cs = []" | (invalid) "cs \<noteq> []" "\<not> valid" | (valid) "cs \<noteq> []" valid by blast
  then show ?thesis
  proof cases
    case empty
    then show ?thesis using assms(3,5) tx by (simp add: utf8_export_into_def)
  next
    case invalid
    then show ?thesis
      using assms(5) tx v inv bytes export_wtf8_text [OF assms(1,2), of cs dst_len]
      by (simp add: utf8_export_into_def code_points_list)
  next
    case valid
    then have scalars: "\<forall>c \<in> set cs. scalar_value c" using validate_scalars [OF tx(1)] inv(3) tx(2) by simp
    define vs where "vs = fit_chars dst_len cs"
    define len where "len = (if (if length (wtf8 cs) < dst_len then length (wtf8 cs) else dst_len) < length (wtf8 cs)
      then utf8_boundary_back (wtf8 cs) (if length (wtf8 cs) < dst_len then length (wtf8 cs) else dst_len)
      else (if length (wtf8 cs) < dst_len then length (wtf8 cs) else dst_len))"
    have len: "len = length (wtf8 vs)"
      using utf8_boundary_back_text [of cs dst_len] tx(1) fit_chars_all [of cs dst_len]
      by (auto simp: len_def vs_def code_points_list)
    obtain rest where rest: "cs = vs @ rest" using fit_chars_prefix [of cs dst_len] by (auto simp: vs_def)
    have points: "code_points vs" using tx(1) by (simp add: rest code_points_def)
    obtain units st2 where u: "utf16_strlen str (wtf8 cs) len st1 = (units, st2)" by (cases "utf16_strlen str (wtf8 cs) len st1")
    have "utf16_strlen str (wtf8 vs @ wtf8 rest) (length (wtf8 vs)) st1 = (units, st2)"
      using u by (simp add: rest len)
    note count = utf16_strlen_prefix [OF inv(1) this points]
    have "r = (take len (wtf8 cs), units)" "st' = st2"
      using assms(5) tx v valid bytes u by (auto simp: utf8_export_into_def len_def Let_def split: if_splits)
    moreover have "fit_chars dst_len (usv cs) = vs" by (simp add: vs_def usv_of_scalars [OF scalars])
    moreover have "take len (wtf8 cs) = wtf8 vs" by (simp add: rest len)
    ultimately show ?thesis
      using count same_texts_trans [OF inv(2) count(2)] by simp
  qed
qed

text \<open>Scalar values never take more bytes than the text, so a buffer of its size is enough.\<close>

lemma to_scalar_length: "length (wtf8_char (to_scalar c)) \<le> length (wtf8_char c)"
  by (cases "surrogate c") (simp_all add: to_scalar_def surrogate_length fffd_bytes)

lemma usv_length: "length (wtf8 (usv cs)) \<le> length (wtf8 cs)"
proof (induction cs rule: usv.induct)
  case (2 c)
  show ?case by (simp add: to_scalar_length)
next
  case (3 c d cs)
  have "length (wtf8_char (join_pair c d)) \<le> 4" by (simp add: wtf8_char_length)
  then show ?case
    using 3 to_scalar_length [of c] surrogate_length [of c] surrogate_length [of d] by (auto simp: surrogate_halves)
qed simp

section \<open>The exported length\<close>

text \<open>The extra state of a header: bytes that are not valid UTF-8 but export to the same length.\<close>

definition export_ok :: "(u32 \<Rightarrow> bytes) \<Rightarrow> (bytes \<Rightarrow> int \<times> int) \<Rightarrow> ant_flat_string \<Rightarrow> bool" where
  "export_ok enc iter flat \<longleftrightarrow> flat_ok flat \<and>
     (str_flat_utf_valid_state flat = STR_UTF_INVALID_SAME_LENGTH \<longrightarrow>
       length (fst (utf8_export_wtf8 enc iter (fs_bytes flat) (fs_len flat) size_max)) = fs_len flat)"

definition export_size :: "(u32 \<Rightarrow> bytes) \<Rightarrow> (bytes \<Rightarrow> int \<times> int) \<Rightarrow> bytes \<Rightarrow> nat" where
  "export_size enc iter bs =
     (if utf8_validate_bytes bs (length bs) then length bs
      else length (fst (utf8_export_wtf8 enc iter bs (length bs) size_max)))"

lemma utf8_export_length_slow_ok:
  assumes "export_ok enc iter flat" and "utf8_export_length_slow enc iter flat (fs_len flat) = (n, flat')"
  shows "n = export_size enc iter (fs_bytes flat) \<and> export_ok enc iter flat' \<and> fs_bytes flat' = fs_bytes flat"
proof -
  have ok: "flat_ok flat" using assms(1) by (simp add: export_ok_def)
  obtain valid flat1 where v: "str_is_valid_utf8 flat = (valid, flat1)" by (cases "str_is_valid_utf8 flat")
  note spec = str_is_valid_utf8_spec [OF ok, unfolded v fst_conv snd_conv]
  have len: "fs_len flat1 = length (fs_bytes flat)" "fs_len flat = length (fs_bytes flat)" using spec(3) by (simp_all add: fs_len_def)
  have "export_ok enc iter flat1"
  proof -
    have "str_flat_utf_valid_state flat1 = STR_UTF_INVALID_SAME_LENGTH \<Longrightarrow>
      str_flat_utf_valid_state flat = STR_UTF_INVALID_SAME_LENGTH"
      using v by (auto simp: str_is_valid_utf8_def str_is_ascii_def str_detect_ascii_bytes_def Let_def meta_fields
          split: if_splits prod.splits)
    then show ?thesis using assms(1) spec(2,3) len by (simp add: export_ok_def)
  qed
  moreover have "flat_ok (str_flat_set_utf_valid_state STR_UTF_INVALID_SAME_LENGTH flat1)" if "\<not> valid"
    using spec that len by (simp add: flat_ok_def meta_fields fs_len_def)
  ultimately show ?thesis
    using assms(2) spec len v
    by (auto simp: utf8_export_length_slow_def export_size_def export_ok_def fs_len_def meta_fields Let_def split: if_splits)
qed

lemma utf8_export_length_ok:
  assumes "export_ok enc iter flat" and "utf8_export_length enc iter flat (fs_len flat) = (n, flat')"
  shows "n = export_size enc iter (fs_bytes flat) \<and> export_ok enc iter flat' \<and> fs_bytes flat' = fs_bytes flat"
proof -
  have ok: "flat_ok flat" using assms(1) by (simp add: export_ok_def)
  have len: "fs_len flat = length (fs_bytes flat)" by (simp add: fs_len_def)
  have none: "utf8_validate_bytes [] 0" using utf8_validate_bytes_iff [of "[]"] by (auto intro: exI [of _ "[]"])
  obtain is_ascii flat1 where a: "str_is_ascii flat = (is_ascii, flat1)" by (cases "str_is_ascii flat")
  note spec = str_is_ascii_spec [OF ok, unfolded a fst_conv snd_conv]
  have "str_flat_utf_valid_state flat1 = STR_UTF_INVALID_SAME_LENGTH \<Longrightarrow>
      str_flat_utf_valid_state flat = STR_UTF_INVALID_SAME_LENGTH"
    using a by (auto simp: str_is_ascii_def str_detect_ascii_bytes_def Let_def meta_fields split: if_splits)
  then have ok1: "export_ok enc iter flat1" "fs_len flat1 = fs_len flat"
    using assms(1) spec(2,3) by (simp_all add: export_ok_def fs_len_def)
  consider (empty) "fs_len flat = 0"
    | (known) "fs_len flat \<noteq> 0" "str_flat_utf_valid_state flat = STR_UTF_VALID \<or> str_flat_utf_valid_state flat = STR_UTF_INVALID_SAME_LENGTH"
    | (ascii) "fs_len flat \<noteq> 0" "str_flat_utf_valid_state flat = STR_UTF_UNKNOWN" is_ascii
    | (unknown) "fs_len flat \<noteq> 0" "str_flat_utf_valid_state flat = STR_UTF_UNKNOWN" "\<not> is_ascii"
    | (invalid) "fs_len flat \<noteq> 0" "str_flat_utf_valid_state flat = STR_UTF_INVALID"
    using ok by (auto simp: flat_ok_def split: if_splits)
  then show ?thesis
  proof cases
    case empty
    then show ?thesis using assms none len by (simp add: utf8_export_length_def export_size_def)
  next
    case known
    then have "n = fs_len flat" "flat' = flat" using assms(2) by (auto simp: utf8_export_length_def)
    moreover have "export_size enc iter (fs_bytes flat) = fs_len flat"
      using known(2) assms(1) ok by (auto simp: export_size_def export_ok_def flat_ok_def fs_len_def split: if_splits)
    ultimately show ?thesis using assms(1) by simp
  next
    case ascii
    then have "n = fs_len flat" "flat' = flat1" using assms(2) a by (simp_all add: utf8_export_length_def)
    moreover have "export_size enc iter (fs_bytes flat) = fs_len flat"
      using ascii(3) spec(1) ascii_valid [of "fs_bytes flat"] len by (simp add: export_size_def)
    ultimately show ?thesis using ok1(1) spec(3) by simp
  next
    case unknown
    then have "utf8_export_length_slow enc iter flat1 (fs_len flat1) = (n, flat')"
      using assms(2) a ok1(2) by (simp add: utf8_export_length_def)
    from utf8_export_length_slow_ok [OF ok1(1) this] spec(3) show ?thesis by simp
  next
    case invalid
    then have "utf8_export_length_slow enc iter flat (fs_len flat) = (n, flat')"
      using assms(2) by (simp add: utf8_export_length_def)
    then show ?thesis by (rule utf8_export_length_slow_ok [OF assms(1)])
  qed
qed

section \<open>Reference library functions\<close>

text \<open>Functions that behave as the library documents, to instantiate the parameters.\<close>

definition encode_char_ref :: "u32 \<Rightarrow> bytes" where
  "encode_char_ref w = (if scalar_value (unat w) then wtf8_char (unat w) else [])"

definition iterate_ref :: "bytes \<Rightarrow> int \<times> int" where
  "iterate_ref bs =
     (if bs = [] then (0, - 1)
      else case wtf8_decode_at bs (length bs) 0 of
          None \<Rightarrow> (- 1, - 1)
        | Some (n, cp) \<Rightarrow>
            if scalar_value (unat cp) \<and> take n bs = wtf8_char (unat cp) then (int n, int (unat cp)) else (- 1, - 1))"

lemma encode_char_ref_ok: "utf8proc_encodes encode_char_ref"
  by (auto simp: utf8proc_encodes_def encode_char_ref_def scalar_value_def code_point_def
      unsigned_of_nat take_bit_nat_eq_self)

lemma iterate_ref_ok: "utf8proc_iterates iterate_ref"
  unfolding utf8proc_iterates_def
proof (intro conjI allI impI)
  fix c rest assume c: "scalar_value c"
  then have "code_point c" "unat (word_of_nat c :: u32) = c"
    by (simp_all add: scalar_value_def code_point_def unsigned_of_nat take_bit_nat_eq_self)
  then show "iterate_ref (wtf8_char c @ rest) = (int (length (wtf8_char c)), int c)"
    using wtf8_decode_at_char [of c "[]" "length (wtf8_char c @ rest)" rest] c by (simp add: iterate_ref_def)
next
  fix bs assume none: "\<forall>c rest. scalar_value c \<longrightarrow> bs \<noteq> wtf8_char c @ rest"
  have "take n bs \<noteq> wtf8_char (unat cp)" if "scalar_value (unat cp)" for n and cp :: u32
    using none that append_take_drop_id [of n bs] by metis
  then show "fst (iterate_ref bs) \<le> 0" by (auto simp: iterate_ref_def split: option.splits)
qed

end
