(* ===== verification/Json_Quote.thy ===== *)
theory Json_Quote
  imports Utf8_Export
begin

unbundle bit_operations_syntax

text \<open>
  \<^verbatim>\<open>utf8_json_quote\<close> of \<^verbatim>\<open>src/utf8.c\<close>, the string writer of \<^verbatim>\<open>JSON.stringify\<close>. The output buffer is the
  pair of the bytes written and the capacity; \<open>None\<close> is the null result for no memory. The
  reference reader \<open>json_units\<close> gives the code units that a JSON string literal denotes.
\<close>

section \<open>The growing buffer\<close>

type_synonym quote_buf = "bytes \<times> nat"

text \<open>The doubling loop; its start is never 0 where it is called.\<close>

function quote_grow :: "nat \<Rightarrow> nat \<Rightarrow> nat" where
  "quote_grow nxt need = (if 0 < nxt \<and> nxt < need then quote_grow (nxt * 2) need else nxt)"
  by pat_completeness auto
termination
  by (relation "measure (\<lambda>(nxt, need). need - nxt)") auto

declare quote_grow.simps [simp del]

definition utf8_json_quote_reserve :: "mem_env \<Rightarrow> quote_buf \<Rightarrow> nat \<Rightarrow> quote_buf option" where
  "utf8_json_quote_reserve m buf need =
     (if need \<le> snd buf then Some buf
      else
        let nxt = quote_grow (if snd buf \<noteq> 0 then snd buf * 2 else 64) need
        in if \<not> alloc_ok m nxt then None else Some (fst buf, nxt))"

definition utf8_json_quote_append :: "mem_env \<Rightarrow> quote_buf \<Rightarrow> bytes \<Rightarrow> quote_buf option" where
  "utf8_json_quote_append m buf src =
     (case utf8_json_quote_reserve m buf (length (fst buf) + length src + 1) of
        None \<Rightarrow> None
      | Some (raw, cap) \<Rightarrow> Some (raw @ src, cap))"

definition utf8_json_quote_append_char :: "mem_env \<Rightarrow> quote_buf \<Rightarrow> u8 \<Rightarrow> quote_buf option" where
  "utf8_json_quote_append_char m buf ch = utf8_json_quote_append m buf [ch]"

definition u_escape :: "u32 \<Rightarrow> bytes" where
  "u_escape code_unit =
     [92, 117, hex_char (unat (drop_bit 12 code_unit)), hex_char (unat (drop_bit 8 code_unit)),
      hex_char (unat (drop_bit 4 code_unit)), hex_char (unat code_unit)]"

definition utf8_json_quote_append_u_escape :: "mem_env \<Rightarrow> quote_buf \<Rightarrow> u32 \<Rightarrow> quote_buf option" where
  "utf8_json_quote_append_u_escape m buf code_unit = utf8_json_quote_append m buf (u_escape code_unit)"

definition json_ascii_escape_action :: "u8 \<Rightarrow> u8" where
  "json_ascii_escape_action c =
     (if c = 34 then 34 else if c = 92 then 92
      else if c = 8 then 98 else if c = 12 then 102 else if c = 10 then 110
      else if c = 13 then 114 else if c = 9 then 116
      else if c < 0x20 then 117 else 0)"

section \<open>The writer\<close>

text \<open>One round: the bytes appended and the bytes read; \<open>None\<close> when the encoder fails.\<close>

definition quote_piece :: "(u32 \<Rightarrow> bytes) \<Rightarrow> bytes \<Rightarrow> nat \<Rightarrow> nat \<Rightarrow> (bytes \<times> nat) option" where
  "quote_piece enc s byte_len i =
     (let c = s ! i
      in if c < 0x80 then
           let action = json_ascii_escape_action c
           in if action = 0 then Some ([c], 1)
              else if action = 117 then Some (u_escape (ucast c), 1)
              else Some ([92, action], 1)
         else case wtf8_decode_at s byte_len i of
             None \<Rightarrow> Some ([c], 1)
           | Some (n, cp) \<Rightarrow>
               (case (if wtf8_is_high_surrogate cp \<and> i + n < byte_len
                      then wtf8_decode_at s byte_len (i + n) else None) of
                  Some (n2, cp2) \<Rightarrow>
                    if wtf8_is_low_surrogate cp2 then
                      let e = enc (0x10000 + push_bit 10 (cp - 0xD800) + (cp2 - 0xDC00))
                      in if e = [] then None else Some (e, n + n2)
                    else Some (u_escape cp, n)
                | None \<Rightarrow>
                    if wtf8_is_high_surrogate cp \<or> wtf8_is_low_surrogate cp then Some (u_escape cp, n)
                    else Some (take n (drop i s), n)))"

lemma wtf8_decode_at_progress: "wtf8_decode_at s len i = Some (n, cp) \<Longrightarrow> 0 < n"
  by (auto simp: wtf8_decode_at_def Let_def split: if_splits option.splits)

lemma quote_piece_progress: "quote_piece enc s byte_len i = Some (bs, n) \<Longrightarrow> 0 < n"
  using wtf8_decode_at_progress [of s byte_len i]
  by (auto simp: quote_piece_def Let_def split: if_splits option.splits)

function quote_loop :: "mem_env \<Rightarrow> (u32 \<Rightarrow> bytes) \<Rightarrow> bytes \<Rightarrow> nat \<Rightarrow> nat \<Rightarrow> quote_buf \<Rightarrow> quote_buf option" where
  "quote_loop m enc s byte_len i buf =
     (if i < byte_len then
        case quote_piece enc s byte_len i of
          None \<Rightarrow> None
        | Some (bs, n) \<Rightarrow>
            (case utf8_json_quote_append m buf bs of
               None \<Rightarrow> None
             | Some buf1 \<Rightarrow> quote_loop m enc s byte_len (i + n) buf1)
      else Some buf)"
  by pat_completeness auto
termination
  by (relation "measure (\<lambda>(m, enc, s, byte_len, i, buf). byte_len - i)")
    (auto dest: quote_piece_progress)

declare quote_loop.simps [simp del]

definition utf8_json_quote :: "mem_env \<Rightarrow> (u32 \<Rightarrow> bytes) \<Rightarrow> bytes \<Rightarrow> nat \<Rightarrow> bytes option" where
  "utf8_json_quote m enc s byte_len =
     (if \<not> alloc_ok m (byte_len + 12) then None
      else case utf8_json_quote_append_char m ([], byte_len + 12) 34 of
          None \<Rightarrow> None
        | Some buf \<Rightarrow>
            (case quote_loop m enc s byte_len 0 buf of
               None \<Rightarrow> None
             | Some buf1 \<Rightarrow> map_option fst (utf8_json_quote_append_char m buf1 34)))"

section \<open>The buffer is never overrun\<close>

text \<open>After every append the bytes and their terminating zero are inside the capacity.\<close>

lemma quote_grow_ge: "0 < nxt \<Longrightarrow> need \<le> quote_grow nxt need"
  by (induction nxt need rule: quote_grow.induct) (subst quote_grow.simps, auto)

lemma quote_append_fits:
  "utf8_json_quote_append m buf src = Some (raw, cap) \<Longrightarrow> raw = fst buf @ src \<and> length raw + 1 \<le> cap"
  using quote_grow_ge [of "snd buf * 2" "length (fst buf) + length src + 1"]
    quote_grow_ge [of 64 "length (fst buf) + length src + 1"]
  by (cases buf) (auto simp: utf8_json_quote_append_def utf8_json_quote_reserve_def Let_def split: if_splits option.splits)

lemma quote_append_ample:
  "ample_memory m \<Longrightarrow> \<exists>cap. utf8_json_quote_append m (raw, c) src = Some (raw @ src, cap)"
  by (simp add: utf8_json_quote_append_def utf8_json_quote_reserve_def Let_def)

section \<open>What is written\<close>

fun join_pairs :: "nat list \<Rightarrow> nat list" where
  "join_pairs [] = []"
| "join_pairs [c] = [c]"
| "join_pairs (c # d # cs) =
     (if high_surrogate c \<and> low_surrogate d then join_pair c d # join_pairs cs
      else c # join_pairs (d # cs))"

definition quote_char :: "nat \<Rightarrow> bytes" where
  "quote_char c =
     (if c < 0x80 then
        let action = json_ascii_escape_action (byte c)
        in if action = 0 then [byte c] else if action = 117 then u_escape (word_of_nat c) else [92, action]
      else if surrogate c then u_escape (word_of_nat c)
      else wtf8_char c)"

lemma join_pairs_utf16: "utf16 (join_pairs cs) = utf16 cs"
  by (induction cs rule: join_pairs.induct)
    (simp_all add: utf16_join_pair, simp_all add: utf16_char_def high_surrogate_def low_surrogate_def)

lemma join_pairs_points: "list_all code_point cs \<Longrightarrow> list_all code_point (join_pairs cs)"
  by (induction cs rule: join_pairs.induct) (simp_all add: scalar_join_pair [unfolded scalar_value_def])

lemma join_pairs_first:
  assumes "cs \<noteq> []"
  obtains (pair) h l rest where "cs = h # l # rest" "high_surrogate h" "low_surrogate l" "join_pairs cs = join_pair h l # join_pairs rest"
  | (one) c rest where "cs = c # rest" "join_pairs cs = c # join_pairs rest"
      "high_surrogate c \<Longrightarrow> rest = [] \<or> \<not> low_surrogate (hd rest)"
proof (cases cs rule: join_pairs.cases)
  case (2 c)
  then show ?thesis using one [of c "[]"] by simp
next
  case (3 c d ds)
  then show ?thesis
    using pair [of c d ds] one [of c "d # ds"] by (cases "high_surrogate c \<and> low_surrogate d") auto
qed (use assms in simp)

lemma wtf8_surrogate_tests:
  assumes "code_point c"
  shows "wtf8_is_high_surrogate (word_of_nat c) \<longleftrightarrow> high_surrogate c"
    "wtf8_is_low_surrogate (word_of_nat c) \<longleftrightarrow> low_surrogate c"
proof -
  have "unat (word_of_nat c :: u32) = c"
    using assms by (simp add: code_point_def unsigned_of_nat take_bit_nat_eq_self)
  then show "wtf8_is_high_surrogate (word_of_nat c) \<longleftrightarrow> high_surrogate c"
    "wtf8_is_low_surrogate (word_of_nat c) \<longleftrightarrow> low_surrogate c"
    by (auto simp: wtf8_is_high_surrogate_def wtf8_is_low_surrogate_def high_surrogate_def low_surrogate_def word_le_nat_alt)
qed

lemma quote_pair_cp:
  assumes "high_surrogate h" and "low_surrogate l"
  shows "0x10000 + push_bit 10 (word_of_nat h - 0xD800) + (word_of_nat l - 0xDC00) = (word_of_nat (join_pair h l) :: u32)"
proof -
  have h: "0xD800 \<le> h" "h < 0xDC00" and l: "0xDC00 \<le> l" "l < 0xE000"
    using assms by (simp_all add: high_surrogate_def low_surrogate_def)
  have u: "unat (word_of_nat h :: u32) = h" "unat (word_of_nat l :: u32) = l"
    using h l by (simp_all add: unsigned_of_nat take_bit_nat_eq_self)
  have "unat ((word_of_nat h :: u32) - 0xD800) = h - 0xD800" "unat ((word_of_nat l :: u32) - 0xDC00) = l - 0xDC00"
    using u h l by (simp_all add: unat_sub_if_size word_size)
  moreover have "h - 0xD800 < 0x400" "l - 0xDC00 < 0x400" using h l by auto
  ultimately have "unat (0x10000 + push_bit 10 (word_of_nat h - 0xD800) + (word_of_nat l - 0xDC00) :: u32) = join_pair h l"
    using unat_pair_sum [of "word_of_nat h - 0xD800" "word_of_nat l - 0xDC00"] by (simp only: join_pair_def)
  then show ?thesis by (metis word_of_unat)
qed

lemma quote_piece_one:
  assumes "list_all code_point (c # rest)" and "high_surrogate c \<Longrightarrow> rest = [] \<or> \<not> low_surrogate (hd rest)"
    and "s = xs @ wtf8 (c # rest)" and "len = length s" and "i = length xs"
  shows "quote_piece enc s len i = Some (quote_char c, length (wtf8_char c))"
proof (cases "c < 0x80")
  case True
  then have "s ! i = byte c" "length (wtf8_char c) = 1" using assms(3,5) by (simp_all add: wtf8_char_def nth_append)
  then show ?thesis
    using True by (simp add: quote_piece_def quote_char_def Let_def byte_classes)
next
  case False
  have cp: "code_point c" using assms(1) by simp
  have "\<not> s ! i < 0x80"
  proof -
    have "s ! i = hd (wtf8_char c)" using assms(3,5) by (simp add: nth_append hd_conv_nth)
    moreover have "\<not> unat (hd (wtf8_char c)) < 0x80"
      using cp False by (cases rule: code_point_cases) simp_all
    ultimately show ?thesis by (simp add: byte_classes)
  qed
  moreover have dec: "wtf8_decode_at s len i = Some (length (wtf8_char c), word_of_nat c)"
    using wtf8_decode_at_char [OF cp, of xs len "wtf8 rest"] assms(3-5) by simp
  moreover have "take (length (wtf8_char c)) (drop i s) = wtf8_char c" using assms(3,5) by simp
  moreover have "\<forall>n cp2. wtf8_decode_at s len (i + length (wtf8_char c)) = Some (n, cp2) \<longrightarrow> \<not> wtf8_is_low_surrogate cp2"
    if high: "high_surrogate c" and more: "i + length (wtf8_char c) < len"
  proof -
    obtain d ds where d: "rest = d # ds" using more assms(3-5) by (cases rest) simp_all
    then have "code_point d" "\<not> low_surrogate d" using assms(1,2) high by simp_all
    then show ?thesis
      using wtf8_decode_at_char [of d "xs @ wtf8_char c" len "wtf8 ds"] wtf8_surrogate_tests(2) [of d] assms(3-5) d by simp
  qed
  ultimately show ?thesis
    using False wtf8_surrogate_tests [OF cp]
    by (auto simp: quote_piece_def quote_char_def surrogate_halves split: option.splits)
qed

lemma quote_piece_pair:
  assumes "utf8proc_encodes enc" and "high_surrogate h" and "low_surrogate l"
    and "s = xs @ wtf8 (h # l # rest)" and "len = length s" and "i = length xs"
  shows "quote_piece enc s len i = Some (quote_char (join_pair h l), length (wtf8_char h) + length (wtf8_char l))"
proof -
  have cp: "code_point h" "code_point l" using assms(2,3) by (simp_all add: high_surrogate_def low_surrogate_def code_point_def)
  have "surrogate h" using assms(2) by (simp add: surrogate_halves)
  then obtain y z where "wtf8_char h = [0xED, y, z]" using surrogate_bytes by metis
  then have "s ! i = 0xED" using assms(4,6) by (simp add: nth_append)
  moreover have "wtf8_decode_at s len i = Some (length (wtf8_char h), word_of_nat h)"
    using wtf8_decode_at_char [OF cp(1), of xs len "wtf8 (l # rest)"] assms(4-6) by simp
  moreover have "wtf8_decode_at s len (i + length (wtf8_char h)) = Some (length (wtf8_char l), word_of_nat l)"
    using wtf8_decode_at_char [OF cp(2), of "xs @ wtf8_char h" len "wtf8 rest"] assms(4-6) by simp
  moreover have "i + length (wtf8_char h) < len" using assms(4-6) by simp
  moreover have "enc (0x10000 + push_bit 10 (word_of_nat h - 0xD800) + (word_of_nat l - 0xDC00)) = wtf8_char (join_pair h l)"
    by (rule utf8proc_encodesD [OF assms(1) scalar_join_pair [OF assms(2,3)] quote_pair_cp [OF assms(2,3)]])
  moreover have "quote_char (join_pair h l) = wtf8_char (join_pair h l)"
    using join_pair_bounds [OF assms(2,3)] by (simp add: quote_char_def surrogate_def)
  ultimately show ?thesis
    using wtf8_surrogate_tests [OF cp(1)] wtf8_surrogate_tests [OF cp(2)] assms(2,3)
    by (simp add: quote_piece_def)
qed

lemma quote_loop_text:
  assumes "ample_memory m" and "utf8proc_encodes enc" and "list_all code_point cs"
    and "s = xs @ wtf8 cs" and "len = length s" and "i = length xs"
  shows "\<exists>cap. quote_loop m enc s len i (raw, c) = Some (raw @ concat (map quote_char (join_pairs cs)), cap)"
  using assms(3-)
proof (induction "length cs" arbitrary: cs xs i raw c rule: less_induct)
  case less
  show ?case
  proof (cases "cs = []")
    case True
    then show ?thesis using less.prems by (subst quote_loop.simps) simp
  next
    case False
    obtain v bs rest where piece: "join_pairs cs = v # join_pairs rest" "wtf8 cs = bs @ wtf8 rest" "length rest < length cs"
      "list_all code_point rest" "quote_piece enc s len i = Some (quote_char v, length bs)"
      using False
    proof (cases rule: join_pairs_first)
      case (pair h l rest)
      then show ?thesis
        using that [of "join_pair h l" rest "wtf8_char h @ wtf8_char l"] less.prems
          quote_piece_pair [OF assms(2) pair(2,3), of s xs rest len i] by simp
    next
      case (one d rest)
      then show ?thesis
        using that [of d rest "wtf8_char d"] less.prems quote_piece_one [of d rest s xs len i enc] by simp
    qed
    obtain cap where app: "utf8_json_quote_append m (raw, c) (quote_char v) = Some (raw @ quote_char v, cap)"
      using quote_append_ample [OF assms(1)] by blast
    obtain cap' where "quote_loop m enc s len (i + length bs) (raw @ quote_char v, cap) =
        Some ((raw @ quote_char v) @ concat (map quote_char (join_pairs rest)), cap')"
      using less.hyps [of rest "xs @ bs" "i + length bs" "raw @ quote_char v" cap] less.prems piece by auto
    moreover have "i < len" using False less.prems by simp
    ultimately show ?thesis using app piece by (subst quote_loop.simps) simp
  qed
qed

lemma utf8_json_quote_text:
  assumes "ample_memory m" and "utf8proc_encodes enc" and "list_all code_point cs"
  shows "utf8_json_quote m enc (wtf8 cs) (length (wtf8 cs)) =
    Some (34 # concat (map quote_char (join_pairs cs)) @ [34])"
proof -
  obtain cap where "utf8_json_quote_append m ([], length (wtf8 cs) + 12) [34] = Some ([34], cap)"
    using quote_append_ample [OF assms(1), of "[]"] by auto
  moreover obtain cap1 where "quote_loop m enc (wtf8 cs) (length (wtf8 cs)) 0 ([34], cap) =
      Some ([34] @ concat (map quote_char (join_pairs cs)), cap1)"
    using quote_loop_text [OF assms, of "wtf8 cs" "[]" "length (wtf8 cs)" 0 "[34]" cap] by auto
  moreover obtain cap2 where "utf8_json_quote_append m ([34] @ concat (map quote_char (join_pairs cs)), cap1) [34] =
      Some (([34] @ concat (map quote_char (join_pairs cs))) @ [34], cap2)"
    using quote_append_ample [OF assms(1)] by blast
  ultimately show ?thesis
    using assms(1) by (simp add: utf8_json_quote_def utf8_json_quote_append_char_def)
qed

section \<open>A reference reader\<close>

definition hex4 :: "u8 \<Rightarrow> u8 \<Rightarrow> u8 \<Rightarrow> u8 \<Rightarrow> nat option" where
  "hex4 a b c d =
     (if list_all (\<lambda>x. 0 \<le> hex_digit x) [a, b, c, d]
      then Some (nat (hex_digit a) * 4096 + nat (hex_digit b) * 256 + nat (hex_digit c) * 16 + nat (hex_digit d))
      else None)"

definition simple_escape :: "u8 \<Rightarrow> nat option" where
  "simple_escape e =
     map_of [(34, 34), (92, 92), (47, 47), (98, 8), (102, 12), (110, 10), (114, 13), (116, 9)] e"

function json_units :: "bytes \<Rightarrow> nat list option" where
  "json_units bs =
     (case bs of
        [] \<Rightarrow> None
      | b # r \<Rightarrow>
          if b = 34 then (if r = [] then Some [] else None)
          else if b = 92 then
            (case r of
               [] \<Rightarrow> None
             | e # r1 \<Rightarrow>
                 if e = 117 then
                   (case r1 of
                      h3 # h2 # h1 # h0 # r2 \<Rightarrow>
                        (case hex4 h3 h2 h1 h0 of
                           None \<Rightarrow> None | Some u \<Rightarrow> map_option (Cons u) (json_units r2))
                    | _ \<Rightarrow> None)
                 else (case simple_escape e of
                         None \<Rightarrow> None | Some u \<Rightarrow> map_option (Cons u) (json_units r1)))
          else if b < 0x20 then None
          else (case wtf8_decode_at bs (length bs) 0 of
                  None \<Rightarrow> None
                | Some (n, cp) \<Rightarrow>
                    if 0 < n \<and> scalar_value (unat cp) \<and> take n bs = wtf8_char (unat cp)
                    then map_option (append (utf16_char (unat cp))) (json_units (drop n bs))
                    else None))"
  by pat_completeness auto
termination
  by (relation "measure length") (auto split: list.splits)

declare json_units.simps [simp del]

lemma json_units_end: "json_units [34] = Some []"
  by (subst json_units.simps) simp

lemma hex_digit_hex_char: "hex_digit (hex_char v) = int (v mod 16)"
proof -
  have "\<forall>d \<in> set [0..<16]. hex_digit (ascii ''0123456789abcdef'' ! d) = int d"
    by code_simp
  moreover have "v mod 16 \<in> set [0..<16]" by simp
  ultimately show ?thesis unfolding hex_char_def by blast
qed

lemma hex4_digits:
  assumes "u < 65536"
  shows "hex4 (hex_char (u div 4096)) (hex_char (u div 256)) (hex_char (u div 16)) (hex_char u) = Some u"
proof -
  have a: "u div 4096 mod 16 = u div 4096" using assms by simp
  have "u div 256 = u div 4096 * 16 + u div 256 mod 16" "u div 16 = u div 256 * 16 + u div 16 mod 16" "u = u div 16 * 16 + u mod 16"
    using div_mult_mod_eq [of "u div 256" 16] div_mult_mod_eq [of "u div 16" 16] div_mult_mod_eq [of u 16]
    by (simp_all add: div_mult2_eq [symmetric])
  then have "u div 4096 * 4096 + u div 256 mod 16 * 256 + u div 16 mod 16 * 16 + u mod 16 = u" by linarith
  then show ?thesis by (simp add: hex4_def hex_digit_hex_char a nat_mod_distrib del: of_nat_mod)
qed

lemma json_units_u_escape:
  assumes "u < 65536"
  shows "json_units (u_escape (word_of_nat u) @ rest) = map_option (Cons u) (json_units rest)"
proof -
  have "unat (word_of_nat u :: u32) = u" using assms by (simp add: unsigned_of_nat take_bit_nat_eq_self)
  then have "u_escape (word_of_nat u) = [92, 117, hex_char (u div 4096), hex_char (u div 256), hex_char (u div 16), hex_char u]"
    by (simp add: u_escape_def unat_drop_bit_u32)
  then show ?thesis using hex4_digits [OF assms] by (subst json_units.simps) simp
qed

section \<open>Reading back what was written\<close>

lemma json_units_plain:
  assumes "scalar_value c" and "0x20 \<le> c" and "c \<noteq> 34" and "c \<noteq> 92"
  shows "json_units (wtf8_char c @ rest) = map_option (append (utf16_char c)) (json_units rest)"
proof -
  have cp: "code_point c" using assms(1) by (simp add: scalar_value_def)
  obtain b x where ch: "wtf8_char c = b # x" by (cases "wtf8_char c") simp_all
  have "unat b = c \<or> 0xC0 \<le> unat b"
    using cp ch by (cases rule: code_point_cases) auto
  then have b: "b \<noteq> 34" "b \<noteq> 92" "\<not> b < 0x20"
    using assms(2-4) by (auto simp: word_unat_eq_iff word_less_nat_alt)
  have unat: "unat (word_of_nat c :: u32) = c"
    using cp by (simp add: code_point_def unsigned_of_nat take_bit_nat_eq_self)
  have "wtf8_decode_at (wtf8_char c @ rest) (length (wtf8_char c @ rest)) 0 = Some (length (wtf8_char c), word_of_nat c)"
    using wtf8_decode_at_char [OF cp, of "[]" "length (wtf8_char c @ rest)" rest] by simp
  then show ?thesis
    unfolding ch using b unat assms(1) ch by (subst json_units.simps) simp
qed

lemma escape_action:
  assumes "c < 0x80"
  shows "json_ascii_escape_action (byte c) =
    (if c = 34 then 34 else if c = 92 then 92 else if c = 8 then 98 else if c = 12 then 102
     else if c = 10 then 110 else if c = 13 then 114 else if c = 9 then 116 else if c < 0x20 then 117 else 0)"
  using assms by (simp add: json_ascii_escape_action_def word_unat_eq_iff word_less_nat_alt)

lemma json_units_quote_char:
  assumes "code_point c"
  shows "json_units (quote_char c @ rest) = map_option (append (utf16_char c)) (json_units rest)"
proof -
  have unit: "map_option (append (utf16_char c)) (json_units rest) = map_option (Cons c) (json_units rest)" if "c < 0x10000"
    using that by (cases "json_units rest") (simp_all add: utf16_char_def)
  consider (simple) "c \<in> {34, 92, 8, 12, 10, 13, 9}" | (control) "c < 0x20" "c \<notin> {8, 12, 10, 13, 9}"
    | (half) "surrogate c" | (plain) "0x20 \<le> c" "c \<noteq> 34" "c \<noteq> 92" "\<not> surrogate c" by fastforce
  then show ?thesis
  proof cases
    case simple
    then have small: "c < 0x80" "c < 0x10000" by auto
    have "\<exists>e. quote_char c = [92, e] \<and> e \<noteq> 117 \<and> simple_escape e = Some c"
      using simple by (auto simp: quote_char_def escape_action simple_escape_def)
    then obtain e where "quote_char c = [92, e]" "e \<noteq> 117" "simple_escape e = Some c" by blast
    then show ?thesis unfolding unit [OF small(2)] by (subst json_units.simps) simp
  next
    case control
    then have "quote_char c = u_escape (word_of_nat c)" by (auto simp: quote_char_def escape_action)
    then show ?thesis using json_units_u_escape [of c rest] control unit by simp
  next
    case half
    then have "quote_char c = u_escape (word_of_nat c)" "c < 0x10000" by (auto simp: quote_char_def surrogate_def)
    then show ?thesis using json_units_u_escape [of c rest] unit by simp
  next
    case plain
    have "quote_char c = wtf8_char c"
    proof (cases "c < 0x80")
      case True
      then show ?thesis using plain by (simp add: quote_char_def escape_action wtf8_char_def)
    qed (use plain in \<open>simp add: quote_char_def\<close>)
    then show ?thesis using json_units_plain [of c rest] plain assms by (simp add: scalar_value_def)
  qed
qed

lemma json_units_quote:
  "list_all code_point cs \<Longrightarrow> json_units (concat (map quote_char cs) @ [34]) = Some (utf16 cs)"
  by (induction cs) (simp_all add: json_units_end json_units_quote_char)

lemma valid_ascii: "\<forall>b \<in> set bs. b < 0x80 \<Longrightarrow> valid_utf8 bs"
  using ascii_valid [of bs] by (simp add: valid_utf8_validate ascii_bytes_def)

lemma hex_char_ascii: "hex_char v < 0x80"
proof -
  have "\<forall>d \<in> set [0..<16]. ascii ''0123456789abcdef'' ! d < 0x80"
    by code_simp
  moreover have "v mod 16 \<in> set [0..<16]" by simp
  ultimately show ?thesis unfolding hex_char_def by blast
qed

lemma valid_quote_char: "code_point c \<Longrightarrow> valid_utf8 (quote_char c)"
proof -
  assume c: "code_point c"
  have esc: "valid_utf8 (u_escape w)" for w by (rule valid_ascii) (simp add: u_escape_def hex_char_ascii)
  have "valid_utf8 [byte c]" if "c < 0x80" using that by (intro valid_ascii) (simp add: byte_classes)
  moreover have "valid_utf8 [92, json_ascii_escape_action (byte c)]" if "c < 0x80"
    using that by (intro valid_ascii) (simp add: escape_action)
  ultimately show ?thesis
    using c esc valid_utf8_char [of c] by (auto simp: quote_char_def Let_def scalar_value_def)
qed

lemma valid_quote: "list_all code_point cs \<Longrightarrow> valid_utf8 (34 # concat (map quote_char cs) @ [34])"
proof -
  assume cs: "list_all code_point cs"
  have "valid_utf8 (concat (map quote_char cs))"
    using cs by (induction cs) (simp_all add: valid_utf8_append valid_quote_char)
  then have "valid_utf8 ([34] @ concat (map quote_char cs) @ [34])"
    using valid_ascii [of "[34]"] by (intro valid_utf8_append) simp_all
  then show ?thesis by simp
qed

end
