(* ===== verification/Text_States.thy ===== *)
theory Text_States
  imports Utf8_Export
begin

unbundle bit_operations_syntax

text \<open>
  The strings of the heap over time: how they are made (\<^verbatim>\<open>js_mkstr\<close>, and the flattening of ropes and
  builders, of \<^verbatim>\<open>src/ant.c\<close>), and any order of lookups, exports, allocations and sweeps. In every
  state reached this way the caches and headers are right (\<open>text_inv\<close>).
\<close>

section \<open>New strings\<close>

text \<open>
  A string is made from given bytes, or with room for bytes that the caller writes afterwards (the
  pointer is null); \<open>bs\<close> are the bytes it then holds. Flattening writes the bytes, sets the header once
  more and keeps the number of code units when the rope or builder had counted them; a builder
  also knows whether it has seen only ASCII.
\<close>

definition js_mkstr :: "mem_env \<Rightarrow> bool \<Rightarrow> bytes \<Rightarrow> ant_flat_string option" where
  "js_mkstr m given bs =
     (if \<not> alloc_ok m (flat_string_size (length bs)) then None
      else Some (str_flat_init_meta
        (if given \<or> length bs = 0 then str_detect_ascii_bytes bs (length bs) else STR_ASCII_UNKNOWN)
        \<lparr>fs_bytes = bs, fs_meta = 0\<rparr>))"

definition set_counted_len :: "u64 option \<Rightarrow> ant_flat_string \<Rightarrow> ant_flat_string" where
  "set_counted_len cached flat = (case cached of Some n \<Rightarrow> str_flat_set_utf16_len n flat | None \<Rightarrow> flat)"

definition rope_flat_header :: "mem_env \<Rightarrow> bytes \<Rightarrow> u64 option \<Rightarrow> ant_flat_string option" where
  "rope_flat_header m bs cached =
     map_option (\<lambda>flat. set_counted_len cached (str_flat_init_meta (str_detect_ascii_bytes bs (length bs)) flat))
       (js_mkstr m False bs)"

definition builder_flat_header :: "mem_env \<Rightarrow> u8 \<Rightarrow> bytes \<Rightarrow> u64 option \<Rightarrow> ant_flat_string option" where
  "builder_flat_header m ascii_state bs cached =
     map_option (\<lambda>flat. set_counted_len cached (str_flat_init_meta ascii_state flat)) (js_mkstr m False bs)"

text \<open>What the counters of a rope and of a builder hold: nothing, or the right answer.\<close>

definition counted_len_ok :: "bytes \<Rightarrow> u64 option \<Rightarrow> bool" where
  "counted_len_ok bs cached \<longleftrightarrow>
     (\<forall>n cs. cached = Some n \<longrightarrow> code_points cs \<longrightarrow> bs = wtf8 cs \<longrightarrow> n = word_of_nat (length (utf16 cs)))"

definition ascii_state_ok :: "bytes \<Rightarrow> u8 \<Rightarrow> bool" where
  "ascii_state_ok bs state \<longleftrightarrow> state \<in> {STR_ASCII_UNKNOWN, str_detect_ascii_bytes bs (length bs)}"

lemma header_ok_init:
  assumes "ascii_state_ok (fs_bytes flat) state" and "counted_len_ok (fs_bytes flat) cached"
  shows "header_ok (set_counted_len cached (str_flat_init_meta state flat))"
proof -
  let ?flat = "str_flat_init_meta state flat"
  have state: "state \<in> {STR_ASCII_UNKNOWN, if ascii_bytes (fs_bytes flat) then STR_ASCII_YES else STR_ASCII_NO}"
    using assms(1) by (simp add: ascii_state_ok_def str_detect_ascii_bytes_eq)
  then have flat: "str_flat_ascii_state ?flat \<in> {STR_ASCII_UNKNOWN, if ascii_bytes (fs_bytes flat) then STR_ASCII_YES else STR_ASCII_NO}"
    "str_flat_utf_valid_state ?flat = STR_UTF_UNKNOWN"
    by (auto simp: meta_fields split: if_splits)
  show ?thesis
  proof (cases cached)
    case None
    then show ?thesis using flat by (simp add: set_counted_len_def header_ok_def flat_ok_def meta_fields)
  next
    case (Some n)
    then have "take_bit 56 n = take_bit 56 (word_of_nat (length (utf16 cs)))" if "code_points cs" "fs_bytes flat = wtf8 cs" for cs
      using assms(2) that by (simp add: counted_len_ok_def)
    then show ?thesis using Some flat by (auto simp: set_counted_len_def header_ok_def flat_ok_def meta_fields)
  qed
qed

lemma js_mkstr_bytes: "js_mkstr m given bs = Some flat \<Longrightarrow> fs_bytes flat = bs"
  by (auto simp: js_mkstr_def split: if_splits)

lemma header_ok_mkstr: "js_mkstr m given bs = Some flat \<Longrightarrow> header_ok flat"
  using header_ok_init [of "\<lparr>fs_bytes = bs, fs_meta = 0\<rparr>" _ None]
  by (auto simp: js_mkstr_def set_counted_len_def ascii_state_ok_def counted_len_ok_def split: if_splits)

lemma header_ok_rope:
  "rope_flat_header m bs cached = Some flat \<Longrightarrow> counted_len_ok bs cached \<Longrightarrow> header_ok flat"
  using js_mkstr_bytes by (auto simp: rope_flat_header_def ascii_state_ok_def intro!: header_ok_init)

lemma header_ok_builder:
  "builder_flat_header m state bs cached = Some flat \<Longrightarrow> ascii_state_ok bs state \<Longrightarrow> counted_len_ok bs cached \<Longrightarrow> header_ok flat"
  using js_mkstr_bytes by (auto simp: builder_flat_header_def intro!: header_ok_init)

section \<open>Exports keep the invariant\<close>

text \<open>Whatever the library functions do: only headers and the scan cache change, and they stay right.\<close>

lemma header_ok_set_valid:
  assumes "header_ok flat" and "\<not> utf8_validate_bytes (fs_bytes flat) (fs_len flat)"
  shows "header_ok (str_flat_set_utf_valid_state STR_UTF_INVALID_SAME_LENGTH flat)"
  using assms by (auto simp: header_ok_def flat_ok_def meta_fields fs_len_def)

lemma export_length_slow_header:
  assumes "header_ok flat"
  shows "header_ok (snd (utf8_export_length_slow enc iter flat len))" "fs_bytes (snd (utf8_export_length_slow enc iter flat len)) = fs_bytes flat"
proof -
  obtain valid flat1 where v: "str_is_valid_utf8 flat = (valid, flat1)" by (cases "str_is_valid_utf8 flat")
  have ok: "flat_ok flat" using assms by (simp add: header_ok_def)
  note spec = str_is_valid_utf8_spec [OF ok, unfolded v fst_conv snd_conv]
  have "header_ok flat1" using header_ok_valid [OF assms] v by simp
  moreover have "\<not> valid \<Longrightarrow> \<not> utf8_validate_bytes (fs_bytes flat1) (fs_len flat1)" using spec by (simp add: fs_len_def)
  ultimately show "header_ok (snd (utf8_export_length_slow enc iter flat len))"
    "fs_bytes (snd (utf8_export_length_slow enc iter flat len)) = fs_bytes flat"
    using header_ok_set_valid spec(3) v by (auto simp: utf8_export_length_slow_def Let_def)
qed

lemma export_length_header:
  assumes "header_ok flat"
  shows "header_ok (snd (utf8_export_length enc iter flat len))" "fs_bytes (snd (utf8_export_length enc iter flat len)) = fs_bytes flat"
proof -
  obtain a flat1 where v: "str_is_ascii flat = (a, flat1)" by (cases "str_is_ascii flat")
  have ok: "flat_ok flat" using assms by (simp add: header_ok_def)
  have 1: "header_ok flat1" "fs_bytes flat1 = fs_bytes flat"
    using header_ok_ascii [OF assms] str_is_ascii_spec(3) [OF ok] v by simp_all
  show "header_ok (snd (utf8_export_length enc iter flat len))" "fs_bytes (snd (utf8_export_length enc iter flat len)) = fs_bytes flat"
    using assms 1 v export_length_slow_header [OF assms] export_length_slow_header [OF 1(1)]
    by (simp_all add: utf8_export_length_def Let_def)
qed

lemma text_inv_header:
  assumes "text_inv live st" and "header_ok flat" and "fs_bytes flat = text_bytes st str"
  shows "text_inv live (st\<lparr>ts_heap := (ts_heap st)(str := flat)\<rparr>)"
proof -
  let ?st = "st\<lparr>ts_heap := (ts_heap st)(str := flat)\<rparr>"
  have same: "same_texts st ?st" using assms(3) by (simp add: same_texts_def)
  show ?thesis
    using assms(1,2) same_texts_text_of [OF same] same_texts_entry [OF same]
    by (simp add: text_inv_def scan_ok_def index_ok_def)
qed

lemma export_into_inv:
  assumes "text_inv live st"
  shows "text_inv live (snd (utf8_export_into enc iter str len n st))"
proof -
  obtain valid st1 where v: "str_is_valid_utf8_at str st = (valid, st1)" by (cases "str_is_valid_utf8_at str st")
  note inv = str_is_valid_utf8_at_inv(1) [OF assms v]
  have "text_inv live (snd (utf16_strlen str s k st1))" for s k
    using utf16_strlen_ok(1) [OF inv prod.collapse [symmetric]] .
  then show ?thesis using assms inv v by (auto simp: utf8_export_into_def Let_def case_prod_beta)
qed

section \<open>Any order of lookups, exports, allocations and sweeps\<close>

text \<open>
  A lookup or an export works on a live string, a new string takes an address that is not live, and
  a sweep frees any of the live strings and moves the epoch. The epoch is a 64-bit counter that
  skips 0 when it wraps; the step relation has fewer sweeps than that. An export may use any
  library functions \<open>enc\<close> and \<open>iter\<close>.
\<close>

definition bump_sweep_epoch :: "text_state \<Rightarrow> text_state" where
  "bump_sweep_epoch st =
     (let epoch = (ts_epoch st + 1) mod 2 ^ 64 in st\<lparr>ts_epoch := (if epoch = 0 then 1 else epoch)\<rparr>)"

definition export_length_at ::
  "(u32 \<Rightarrow> bytes) \<Rightarrow> (bytes \<Rightarrow> int \<times> int) \<Rightarrow> nat \<Rightarrow> text_state \<Rightarrow> nat \<times> text_state" where
  "export_length_at enc iter str st =
     (let (n, flat) = utf8_export_length enc iter (ts_heap st str) (fs_len (ts_heap st str))
      in (n, st\<lparr>ts_heap := (ts_heap st)(str := flat)\<rparr>))"

definition store_string :: "nat \<Rightarrow> ant_flat_string \<Rightarrow> text_state \<Rightarrow> text_state" where
  "store_string str flat st = st\<lparr>ts_heap := (ts_heap st)(str := flat)\<rparr>"

inductive text_step :: "text_state \<times> nat set \<Rightarrow> text_state \<times> nat set \<Rightarrow> bool" where
  code_unit: "str \<in> live \<Longrightarrow> text_step (st, live) (snd (unit_at whole str i st), live)"
| offset: "str \<in> live \<Longrightarrow> text_step (st, live) (snd (offset_at str i st), live)"
| floor: "str \<in> live \<Longrightarrow> text_step (st, live) (snd (floor_at str i st), live)"
| to_unit: "str \<in> live \<Longrightarrow> text_step (st, live) (snd (byte_to_unit str off st), live)"
| range: "str \<in> live \<Longrightarrow> text_step (st, live) (snd (range_at str (a, b) st), live)"
| len: "str \<in> live \<Longrightarrow> text_step (st, live) (snd (flat_utf16_len str st), live)"
| export: "str \<in> live \<Longrightarrow> text_step (st, live) (snd (utf8_export_into enc iter str n k st), live)"
| export_len: "str \<in> live \<Longrightarrow> text_step (st, live) (snd (export_length_at enc iter str st), live)"
| alloc: "str \<notin> live \<Longrightarrow> js_mkstr (ts_mem st) given bs = Some flat \<Longrightarrow>
    text_step (st, live) (store_string str flat st, insert str live)"
| rope: "str \<notin> live \<Longrightarrow> counted_len_ok bs cached \<Longrightarrow> rope_flat_header (ts_mem st) bs cached = Some flat \<Longrightarrow>
    text_step (st, live) (store_string str flat st, insert str live)"
| builder: "str \<notin> live \<Longrightarrow> ascii_state_ok bs state \<Longrightarrow> counted_len_ok bs cached \<Longrightarrow>
    builder_flat_header (ts_mem st) state bs cached = Some flat \<Longrightarrow>
    text_step (st, live) (store_string str flat st, insert str live)"
| sweep: "live' \<subseteq> live \<Longrightarrow> ts_epoch st + 1 < 2 ^ 64 \<Longrightarrow> text_step (st, live) (bump_sweep_epoch st, live')"

definition empty_flat_string :: ant_flat_string where
  "empty_flat_string = str_flat_init_meta STR_ASCII_UNKNOWN \<lparr>fs_bytes = [], fs_meta = 0\<rparr>"

definition init_text_state :: "mem_env \<Rightarrow> text_state" where
  "init_text_state m =
     \<lparr>ts_heap = (\<lambda>_. empty_flat_string), ts_epoch = 1, ts_mem = m,
      ts_scan = empty_scan_cache 0,
      ts_index = \<lparr>ic_epoch = 0, ic_victim = 0, ic_mru = 0,
        ic_entries = replicate UTF16_INDEX_WAYS empty_entry\<rparr>\<rparr>"

lemma header_ok_empty: "header_ok empty_flat_string"
  using header_ok_init [of "\<lparr>fs_bytes = [], fs_meta = 0\<rparr>" STR_ASCII_UNKNOWN None]
  by (simp add: empty_flat_string_def set_counted_len_def ascii_state_ok_def counted_len_ok_def)

lemma text_inv_init: "text_inv {} (init_text_state m)"
  by (simp add: text_inv_def init_text_state_def header_ok_empty scan_ok_def index_ok_def
      empty_scan_cache_def UTF16_INDEX_WAYS_def)

lemma text_inv_store:
  assumes "text_inv live st" and "str \<notin> live" and "header_ok flat"
  shows "text_inv (insert str live) (store_string str flat st)"
proof -
  let ?st = "store_string str flat st"
  have other: "text_of ?st s cs = text_of st s cs" if "s \<in> live" for s cs
    using that assms(2) by (auto simp: text_of_def store_string_def)
  have "entry_ok (insert str live) ?st entry" if "entry_ok live st entry" for entry
    using that other by (simp add: entry_ok_def)
  then show ?thesis
    using assms(1,3) other by (auto simp: text_inv_def scan_ok_def index_ok_def store_string_def)
qed

lemma text_inv_sweep:
  "text_inv live st \<Longrightarrow> ts_epoch st + 1 < 2 ^ 64 \<Longrightarrow> text_inv live' (bump_sweep_epoch st)"
  by (simp add: text_inv_def bump_sweep_epoch_def scan_ok_def index_ok_def)

lemma export_length_at_inv: "text_inv live st \<Longrightarrow> text_inv live (snd (export_length_at enc iter str st))"
  using export_length_header [of "ts_heap st str" enc iter] text_inv_header [of live st]
  by (auto simp: export_length_at_def case_prod_beta text_inv_def)

lemma text_step_inv: "text_step (st, live) (st', live') \<Longrightarrow> text_inv live st \<Longrightarrow> text_inv live' st'"
proof (induction "(st, live)" "(st', live')" rule: text_step.induct)
  case (code_unit str whole i)
  then show ?case by (cases whole) (auto intro: code_unit_query.run_inv codepoint_query.run_inv)
next
  case (range str a b)
  then show ?case
    using range_at_ok [OF _ _ prod.collapse [symmetric], of live st str a b] by simp
next
  case (len str)
  then show ?case
    using flat_utf16_len_ok [OF _ prod.collapse [symmetric], of live st str] by simp
qed (auto intro: offset_query.run_inv floor_query.run_inv byte_query.run_inv export_into_inv export_length_at_inv
    text_inv_store text_inv_sweep header_ok_mkstr header_ok_rope header_ok_builder)

lemma text_reachable_inv:
  assumes "text_step\<^sup>*\<^sup>* (init_text_state m, {}) (st, live)"
  shows "text_inv live st"
proof -
  have "text_inv (snd s) (fst s)" if "text_step\<^sup>*\<^sup>* (init_text_state m, {}) s" for s
    using that
  proof (induction rule: rtranclp_induct)
    case (step s t)
    then show ?case using text_step_inv [of "fst s" "snd s" "fst t" "snd t"] by simp
  qed (simp add: text_inv_init)
  from this [OF assms] show ?thesis by simp
qed

end
