(* ===== verification/Text_Labels.thy ===== *)
theory Text_Labels
  imports Codec_Streams
begin

unbundle bit_operations_syntax

text \<open>
  Encoding labels: the table of the Encoding Standard for the encodings the decoders have, and how the
  two tables of the code (\<^verbatim>\<open>resolve_encoding\<close> of \<^verbatim>\<open>src/modules/textcodec.c\<close> and its copy in
  \<^verbatim>\<open>src/streams/codec.c\<close>) compare with it on every label.
\<close>

section \<open>The standard\<close>

definition standard_labels :: "(td_encoding \<times> string list) list" where
  "standard_labels =
     [(TD_ENC_UTF8,
        [''unicode-1-1-utf-8'', ''unicode11utf8'', ''unicode20utf8'', ''utf-8'', ''utf8'', ''x-unicode20utf8'']),
      (TD_ENC_ISO_8859_2,
        [''csisolatin2'', ''iso-8859-2'', ''iso-ir-101'', ''iso8859-2'', ''iso88592'', ''iso_8859-2'',
         ''iso_8859-2:1987'', ''l2'', ''latin2'']),
      (TD_ENC_WINDOWS_1252,
        [''ansi_x3.4-1968'', ''ascii'', ''cp1252'', ''cp819'', ''csisolatin1'', ''ibm819'', ''iso-8859-1'', ''iso-ir-100'',
         ''iso8859-1'', ''iso88591'', ''iso_8859-1'', ''iso_8859-1:1987'', ''l1'', ''latin1'', ''us-ascii'', ''windows-1252'',
         ''x-cp1252'']),
      (TD_ENC_UTF16BE, [''unicodefffe'', ''utf-16be'']),
      (TD_ENC_UTF16LE,
        [''csunicode'', ''iso-10646-ucs-2'', ''ucs-2'', ''unicode'', ''unicodefeff'', ''utf-16'', ''utf-16le''])]"

definition lowercase :: "bytes \<Rightarrow> bytes" where
  "lowercase s = map ascii_lower s"

definition standard_encoding :: "bytes \<Rightarrow> td_encoding option" where
  "standard_encoding s = map_option fst (find (\<lambda>(e, ls). lowercase s \<in> set (map ascii ls)) standard_labels)"

text \<open>Labels of the standard that the tables do not have, or have with a wrong length.\<close>

definition unknown_labels :: "string list" where
  "unknown_labels =
     [''x-unicode20utf8'', ''iso-10646-ucs-2'', ''csisolatin2'', ''iso-ir-101'', ''iso8859-2'', ''iso88592'', ''iso_8859-2'',
      ''iso_8859-2:1987'', ''l2'', ''latin2'']"

definition unknown_stream_labels :: "string list" where
  "unknown_stream_labels =
     unknown_labels @
     [''ansi_x3.4-1968'', ''cp1252'', ''cp819'', ''csisolatin1'', ''ibm819'', ''iso-8859-1'', ''iso-ir-100'', ''iso8859-1'',
      ''iso88591'', ''iso_8859-1'', ''iso_8859-1:1987'', ''l1'', ''latin1'', ''us-ascii'', ''x-cp1252'']"

section \<open>Comparing a label\<close>

lemma ascii_lower_0: "ascii_lower c = 0 \<longleftrightarrow> c = 0"
proof -
  have "ascii_lower c \<noteq> 0" if "65 \<le> c" "c \<le> 90"
  proof -
    have "unat c + unat (32 :: u8) < 2 ^ LENGTH(8)" using that by (simp add: word_le_nat_alt)
    then have "unat (c + 32) = unat c + 32" by (simp add: unat_add_lem [THEN iffD1])
    then show ?thesis using that by (auto simp: ascii_lower_def)
  qed
  then show ?thesis by (auto simp: ascii_lower_def)
qed

lemma strncasecmp_label:
  "0 \<notin> set s \<Longrightarrow> 0 \<notin> set l \<Longrightarrow> length l \<le> length s \<Longrightarrow>
    strncasecmp_eq s l (length s) \<longleftrightarrow> length s = length l \<and> map ascii_lower s = map ascii_lower l"
proof (induction s arbitrary: l)
  case (Cons c s)
  show ?case
  proof (cases l)
    case Nil
    then show ?thesis using Cons.prems(1) by (simp add: ascii_lower_0)
  next
    case (Cons d l')
    then show ?thesis using Cons.IH [of l'] Cons.prems by (auto simp: ascii_lower_0)
  qed
qed simp

text \<open>A table whose labels are in lower case, without zero bytes and not longer than their entry says.\<close>

definition table_ok :: "(string \<times> nat \<times> td_encoding) list \<Rightarrow> bool" where
  "table_ok tab \<longleftrightarrow>
     list_all (\<lambda>(l, n, e). length l \<le> n \<and> lowercase (ascii l) = ascii l \<and> 0 \<notin> set (ascii l)) tab"

definition table_encoding :: "(string \<times> nat \<times> td_encoding) list \<Rightarrow> bytes \<Rightarrow> td_encoding option" where
  "table_encoding tab t = map_option (snd \<circ> snd) (find (\<lambda>(l, n, e). n = length l \<and> t = ascii l) tab)"

lemma table_lookup:
  assumes "table_ok tab" and "0 \<notin> set s"
  shows "map_option (snd \<circ> snd) (find (\<lambda>(l, n, e). if length s = n then strncasecmp_eq s (ascii l) (length s) else False) tab)
    = table_encoding tab (lowercase s)"
proof -
  have len: "length (ascii l) = length l" for l by (simp add: ascii_def)
  have "(if length s = n then strncasecmp_eq s (ascii l) (length s) else False) \<longleftrightarrow> n = length l \<and> lowercase s = ascii l"
    if "(l, n, e) \<in> set tab" for l n e
  proof -
    have l: "length l \<le> n" "lowercase (ascii l) = ascii l" "0 \<notin> set (ascii l)"
      using assms(1) that by (auto simp: table_ok_def list_all_iff)
    have "lowercase s = ascii l \<Longrightarrow> length s = length l" by (metis len length_map lowercase_def)
    then show ?thesis
      using strncasecmp_label [OF assms(2) l(3)] l(1,2) len [of l] by (auto simp: lowercase_def)
  qed
  then have "find (\<lambda>(l, n, e). if length s = n then strncasecmp_eq s (ascii l) (length s) else False) tab
      = find (\<lambda>(l, n, e). n = length l \<and> lowercase s = ascii l) tab"
    by (intro find_cong) auto
  then show ?thesis by (simp add: table_encoding_def)
qed

section \<open>The tables agree with the standard\<close>

definition all_labels :: "string list" where
  "all_labels = concat (map snd standard_labels)"

lemma ascii_eq_iff: "ascii x = ascii y \<longleftrightarrow> x = y"
proof -
  have "word_of_nat (of_char c) = (word_of_nat (of_char d) :: u8) \<Longrightarrow> c = d" for c d :: char
  proof -
    assume eq: "word_of_nat (of_char c) = (word_of_nat (of_char d) :: u8)"
    have "unat (word_of_nat (of_char x) :: u8) = of_char x" for x :: char
      by (simp add: unat_of_nat take_bit_eq_mod)
    then show "c = d" using arg_cong [OF eq, of unat] by simp
  qed
  then have "inj (\<lambda>c :: char. word_of_nat (of_char c) :: u8)" by (rule injI)
  then show ?thesis unfolding ascii_def by (auto dest: map_injective)
qed

lemma table_standard:
  assumes "list_all (\<lambda>l. map_option (snd \<circ> snd) (find (\<lambda>(l', n, e). n = length l' \<and> l = l') tab) =
      (if l \<in> set unknown then None else map_option fst (find (\<lambda>(e, ls). l \<in> set ls) standard_labels))) all_labels"
    and "set (map fst tab) \<subseteq> set all_labels"
  shows "table_encoding tab (lowercase s) = (if lowercase s \<in> ascii ` set unknown then None else standard_encoding s)"
proof (cases "\<exists>l \<in> set all_labels. lowercase s = ascii l")
  case True
  then obtain l where l: "l \<in> set all_labels" "lowercase s = ascii l" by blast
  have "ascii l \<in> ascii ` set ls \<longleftrightarrow> l \<in> set ls" for ls by (auto simp: ascii_eq_iff)
  then show ?thesis using assms(1) l by (simp add: list_all_iff standard_encoding_def table_encoding_def ascii_eq_iff)
next
  case False
  then have "find (\<lambda>(l, n, e). n = length l \<and> lowercase s = ascii l) tab = None"
    using assms(2) by (force simp: find_None_iff)
  moreover have "find (\<lambda>(e, ls). lowercase s \<in> set (map ascii ls)) standard_labels = None"
    using False by (force simp: find_None_iff all_labels_def)
  ultimately show ?thesis by (simp add: table_encoding_def standard_encoding_def)
qed

lemma resolve_encoding_standard:
  assumes "0 \<notin> set s"
  shows "resolve_encoding s (length s) = (if lowercase s \<in> ascii ` set unknown_labels then None else standard_encoding s)"
proof -
  have "table_ok encoding_labels" by code_simp
  moreover have "list_all (\<lambda>l. map_option (snd \<circ> snd) (find (\<lambda>(l', n, e). n = length l' \<and> l = l') encoding_labels) =
      (if l \<in> set unknown_labels then None else map_option fst (find (\<lambda>(e, ls). l \<in> set ls) standard_labels))) all_labels"
    by code_simp
  moreover have "set (map fst encoding_labels) \<subseteq> set all_labels" by code_simp
  ultimately show ?thesis
    using table_lookup [OF _ assms, of encoding_labels] table_standard by (simp add: resolve_encoding_def)
qed

lemma tds_resolve_encoding_standard:
  assumes "0 \<notin> set s"
  shows "tds_resolve_encoding s (length s) = (if lowercase s \<in> ascii ` set unknown_stream_labels then None else standard_encoding s)"
proof -
  have "table_ok tds_labels" by code_simp
  moreover have "list_all (\<lambda>l. map_option (snd \<circ> snd) (find (\<lambda>(l', n, e). n = length l' \<and> l = l') tds_labels) =
      (if l \<in> set unknown_stream_labels then None else map_option fst (find (\<lambda>(e, ls). l \<in> set ls) standard_labels))) all_labels"
    by code_simp
  moreover have "set (map fst tds_labels) \<subseteq> set all_labels" by code_simp
  ultimately show ?thesis
    using table_lookup [OF _ assms, of tds_labels] table_standard by (simp add: tds_resolve_encoding_def)
qed

end
