(* ===== verification/Text_Spec.thy ===== *)
theory Text_Spec
  imports Json_Quote Text_States Text_Labels
begin

unbundle bit_operations_syntax

text \<open>
  What the text components promise. A string is a list of code points \<open>cs\<close>; its bytes are
  \<open>wtf8 cs\<close>, its code units \<open>utf16 cs\<close> and its scalar values \<open>usv cs\<close>.
\<close>

section \<open>Lookups by code unit\<close>

text \<open>
  C14: In every state the runtime can reach by lookups, exports, allocations and sweeps in any order, the
  scan cache, the checkpoint tables and the cached header fields are invisible: each lookup on a
  live string gives the answer that the text alone determines (the code unit or code point at an
  index, the byte offset of an index, the index of a byte offset, the length).
\<close>

theorem text_lookups_transparent:
  assumes "text_step\<^sup>*\<^sup>* (init_text_state m, {}) (st, live)" and "str \<in> live" and "text_of st str cs"
    and "len = length (wtf8 cs)"
  shows "fst (utf16_code_unit_at str len i st)
      = (if i < length (utf16 cs) then word_of_nat (utf16 cs ! i) else 0xFFFFFFFF) \<and>
    fst (utf16_codepoint_at str len i st) = unit_spec True cs i \<and>
    fst (utf16_index_to_byte_offset str len i st) = offset_spec cs i \<and>
    fst (utf16_index_to_byte_offset_floor str len i st) = bpos cs (last_pos cs i) \<and>
    fst (byte_offset_to_utf16 str (min off len) st) = units_before cs off \<and>
    (length (utf16 cs) < 2 ^ 56 - 1 \<longrightarrow> fst (flat_utf16_len str st) = length (utf16 cs))"
proof -
  note inv = text_reachable_inv [OF assms(1)]
  have len: "fs_len (ts_heap st str) = len" using assms(3,4) by (simp add: fs_len_text text_of_def)
  note answers = code_unit_query.run_answer [OF inv assms(2,3), of i, unfolded unit_at_def len unit_spec_units]
    codepoint_query.run_answer [OF inv assms(2,3), of i, unfolded unit_at_def len]
    offset_query.run_answer [OF inv assms(2,3), of i, unfolded offset_at_def len]
    floor_query.run_answer [OF inv assms(2,3), of i, unfolded floor_at_def len]
    byte_query.run_answer [OF inv assms(2,3), of off, unfolded byte_to_unit_def len]
  show ?thesis
    using answers flat_utf16_len_ok [OF inv, of str] assms(3) by (cases "flat_utf16_len str st") simp
qed

definition new_string :: "bytes \<Rightarrow> ant_flat_string" where
  "new_string bs = str_flat_init_meta (str_detect_ascii_bytes bs (length bs)) \<lparr>fs_bytes = bs, fs_meta = 0\<rparr>"

lemma new_string_made: "js_mkstr full_mem True bs = Some (new_string bs)"
  by (simp add: js_mkstr_def new_string_def full_mem_def)

definition two_char_state :: text_state where
  "two_char_state = store_string 7 (new_string (wtf8 [0x61, 0x1F600])) (init_text_state full_mem)"

lemma two_char_reached: "text_step\<^sup>*\<^sup>* (init_text_state full_mem, {}) (two_char_state, {7})"
  using text_step.alloc [of 7 "{}" "init_text_state full_mem" True "wtf8 [0x61, 0x1F600]", OF _]
  by (simp add: two_char_state_def init_text_state_def new_string_made r_into_rtranclp)

lemma two_char_text: "text_of two_char_state 7 [0x61, 0x1F600]"
  by (simp add: text_of_def two_char_state_def store_string_def code_points_def code_point_def new_string_def)

theorem text_lookups_transparent_witness:
  "fst (utf16_code_unit_at 7 5 2 two_char_state) = 0xDE00 \<and> fst (utf16_codepoint_at 7 5 1 two_char_state) = 0x1F600"
proof -
  have "5 = length (wtf8 [0x61, 0x1F600])" by (simp add: wtf8_char_def)
  note at = text_lookups_transparent [OF two_char_reached _ two_char_text this]
  show ?thesis
    using at [of 2] at [of 1] by (simp add: utf16_char_def)
qed

text \<open>
  C15: Cutting a string at two code unit indices gives two byte offsets at character boundaries
  and up to two half characters, and together they are exactly the code units of the range.
\<close>

theorem text_range_units:
  assumes "text_step\<^sup>*\<^sup>* (init_text_state m, {}) (st, live)" and "str \<in> live" and "text_of st str cs"
    and "utf16_range_to_byte_range str (length (wtf8 cs)) a b st = ((splits, p, q), st')"
  shows "\<exists>i j. i \<le> j \<and> j \<le> length cs \<and> p = bpos cs i \<and> q = bpos cs j \<and>
    take (b - a) (drop a (utf16 cs)) =
      half_list (prefix_surrogate splits) @ utf16 (drop i (take j cs)) @ half_list (suffix_surrogate splits)"
proof -
  have "fs_len (ts_heap st str) = length (wtf8 cs)" using assms(3) by (simp add: fs_len_text text_of_def)
  then have "range_at str (a, b) st = ((splits, p, q), st')" using assms(4) by (simp add: range_at_def)
  from range_at_ok [OF text_reachable_inv [OF assms(1)] assms(2) this] assms(3) show ?thesis
    by (auto simp: range_ok_def)
qed

theorem text_range_units_witness:
  "\<exists>splits p q st'. utf16_range_to_byte_range 7 5 0 2 two_char_state = ((splits, p, q), st') \<and>
    (\<exists>i j. p = bpos [0x61, 0x1F600] i \<and> q = bpos [0x61, 0x1F600] j \<and>
      [0x61, 0xD83D] = half_list (prefix_surrogate splits) @ utf16 (drop i (take j [0x61, 0x1F600]))
        @ half_list (suffix_surrogate splits))"
proof -
  obtain splits p q st' where r: "utf16_range_to_byte_range 7 5 0 2 two_char_state = ((splits, p, q), st')"
    by (cases "utf16_range_to_byte_range 7 5 0 2 two_char_state") auto
  have "length (wtf8 [0x61, 0x1F600]) = 5" by (simp add: wtf8_char_def)
  from text_range_units [OF two_char_reached _ two_char_text, unfolded this, OF _ r] r
  show ?thesis by (fastforce simp: utf16_char_def)
qed

text \<open>
  C16: The checkpoint table that an index build fills never has more entries than it allocated,
  whatever the bytes of the string are.
\<close>

theorem utf16_index_fits:
  assumes "utf16_index_build m s byte_len = Some points"
  shows "length points \<le> utf16_index_max_points byte_len \<and> alloc_ok m (utf16_index_max_points byte_len * 8)"
  using assms utf16_index_points_bound [of "[\<lparr>pt_byte_off = 0, pt_utf16_pos = 0\<rparr>]" 0 0 byte_len s]
  by (auto simp: utf16_index_build_def split: if_splits)

theorem utf16_index_fits_witness:
  "\<exists>points. utf16_index_build full_mem (replicate 300 0xF4) 300 = Some points \<and> length points \<le> 6"
proof -
  obtain points where p: "utf16_index_build full_mem (replicate 300 0xF4) 300 = Some points"
    by (simp add: utf16_index_build_def)
  from utf16_index_fits [OF this] p show ?thesis
    by (simp add: utf16_index_max_points_def UTF16_INDEX_CHUNK_def)
qed

section \<open>Validity and character sets\<close>

text \<open>The text of a decoder after the byte order mark it drops.\<close>

definition without_bom :: "bool \<Rightarrow> nat list \<Rightarrow> nat list" where
  "without_bom keep cs = (if \<not> keep \<and> cs \<noteq> [] \<and> hd cs = 0xFEFF then tl cs else cs)"

lemma whatwg_run_scalars:
  assumes "utf8proc_encodes enc" and "\<forall>c \<in> set cs. scalar_value c"
  shows "fst (whatwg_run enc fatal stream Dispatch (wtf8 cs) dec []) =
    Some (wtf8 (without_bom (ud_bom_seen dec \<or> ud_ignore_bom dec) cs))"
proof (cases cs)
  case (Cons c ds)
  then have c: "scalar_value c" "\<forall>c \<in> set ds. scalar_value c" using assms(2) by simp_all
  show ?thesis
    using whatwg_run_char [OF assms(1) c(1), of fatal stream "wtf8 ds" dec "[]"]
      whatwg_run_valid [OF assms(1) c(2), of fatal stream "[]" dec]
    by (auto simp: Cons without_bom_def)
qed (simp add: without_bom_def)

lemma td_decode_scalars:
  assumes "utf8proc_encodes enc" and "\<forall>c \<in> set cs. scalar_value c" and "ample_memory m"
    and "td_encoding st = TD_ENC_UTF8" and "td_pending st = []"
  shows "fst (td_decode m enc st (wtf8 cs) stream) =
    TdText (wtf8 (without_bom (td_bom_seen st \<or> td_ignore_bom st) cs))"
  using td_decode_utf8 [OF assms(3,4), of enc "wtf8 cs" stream]
    whatwg_run_scalars [OF assms(1,2), of "td_fatal st" stream "td_dec st"] assms(5) by simp

text \<open>
  C17: The three places that decide whether bytes are well-formed UTF-8 agree with the definition
  (the encoding of a sequence of Unicode scalar values): the validator, the answer cached in a
  string's header, and the TextDecoder in fatal mode, which fails on exactly the other inputs.
\<close>

theorem validity_checks_agree:
  assumes "utf8proc_encodes enc" and "flat_ok flat" and "ample_memory m"
    and "td_encoding st = TD_ENC_UTF8" and "td_fatal st" and "td_pending st = []" and "fs_bytes flat = bs"
  shows "(utf8_validate_bytes bs (length bs) \<longleftrightarrow> (\<exists>cs. (\<forall>c \<in> set cs. scalar_value c) \<and> bs = wtf8 cs)) \<and>
    fst (str_is_valid_utf8 flat) = utf8_validate_bytes bs (length bs) \<and> flat_ok (snd (str_is_valid_utf8 flat)) \<and>
    fst (td_decode m enc st bs False) =
      (if utf8_validate_bytes bs (length bs) then fst (td_decode m enc (st\<lparr>td_fatal := False\<rparr>) bs False)
       else TdInvalidData)"
proof -
  have "fst (td_decode m enc st bs False) =
      (if utf8_validate_bytes bs (length bs) then fst (td_decode m enc (st\<lparr>td_fatal := False\<rparr>) bs False)
       else TdInvalidData)"
  proof (cases "utf8_validate_bytes bs (length bs)")
    case True
    then obtain cs where "\<forall>c \<in> set cs. scalar_value c" "bs = wtf8 cs" using utf8_validate_bytes_iff [of bs] by blast
    with True show ?thesis
      using td_decode_scalars [OF assms(1) _ assms(3), of cs st False]
        td_decode_scalars [OF assms(1) _ assms(3), of cs "st\<lparr>td_fatal := False\<rparr>" False] assms(4,6) by simp
  next
    case False
    have "fst (whatwg_run enc True False Dispatch bs (td_dec st) []) = None"
    proof (rule ccontr)
      assume "fst (whatwg_run enc True False Dispatch bs (td_dec st) []) \<noteq> None"
      then obtain res dec' where "whatwg_run enc True False Dispatch bs (td_dec st) [] = (Some res, dec')"
        by (cases "whatwg_run enc True False Dispatch bs (td_dec st) []") auto
      from whatwg_run_fatal [OF _ this] show False
        using False by (simp add: completes_def valid_utf8_validate)
    qed
    then show ?thesis using td_decode_utf8 [OF assms(3,4), of enc bs False] assms(5,6) False by simp
  qed
  then show ?thesis
    using utf8_validate_bytes_iff [of bs] str_is_valid_utf8_spec [OF assms(2)] assms(7) by (simp add: fs_len_def)
qed

definition utf8_decoder :: td_state where
  "utf8_decoder = \<lparr>td_encoding = TD_ENC_UTF8, td_pending = [], td_fatal = True, td_ignore_bom = False, td_bom_seen = False\<rparr>"

theorem validity_checks_agree_witness:
  "fst (td_decode full_mem encode_char_ref utf8_decoder [0xED, 0xA0, 0x80] False) = TdInvalidData"
proof -
  let ?bs = "[0xED, 0xA0, 0x80] :: bytes"
  have flat: "flat_ok (new_string ?bs)" using header_ok_mkstr [OF new_string_made] by (simp add: header_ok_def)
  have dec: "td_encoding utf8_decoder = TD_ENC_UTF8" "td_fatal utf8_decoder" "td_pending utf8_decoder = []"
    by (simp_all add: utf8_decoder_def)
  have bytes: "fs_bytes (new_string ?bs) = ?bs" by (simp add: new_string_def)
  have "\<not> utf8_validate_bytes ?bs (length ?bs)" by code_simp
  moreover have "fst (td_decode full_mem encode_char_ref utf8_decoder ?bs False) =
      (if utf8_validate_bytes ?bs (length ?bs)
       then fst (td_decode full_mem encode_char_ref (utf8_decoder\<lparr>td_fatal := False\<rparr>) ?bs False)
       else TdInvalidData)"
    using validity_checks_agree [OF encode_char_ref_ok flat ample_full_mem dec bytes] by blast
  ultimately show ?thesis by (simp only: if_False)
qed

text \<open>
  C18: Latin-1 bytes converted to UTF-8 and back are unchanged; the UTF-8 is that of the code points
  0 to 255, fits the buffer of twice the size, and the way back accepts nothing else.
\<close>

theorem latin1_roundtrip:
  assumes "latin1_to_utf8 m src (length src) = Some u" and "ample_memory m"
  shows "u = wtf8 (map unat src) \<and> length u \<le> 2 * length src \<and>
    utf8_to_latin1 m u (length u) = (Some src, True) \<and>
    (\<forall>bs r f. utf8_to_latin1 m bs (length bs) = (Some r, f) \<longrightarrow> bs = wtf8 (map unat r))"
proof -
  have u: "u = wtf8 (map unat src)"
    using assms(1) by (auto simp: latin1_to_utf8_def latin1_to_utf8_loop_wtf8 split: if_splits)
  have sound: "bs = wtf8 (map unat r)" if "utf8_to_latin1 m bs (length bs) = (Some r, f)" for bs r f
  proof -
    have "utf8_to_latin1_from bs (length bs) 0 [] = (Some r, f)"
      using that assms(2) by (simp add: utf8_to_latin1_def)
    from utf8_to_latin1_from_sound [OF this] show ?thesis by simp
  qed
  have "utf8_to_latin1 m u (length u) = (Some src, True)"
    using utf8_to_latin1_from_wtf8 [of "[]" src "[]"] assms(2) by (simp add: utf8_to_latin1_def u)
  then show ?thesis using u latin1_wtf8_length [of src] sound by blast
qed

theorem latin1_roundtrip_witness:
  "latin1_to_utf8 full_mem [0x63, 0xE9] (length [0x63, 0xE9 :: u8]) = Some [0x63, 0xC3, 0xA9] \<and>
    utf8_to_latin1 full_mem [0x63, 0xC3, 0xA9] (length [0x63, 0xC3, 0xA9 :: u8]) = (Some [0x63, 0xE9], True)"
proof -
  have to: "latin1_to_utf8 full_mem [0x63, 0xE9] (length [0x63, 0xE9 :: u8]) = Some [0x63, 0xC3, 0xA9]"
    by (simp add: latin1_to_utf8_def latin1_to_utf8_loop_wtf8 size_max_def wtf8_char_def byte_def)
  from latin1_roundtrip [OF to ample_full_mem] to show ?thesis by blast
qed

section \<open>Decoding\<close>

lemma td_decode_success:
  "td_decode m enc st input stream = (TdText t, st') \<Longrightarrow> td_decode full_mem enc st input stream = (TdText t, st')"
  using ample_full_mem [THEN td_string_ample] by (auto simp: td_decode_def Let_def dest!: td_string_text split: if_splits prod.splits option.splits)

lemma single_byte_tables:
  "\<forall>c \<in> set windows_1252_specials. c < 0xD800" "\<forall>c \<in> set iso_8859_2_upper. c < 0xD800"
  by (simp_all add: windows_1252_specials_def iso_8859_2_upper_def)

lemma single_byte_scalar: "decode_windows_1252_byte b < 0xD800" "decode_iso_8859_2_byte b < 0xD800"
proof -
  have len: "length windows_1252_specials = 32" "length iso_8859_2_upper = 96"
    by (simp_all add: windows_1252_specials_def iso_8859_2_upper_def)
  note b = unat_u8_bound [of b]
  have "windows_1252_specials ! (unat b - 0x80) < 0xD800" if "b < 0xA0"
  proof -
    have "unat b - 0x80 < length windows_1252_specials" using that len by (simp add: word_less_nat_alt)
    then show ?thesis using single_byte_tables(1) nth_mem by blast
  qed
  then show "decode_windows_1252_byte b < 0xD800" using b by (simp add: decode_windows_1252_byte_def)
  have "unat b - 0xA0 < length iso_8859_2_upper" using b len by simp
  then show "decode_iso_8859_2_byte b < 0xD800"
    using single_byte_tables(2) nth_mem b by (fastforce simp: decode_iso_8859_2_byte_def)
qed

lemma decode_single_byte_ok:
  assumes "utf8proc_encodes enc"
  shows "valid_utf8 (decode_single_byte enc e src) \<and> length (decode_single_byte enc e src) \<le> 3 * length src"
proof (induction src)
  case (Cons b src)
  define c where "c = (if e = TD_ENC_WINDOWS_1252 then decode_windows_1252_byte b else decode_iso_8859_2_byte b)"
  have "c < 0xD800" using single_byte_scalar [of b] by (simp add: c_def)
  then have "scalar_value c" "length (wtf8_char c) \<le> 3"
    by (simp_all add: scalar_value_def code_point_def surrogate_def wtf8_char_length)
  moreover have "decode_single_byte enc e (b # src) = enc (word_of_nat c) @ decode_single_byte enc e src"
    by (simp add: decode_single_byte_def c_def)
  ultimately show ?case
    using Cons utf8proc_encodesD [OF assms, of c] valid_utf8_char [of c] valid_utf8_append by auto
qed (simp add: decode_single_byte_def)

lemma after_bom_length: "after_bom be st src = (rest, seen) \<Longrightarrow> length rest \<le> length src"
  by (auto simp: after_bom_def split: if_splits list.splits)

text \<open>
  C19: Whatever bytes it is given and in whatever state, a decoder call that succeeds writes
  well-formed UTF-8 into the buffer of three bytes per input byte plus one that it allocated, and
  keeps at most three pending bytes, which fit the four of its state.
\<close>

theorem decoder_output_fits:
  assumes "utf8proc_encodes enc" and "td_decode m enc st input stream = (TdText t, st')"
  shows "valid_utf8 t \<and> length t \<le> 3 * (length (td_pending st) + length input) \<and>
    (length (td_pending st) \<le> 3 \<longrightarrow> length (td_pending st') \<le> 3)"
proof -
  let ?src = "td_pending st @ input"
  have run: "td_decode full_mem enc st input stream = (TdText t, st')" using td_decode_success [OF assms(2)] .
  consider (empty) "?src = []" | (utf8) "?src \<noteq> []" "td_encoding st = TD_ENC_UTF8"
    | (utf16) "?src \<noteq> []" "td_encoding st \<in> {TD_ENC_UTF16LE, TD_ENC_UTF16BE}"
    | (single) "?src \<noteq> []" "td_encoding st \<in> {TD_ENC_WINDOWS_1252, TD_ENC_ISO_8859_2}"
    by (cases "td_encoding st") auto
  then show ?thesis
  proof cases
    case empty
    then show ?thesis using run by (auto simp: td_decode_empty split: if_splits)
  next
    case utf8
    obtain n dec where r: "whatwg_run enc (td_fatal st) stream Dispatch ?src (td_dec st) [] = (n, dec)"
      by (cases "whatwg_run enc (td_fatal st) stream Dispatch ?src (td_dec st) []")
    then show ?thesis
      using td_decode_utf8_run [OF ample_full_mem utf8(2,1) r] run
        whatwg_run_text [OF assms(1), where pos = Dispatch and out = "[]" and src = ?src and dec = "td_dec st"
          and fatal = "td_fatal st" and stream = stream]
      by (auto split: option.splits)
  next
    case utf16
    obtain rest seen where b: "after_bom (td_encoding st = TD_ENC_UTF16BE) st ?src = (rest, seen)"
      by (cases "after_bom (td_encoding st = TD_ENC_UTF16BE) st ?src")
    then have "length rest \<le> length ?src" by (rule after_bom_length)
    then show ?thesis
      using td_decode_utf16 [OF ample_full_mem utf16(2) refl utf16(1) b, of enc stream] run
        utf16_decode_loop_ok [OF assms(1), where out = "[]" and src = rest and stream = stream
          and fatal = "td_fatal st" and be = "td_encoding st = TD_ENC_UTF16BE"]
      by (auto split: option.splits)
  next
    case single
    then show ?thesis
      using td_decode_single(1) [OF ample_full_mem single(2), of enc input stream]
        td_decode_single(2) [OF ample_full_mem single(2,1), of enc stream] run
        decode_single_byte_ok [OF assms(1), of "td_encoding st" ?src] by simp
  qed
qed

definition lax_decoder :: "td_encoding \<Rightarrow> td_state" where
  "lax_decoder e = \<lparr>td_encoding = e, td_pending = [], td_fatal = False, td_ignore_bom = False, td_bom_seen = False\<rparr>"

theorem decoder_output_fits_witness:
  "\<exists>t st'. td_decode full_mem encode_char_ref (lax_decoder TD_ENC_UTF8) [0x61, 0xFF, 0xE2] True = (TdText t, st') \<and>
    valid_utf8 t \<and> length t \<le> 9 \<and> length (td_pending st') \<le> 3"
proof -
  obtain t st' where run: "td_decode full_mem encode_char_ref (lax_decoder TD_ENC_UTF8) [0x61, 0xFF, 0xE2] True = (TdText t, st')"
  proof -
    have "fst (td_decode full_mem encode_char_ref (lax_decoder TD_ENC_UTF8) [0x61, 0xFF, 0xE2] True)
        = TdText [0x61, 0xEF, 0xBF, 0xBD]"
      by code_simp
    then show ?thesis
      using that by (cases "td_decode full_mem encode_char_ref (lax_decoder TD_ENC_UTF8) [0x61, 0xFF, 0xE2] True") simp
  qed
  from decoder_output_fits [OF encode_char_ref_ok run] run show ?thesis by (simp add: lax_decoder_def)
qed

lemma after_bom_text:
  assumes "\<forall>c \<in> set cs. scalar_value c"
  shows "fst (after_bom be st (utf16_bytes be (utf16 cs))) =
    utf16_bytes be (utf16 (without_bom (td_bom_seen st \<or> td_ignore_bom st) cs))"
proof (cases cs)
  case (Cons c ds)
  have c: "scalar_value c" using assms Cons by simp
  obtain u us where u: "utf16_char c = u # us" "u < 65536" "u = 0xFEFF \<longleftrightarrow> c = 0xFEFF" "c = 0xFEFF \<longrightarrow> us = []"
  proof (cases "c < 0x10000")
    case True
    then show ?thesis using that [of c "[]"] by (simp add: utf16_char_def)
  next
    case False
    let ?h = "0xD800 + (c - 0x10000) div 0x400"
    have "c - 0x10000 < 0x100000" using c False by (auto simp: scalar_value_def code_point_def)
    then have "(c - 0x10000) div 0x400 < 0x400" by (simp add: div_less_iff_less_mult)
    then show ?thesis using that [of ?h] False by (simp add: utf16_char_def)
  qed
  obtain p0 p1 where p: "u16_bytes be u = [p0, p1]" "unat (u16_read be p0 p1) = u"
    using u16_read_bytes [OF u(2)] by blast
  have "u16_read be p0 p1 = 0xFEFF \<longleftrightarrow> c = 0xFEFF" using p(2) u(3) by (auto simp: word_unat_eq_iff)
  then show ?thesis
    using p(1) u by (auto simp: Cons after_bom_def without_bom_def)
qed (simp add: after_bom_def without_bom_def)

text \<open>
  C20: Decoding the UTF-8 or UTF-16 bytes of a well-formed text gives that text back, without the
  byte order mark at its start unless the decoder was told to keep it or has passed it already.
\<close>

theorem decoder_roundtrip:
  assumes "utf8proc_encodes enc" and "\<forall>c \<in> set cs. scalar_value c" and "ample_memory m" and "td_pending st = []"
    and "bytes = (if td_encoding st = TD_ENC_UTF8 then wtf8 cs else utf16_bytes (td_encoding st = TD_ENC_UTF16BE) (utf16 cs))"
    and "td_encoding st \<in> {TD_ENC_UTF8, TD_ENC_UTF16LE, TD_ENC_UTF16BE}"
  shows "fst (td_decode m enc st bytes stream) =
    TdText (wtf8 (without_bom (td_bom_seen st \<or> td_ignore_bom st) cs))"
proof (cases "td_encoding st = TD_ENC_UTF8")
  case True
  then show ?thesis using td_decode_scalars [OF assms(1-3) True assms(4)] assms(5) by simp
next
  case False
  define be where "be \<longleftrightarrow> td_encoding st = TD_ENC_UTF16BE"
  have e: "td_encoding st \<in> {TD_ENC_UTF16LE, TD_ENC_UTF16BE}" using False assms(6) by auto
  have bytes: "bytes = utf16_bytes be (utf16 cs)" using False assms(5) by (simp add: be_def)
  let ?ds = "without_bom (td_bom_seen st \<or> td_ignore_bom st) cs"
  have ds: "\<forall>c \<in> set ?ds. scalar_value c" using assms(2) by (cases cs) (auto simp: without_bom_def)
  show ?thesis
  proof (cases "bytes = []")
    case True
    then have "cs = []" using bytes by (cases cs; cases "utf16_char (hd cs)") (auto simp: u16_bytes_def split: if_splits)
    then show ?thesis using True assms(3,4) by (simp add: td_decode_empty without_bom_def)
  next
    case False
    obtain seen where b: "after_bom be st (td_pending st @ bytes) = (utf16_bytes be (utf16 ?ds), seen)"
      using after_bom_text [OF assms(2), of be st] bytes assms(4) by (cases "after_bom be st bytes") auto
    show ?thesis
      using td_decode_utf16 [OF assms(3) e be_def _ b, of enc stream] False
        utf16_decode_loop_text [OF assms(1) ds, of "td_fatal st" be stream "[]" "[]"] by simp
  qed
qed

theorem decoder_roundtrip_witness:
  "fst (td_decode full_mem encode_char_ref (lax_decoder TD_ENC_UTF16LE) [0xFF, 0xFE, 0x3D, 0xD8, 0x00, 0xDE] False)
    = TdText [0xF0, 0x9F, 0x98, 0x80]"
proof -
  have "\<forall>c \<in> set [0xFEFF, 0x1F600]. scalar_value c" by (simp add: scalar_value_def code_point_def surrogate_def)
  moreover have "[0xFF, 0xFE, 0x3D, 0xD8, 0x00, 0xDE] = (if td_encoding (lax_decoder TD_ENC_UTF16LE) = TD_ENC_UTF8
      then wtf8 [0xFEFF, 0x1F600]
      else utf16_bytes (td_encoding (lax_decoder TD_ENC_UTF16LE) = TD_ENC_UTF16BE) (utf16 [0xFEFF, 0x1F600]))"
    by (simp add: lax_decoder_def utf16_char_def u16_bytes_def byte_def)
  ultimately have "fst (td_decode full_mem encode_char_ref (lax_decoder TD_ENC_UTF16LE) [0xFF, 0xFE, 0x3D, 0xD8, 0x00, 0xDE] False)
    = TdText (wtf8 (without_bom False [0xFEFF, 0x1F600]))"
    using decoder_roundtrip [OF encode_char_ref_ok _ ample_full_mem, of "[0xFEFF, 0x1F600]" "lax_decoder TD_ENC_UTF16LE"]
    by (simp add: lax_decoder_def)
  then show ?thesis by (simp add: without_bom_def wtf8_char_def byte_def)
qed

section \<open>Streams\<close>

text \<open>
  C21: A TextDecoderStream enqueues the same text however its input is cut into chunks: that of one
  decoder call on the whole input, and it fails exactly when that call does.
\<close>

theorem decoder_stream_chunks:
  assumes "ample_memory m"
  shows "session (\<lambda>st a. tds_transform m enc True st (Some a)) (tds_flush m enc True) st chunks =
    td_outcome (fst (td_decode m enc st (concat chunks) False))"
  using decoder_stream.session_run [OF assms, of chunks enc st] by (simp add: list_all_iff)

theorem decoder_stream_chunks_witness:
  "session (\<lambda>st a. tds_transform full_mem encode_char_ref True st (Some a)) (tds_flush full_mem encode_char_ref True)
     utf8_decoder [[0xE2], [0x82], [], [0xAC]] = Some [0xE2, 0x82, 0xAC]"
proof -
  have "scalar_value 0x20AC" by (simp add: scalar_value_def code_point_def surrogate_def)
  then have "fst (td_decode full_mem encode_char_ref utf8_decoder (wtf8 [0x20AC]) False) = TdText (wtf8 [0x20AC])"
    using td_decode_scalars [OF encode_char_ref_ok _ ample_full_mem, of "[0x20AC]" utf8_decoder False]
    by (simp add: utf8_decoder_def without_bom_def)
  then show ?thesis
    using decoder_stream_chunks [OF ample_full_mem, of encode_char_ref utf8_decoder "[[0xE2], [0x82], [], [0xAC]]"]
    by (simp add: wtf8_char_def byte_def td_outcome_def)
qed

text \<open>
  C22: A TextEncoderStream writes the UTF-8 of the scalar values of the concatenated text: the
  halves of a surrogate pair in two chunks are joined, and every other half becomes U+FFFD.
\<close>

theorem encoder_stream_text:
  assumes "ample_memory m" and "list_all (list_all code_point) css"
  shows "session (\<lambda>st cs. tes_transform m True st (Some (wtf8 cs))) (tes_flush m True) tes_new css =
    Some (wtf8 (usv (concat css))) \<and> valid_utf8 (wtf8 (usv (concat css)))"
proof -
  have "tes_ok tes_new" by (auto simp: tes_ok_def tes_new_def intro: exI [of _ "[]"])
  then have "session (\<lambda>st cs. tes_transform m True st (Some (wtf8 cs))) (tes_flush m True) tes_new css =
      Some (wtf8 (usv (concat css)))"
    using encoder_stream.session_run [of m tes_new css] assms by (simp add: held_points_def tes_new_def)
  moreover have "\<forall>c \<in> set (usv (concat css)). scalar_value c"
    using assms(2) by (intro usv_scalars) (auto simp: list_all_iff)
  ultimately show ?thesis by (auto simp: valid_utf8_def)
qed

theorem encoder_stream_text_witness:
  "session (\<lambda>st cs. tes_transform full_mem True st (Some (wtf8 cs))) (tes_flush full_mem True) tes_new
     [[0x61, 0xD83D], [0xDE00, 0xDC00]] = Some [0x61, 0xF0, 0x9F, 0x98, 0x80, 0xEF, 0xBF, 0xBD]"
  using encoder_stream_text [OF ample_full_mem, of "[[0x61, 0xD83D], [0xDE00, 0xDC00]]"]
  by (simp add: code_point_def high_surrogate_def low_surrogate_def join_pair_def to_scalar_def surrogate_def
      wtf8_char_def byte_def)

section \<open>Labels\<close>



section \<open>Export\<close>

text \<open>
  C24: Exporting a live string into a buffer of any size writes the UTF-8 of its leading scalar
  values that fit, never more than the buffer holds and never part of a character, and reports
  the code units they came from. \<^verbatim>\<open>TextEncoder.encode\<close>, with a buffer of the size of the string,
  always gets all of them.
\<close>

theorem text_export_fits:
  assumes "utf8proc_encodes enc" and "utf8proc_iterates iter" and "ample_memory m"
    and "text_step\<^sup>*\<^sup>* (init_text_state m, {}) (st, live)" and "text_of st str cs" and "len = length (wtf8 cs)"
    and "vs = fit_chars n (usv cs)"
  shows "fst (js_textencoder_encode_into enc iter str len detached n st) =
      (length (utf16 vs), length (wtf8 vs), if detached then [] else wtf8 vs) \<and>
    length (wtf8 vs) \<le> n \<and> valid_utf8 (wtf8 vs) \<and> (n \<ge> length (wtf8 (usv cs)) \<longrightarrow> vs = usv cs) \<and>
    fst (te_encode m enc iter str len st) = Inr (wtf8 (usv cs))"
proof -
  have len: "fs_len (ts_heap st str) = len" using assms(5,6) by (simp add: fs_len_text text_of_def)
  have into: "fst (utf8_export_into enc iter str len k st) =
      (wtf8 (fit_chars k (usv cs)), length (utf16 (fit_chars k (usv cs))))" for k
    using utf8_export_into_ok [OF assms(1,2) text_reachable_inv [OF assms(4)] assms(5) prod.collapse [symmetric], of k]
    by (simp add: len)
  have scalars: "\<forall>c \<in> set (usv cs). scalar_value c"
    using assms(5) by (intro usv_scalars) (simp add: text_of_def code_points_def)
  obtain rest where "usv cs = vs @ rest" using fit_chars_prefix [of "usv cs" n] assms(7) by auto
  with scalars have "\<forall>c \<in> set vs. scalar_value c" by simp
  then have "valid_utf8 (wtf8 vs)" by (auto simp: valid_utf8_def)
  moreover have "fit_chars len (usv cs) = usv cs" using usv_length [of cs] assms(6) by (intro fit_chars_all) simp
  ultimately show ?thesis
    using into [of n] into [of len] assms(3,7) fit_chars_length [of n "usv cs"] fit_chars_all [of "usv cs" n]
    by (auto simp: js_textencoder_encode_into_def te_encode_def case_prod_beta)
qed

theorem text_export_fits_witness:
  "fst (js_textencoder_encode_into encode_char_ref iterate_ref 7 5 False 4 two_char_state) = (1, 1, [0x61])"
proof -
  have len: "5 = length (wtf8 [0x61, 0x1F600])" by (simp add: wtf8_char_def)
  have "[0x61] = fit_chars 4 (usv [0x61, 0x1F600])"
    by (simp add: wtf8_char_def to_scalar_def surrogate_def high_surrogate_def)
  from text_export_fits [OF encode_char_ref_ok iterate_ref_ok ample_full_mem two_char_reached two_char_text len this, of False]
  show ?thesis by (simp add: utf16_char_def wtf8_char_def byte_def)
qed

text \<open>
  C25: The exported length of a string, computed or remembered in its header, is the length of the
  UTF-8 of its scalar values; every answer stored in the header on the way stays right.
\<close>

theorem export_length_exact:
  assumes "utf8proc_encodes enc" and "utf8proc_iterates iter" and "export_ok enc iter flat"
    and "fs_bytes flat = wtf8 cs" and "list_all code_point cs" and "length (wtf8 cs) \<le> size_max"
    and "utf8_export_length enc iter flat (fs_len flat) = (n, flat')"
  shows "n = length (wtf8 (usv cs)) \<and> export_ok enc iter flat' \<and> fs_bytes flat' = fs_bytes flat"
proof -
  have "export_size enc iter (wtf8 cs) = length (wtf8 (usv cs))"
  proof (cases "utf8_validate_bytes (wtf8 cs) (length (wtf8 cs))")
    case True
    then have "usv cs = cs"
      using validate_scalars [OF _ True] assms(5) usv_of_scalars by (simp add: code_points_list)
    then show ?thesis using True by (simp add: export_size_def)
  next
    case False
    have "fit_chars size_max (usv cs) = usv cs" using usv_length [of cs] assms(6) by (intro fit_chars_all) simp
    then show ?thesis
      using False export_wtf8_text [OF assms(1,2,5), of size_max] by (simp add: export_size_def)
  qed
  then show ?thesis using utf8_export_length_ok [OF assms(3,7)] assms(4) by simp
qed

theorem export_length_exact_witness:
  "\<exists>n flat'. utf8_export_length encode_char_ref iterate_ref (new_string (wtf8 [0xD83D, 0xDE00]))
    (fs_len (new_string (wtf8 [0xD83D, 0xDE00]))) = (n, flat') \<and> n = 4"
proof -
  let ?flat = "new_string (wtf8 [0xD83D, 0xDE00])"
  have "str_flat_utf_valid_state ?flat = STR_UTF_UNKNOWN" by (simp add: new_string_def str_detect_ascii_bytes_def)
  then have ok: "export_ok encode_char_ref iterate_ref ?flat"
    using header_ok_mkstr [OF new_string_made] by (simp add: export_ok_def header_ok_def)
  obtain n flat' where run: "utf8_export_length encode_char_ref iterate_ref ?flat (fs_len ?flat) = (n, flat')"
    by (cases "utf8_export_length encode_char_ref iterate_ref ?flat (fs_len ?flat)")
  have "fs_bytes ?flat = wtf8 [0xD83D, 0xDE00]" "list_all code_point [0xD83D, 0xDE00]"
    "length (wtf8 [0xD83D, 0xDE00]) \<le> size_max"
    by (simp_all add: new_string_def code_point_def wtf8_char_def size_max_def)
  from export_length_exact [OF encode_char_ref_ok iterate_ref_ok ok this run] run show ?thesis
    by (simp add: high_surrogate_def low_surrogate_def join_pair_def wtf8_char_def)
qed

text \<open>
  C26: The JSON text of a string is well-formed UTF-8 and reading it back gives exactly the code
  units of the string: nothing is lost, unpaired surrogates included.
\<close>

theorem json_quote_roundtrip:
  assumes "ample_memory m" and "utf8proc_encodes enc" and "list_all code_point cs"
  shows "\<exists>bs. utf8_json_quote m enc (wtf8 cs) (length (wtf8 cs)) = Some (34 # bs) \<and>
    json_units bs = Some (utf16 cs) \<and> valid_utf8 (34 # bs)"
  using utf8_json_quote_text [OF assms] json_units_quote [OF join_pairs_points [OF assms(3)]]
    valid_quote [OF join_pairs_points [OF assms(3)]] join_pairs_utf16 [of cs] by simp

theorem json_quote_roundtrip_witness:
  "\<exists>bs. utf8_json_quote full_mem encode_char_ref (wtf8 [0x22, 0xD800, 0x0A]) (length (wtf8 [0x22, 0xD800, 0x0A])) = Some (34 # bs) \<and>
    json_units bs = Some [0x22, 0xD800, 0x0A]"
  using json_quote_roundtrip [OF ample_full_mem encode_char_ref_ok, of "[0x22, 0xD800, 0x0A]"]
  by (auto simp: code_point_def utf16_char_def)

end
