(* ===== verification/Uri_Codec.thy ===== *)
theory Uri_Codec
  imports Json_Quote
begin

unbundle bit_operations_syntax

text \<open>
  The global URI functions (\<^verbatim>\<open>src/modules/uri.c\<close>): encodeURIComponent, encodeURI, their decoders,
  escape and unescape. Every function reads its argument as a C string, so a zero byte ends it;
  the argument is absent, not a string (for which \<^verbatim>\<open>js_getstr\<close> gives a null pointer), or a string.
  A loop reads its input as a list: the part from \<^verbatim>\<open>i\<close> to \<^verbatim>\<open>len\<close>.
\<close>

section \<open>Tables and helpers\<close>

definition uri_unreserved :: "nat list" where
  "uri_unreserved =
     [0, 0, 0, 0, 0, 0, 0, 0, 0, 0, 0, 0, 0, 0, 0, 0,
      0, 0, 0, 0, 0, 0, 0, 0, 0, 0, 0, 0, 0, 0, 0, 0,
      0, 1, 0, 0, 0, 0, 0, 1, 1, 1, 1, 0, 0, 1, 1, 0,
      1, 1, 1, 1, 1, 1, 1, 1, 1, 1, 0, 0, 0, 0, 0, 0,
      0, 1, 1, 1, 1, 1, 1, 1, 1, 1, 1, 1, 1, 1, 1, 1,
      1, 1, 1, 1, 1, 1, 1, 1, 1, 1, 1, 0, 0, 0, 0, 1,
      0, 1, 1, 1, 1, 1, 1, 1, 1, 1, 1, 1, 1, 1, 1, 1,
      1, 1, 1, 1, 1, 1, 1, 1, 1, 1, 1, 0, 0, 0, 1, 0,
      0, 0, 0, 0, 0, 0, 0, 0, 0, 0, 0, 0, 0, 0, 0, 0,
      0, 0, 0, 0, 0, 0, 0, 0, 0, 0, 0, 0, 0, 0, 0, 0,
      0, 0, 0, 0, 0, 0, 0, 0, 0, 0, 0, 0, 0, 0, 0, 0,
      0, 0, 0, 0, 0, 0, 0, 0, 0, 0, 0, 0, 0, 0, 0, 0,
      0, 0, 0, 0, 0, 0, 0, 0, 0, 0, 0, 0, 0, 0, 0, 0,
      0, 0, 0, 0, 0, 0, 0, 0, 0, 0, 0, 0, 0, 0, 0, 0,
      0, 0, 0, 0, 0, 0, 0, 0, 0, 0, 0, 0, 0, 0, 0, 0,
      0, 0, 0, 0, 0, 0, 0, 0, 0, 0, 0, 0, 0, 0, 0, 0]"

definition uri_reserved :: "nat list" where
  "uri_reserved =
     [0, 0, 0, 0, 0, 0, 0, 0, 0, 0, 0, 0, 0, 0, 0, 0,
      0, 0, 0, 0, 0, 0, 0, 0, 0, 0, 0, 0, 0, 0, 0, 0,
      0, 0, 0, 1, 1, 0, 1, 0, 0, 0, 0, 1, 1, 0, 0, 1,
      0, 0, 0, 0, 0, 0, 0, 0, 0, 0, 1, 1, 0, 1, 0, 1,
      1, 0, 0, 0, 0, 0, 0, 0, 0, 0, 0, 0, 0, 0, 0, 0,
      0, 0, 0, 0, 0, 0, 0, 0, 0, 0, 0, 0, 0, 0, 0, 0,
      0, 0, 0, 0, 0, 0, 0, 0, 0, 0, 0, 0, 0, 0, 0, 0,
      0, 0, 0, 0, 0, 0, 0, 0, 0, 0, 0, 0, 0, 0, 0, 0,
      0, 0, 0, 0, 0, 0, 0, 0, 0, 0, 0, 0, 0, 0, 0, 0,
      0, 0, 0, 0, 0, 0, 0, 0, 0, 0, 0, 0, 0, 0, 0, 0,
      0, 0, 0, 0, 0, 0, 0, 0, 0, 0, 0, 0, 0, 0, 0, 0,
      0, 0, 0, 0, 0, 0, 0, 0, 0, 0, 0, 0, 0, 0, 0, 0,
      0, 0, 0, 0, 0, 0, 0, 0, 0, 0, 0, 0, 0, 0, 0, 0,
      0, 0, 0, 0, 0, 0, 0, 0, 0, 0, 0, 0, 0, 0, 0, 0,
      0, 0, 0, 0, 0, 0, 0, 0, 0, 0, 0, 0, 0, 0, 0, 0,
      0, 0, 0, 0, 0, 0, 0, 0, 0, 0, 0, 0, 0, 0, 0, 0]"

definition is_uri_unreserved :: "u8 \<Rightarrow> bool" where
  "is_uri_unreserved c \<longleftrightarrow> uri_unreserved ! unat c \<noteq> 0"

definition is_uri_reserved :: "u8 \<Rightarrow> bool" where
  "is_uri_reserved c \<longleftrightarrow> uri_reserved ! unat c \<noteq> 0"

definition is_valid_continuation :: "u8 \<Rightarrow> bool" where
  "is_valid_continuation c \<longleftrightarrow> c AND 0xC0 = 0x80"

definition is_lone_surrogate :: "bytes \<Rightarrow> int \<Rightarrow> bool" where
  "is_lone_surrogate str seq_len \<longleftrightarrow>
     seq_len = 3 \<and> str ! 0 = 0xED \<and> str ! 1 \<ge> 0xA0 \<and> str ! 1 \<le> 0xBF"

text \<open>The next escaped byte and what follows it.\<close>

definition decode_escape_sequence :: "bytes \<Rightarrow> (u8 \<times> bytes) option" where
  "decode_escape_sequence str =
     (case str of
        p # a # b # rest \<Rightarrow>
          if p \<noteq> 37 then None
          else if hex_digit a < 0 \<or> hex_digit b < 0 then None
          else Some (word_of_int (hex_digit a * 16 + hex_digit b), rest)
      | _ \<Rightarrow> None)"

text \<open>The conversion \<^verbatim>\<open>%02X\<close> after a percent sign.\<close>

definition percent :: "u8 \<Rightarrow> bytes" where
  "percent b =
     [37, ascii ''0123456789ABCDEF'' ! (unat b div 16), ascii ''0123456789ABCDEF'' ! (unat b mod 16)]"

text \<open>\<^verbatim>\<open>str\<close> up to \<^verbatim>\<open>strlen(str)\<close>.\<close>

definition c_string :: "bytes \<Rightarrow> bytes" where
  "c_string s = takeWhile (\<lambda>b. b \<noteq> 0) s"

section \<open>Encoding\<close>

datatype uri_arg = UriNoArg | UriNotString | UriString bytes

function uri_encode_loop :: "(u8 \<Rightarrow> bool) \<Rightarrow> bytes \<Rightarrow> bytes \<Rightarrow> bytes option" where
  "uri_encode_loop keep str out =
     (if str = [] then Some out
      else if keep (hd str) then uri_encode_loop keep (tl str) (out @ [hd str])
      else
        let seq_len = utf8_sequence_length (hd str)
        in if seq_len < 0 then None
           else if nat seq_len > length str then None
           else if \<not> list_all is_valid_continuation (tl (take (nat seq_len) str)) then None
           else if is_lone_surrogate str seq_len then None
           else uri_encode_loop keep (drop (nat seq_len) str) (out @ concat (map percent (take (nat seq_len) str))))"
  by pat_completeness auto
termination
  by (relation "measure (\<lambda>(keep, str, out). length str)")
    (auto simp: utf8_sequence_length_def length_greater_0_conv [symmetric] simp del: length_greater_0_conv split: if_splits)

declare uri_encode_loop.simps [simp del]

definition uri_result :: "bytes option \<Rightarrow> js_error + bytes" where
  "uri_result r = (case r of None \<Rightarrow> Inl UriMalformed | Some out \<Rightarrow> Inr out)"

definition js_encodeURIComponent :: "mem_env \<Rightarrow> uri_arg \<Rightarrow> js_error + bytes" where
  "js_encodeURIComponent m arg =
     (case arg of
        UriNoArg \<Rightarrow> Inr (ascii ''undefined'')
      | UriNotString \<Rightarrow> Inr []
      | UriString s \<Rightarrow>
          let str = c_string s
          in if \<not> alloc_ok m (length str * 12 + 1) then Inl Oom
             else uri_result (uri_encode_loop is_uri_unreserved str []))"

definition js_encodeURI :: "mem_env \<Rightarrow> uri_arg \<Rightarrow> js_error + bytes" where
  "js_encodeURI m arg =
     (case arg of
        UriNoArg \<Rightarrow> Inr (ascii ''undefined'')
      | UriNotString \<Rightarrow> Inr []
      | UriString s \<Rightarrow>
          let str = c_string s
          in if \<not> alloc_ok m (length str * 12 + 1) then Inl Oom
             else uri_result (uri_encode_loop (\<lambda>c. is_uri_unreserved c \<or> is_uri_reserved c) str []))"

section \<open>Decoding\<close>

text \<open>The inner loop: the escaped continuation bytes and the rest of the input.\<close>

fun decode_continuations :: "nat \<Rightarrow> bytes \<Rightarrow> (bytes \<times> bytes) option" where
  "decode_continuations 0 str = Some ([], str)"
| "decode_continuations (Suc n) str =
     (case decode_escape_sequence str of
        None \<Rightarrow> None
      | Some (b, rest) \<Rightarrow>
          if \<not> is_valid_continuation b then None
          else map_option (apfst (Cons b)) (decode_continuations n rest))"

lemma decode_escape_sequence_shorter: "decode_escape_sequence str = Some (b, rest) \<Longrightarrow> length rest < length str"
  by (auto simp: decode_escape_sequence_def split: list.splits if_splits)

lemma decode_continuations_shorter: "decode_continuations n str = Some (bs, rest) \<Longrightarrow> length rest \<le> length str"
proof (induction n str arbitrary: bs rest rule: decode_continuations.induct)
  case (2 n str)
  then show ?case
    by (fastforce split: option.splits prod.splits if_splits dest: decode_escape_sequence_shorter)
qed simp

text \<open>One escaped character: its bytes and the rest of the input.\<close>

definition decode_escaped_char :: "bytes \<Rightarrow> (bytes \<times> bytes) option" where
  "decode_escaped_char str =
     (case decode_escape_sequence str of
        None \<Rightarrow> None
      | Some (first_byte, rest) \<Rightarrow>
          let seq_len = utf8_sequence_length first_byte
          in if seq_len < 0 then None
             else map_option (apfst (Cons first_byte)) (decode_continuations (nat seq_len - 1) rest))"

lemma decode_escaped_char_shorter: "decode_escaped_char str = Some (bs, rest) \<Longrightarrow> length rest < length str"
  by (fastforce simp: decode_escaped_char_def Let_def split: option.splits prod.splits if_splits
      dest: decode_escape_sequence_shorter decode_continuations_shorter)

function uri_decode_component_loop :: "bytes \<Rightarrow> bytes \<Rightarrow> bytes option" where
  "uri_decode_component_loop str out =
     (if str = [] then Some out
      else if hd str \<noteq> 37 then uri_decode_component_loop (tl str) (out @ [hd str])
      else case decode_escaped_char str of
          None \<Rightarrow> None
        | Some (bs, rest) \<Rightarrow> uri_decode_component_loop rest (out @ bs))"
  by pat_completeness auto
termination
  by (relation "measure (\<lambda>(str, out). length str)") (auto dest: decode_escaped_char_shorter)

declare uri_decode_component_loop.simps [simp del]

definition js_decodeURIComponent :: "mem_env \<Rightarrow> uri_arg \<Rightarrow> js_error + bytes" where
  "js_decodeURIComponent m arg =
     (case arg of
        UriNoArg \<Rightarrow> Inr (ascii ''undefined'')
      | UriNotString \<Rightarrow> Inr []
      | UriString s \<Rightarrow>
          let str = c_string s
          in if \<not> alloc_ok m (length str + 1) then Inl Oom
             else uri_result (uri_decode_component_loop str []))"

text \<open>decodeURI leaves an escaped reserved character as it is.\<close>

function uri_decode_loop :: "bytes \<Rightarrow> bytes \<Rightarrow> bytes option" where
  "uri_decode_loop str out =
     (if str = [] then Some out
      else if hd str \<noteq> 37 then uri_decode_loop (tl str) (out @ [hd str])
      else case decode_escape_sequence str of
          None \<Rightarrow> None
        | Some (first_byte, rest) \<Rightarrow>
            if first_byte < 128 \<and> is_uri_reserved first_byte
            then uri_decode_loop rest (out @ take 3 str)
            else case decode_escaped_char str of
                None \<Rightarrow> None
              | Some (bs, rest) \<Rightarrow> uri_decode_loop rest (out @ bs))"
  by pat_completeness auto
termination
  by (relation "measure (\<lambda>(str, out). length str)")
    (auto dest: decode_escaped_char_shorter decode_escape_sequence_shorter)

declare uri_decode_loop.simps [simp del]

definition js_decodeURI :: "mem_env \<Rightarrow> uri_arg \<Rightarrow> js_error + bytes" where
  "js_decodeURI m arg =
     (case arg of
        UriNoArg \<Rightarrow> Inr (ascii ''undefined'')
      | UriNotString \<Rightarrow> Inr []
      | UriString s \<Rightarrow>
          let str = c_string s
          in if \<not> alloc_ok m (length str + 1) then Inl Oom
             else uri_result (uri_decode_loop str []))"

section \<open>The legacy functions\<close>

definition is_escape_unreserved :: "u8 \<Rightarrow> bool" where
  "is_escape_unreserved c \<longleftrightarrow>
     c \<ge> 65 \<and> c \<le> 90 \<or> c \<ge> 97 \<and> c \<le> 122 \<or> c \<ge> 48 \<and> c \<le> 57 \<or>
     c = 64 \<or> c = 42 \<or> c = 95 \<or> c = 43 \<or> c = 45 \<or> c = 46 \<or> c = 47"

definition js_escape :: "mem_env \<Rightarrow> uri_arg \<Rightarrow> js_error + bytes" where
  "js_escape m arg =
     (case arg of
        UriNoArg \<Rightarrow> Inr (ascii ''undefined'')
      | UriNotString \<Rightarrow> Inr (ascii ''undefined'')
      | UriString s \<Rightarrow>
          let str = c_string s
          in if \<not> alloc_ok m (length str * 6 + 1) then Inl Oom
             else Inr (concat (map (\<lambda>c. if is_escape_unreserved c then [c] else percent c) str)))"

function unescape_loop :: "bytes \<Rightarrow> bytes \<Rightarrow> bytes" where
  "unescape_loop str out =
     (if str = [] then out
      else case (if hd str = 37 then decode_escape_sequence str else None) of
          Some (b, rest) \<Rightarrow> unescape_loop rest (out @ [b])
        | None \<Rightarrow> unescape_loop (tl str) (out @ [hd str]))"
  by pat_completeness auto
termination
  by (relation "measure (\<lambda>(str, out). length str)") (auto dest: decode_escape_sequence_shorter split: if_splits)

declare unescape_loop.simps [simp del]

definition js_unescape :: "mem_env \<Rightarrow> uri_arg \<Rightarrow> js_error + bytes" where
  "js_unescape m arg =
     (case arg of
        UriNoArg \<Rightarrow> Inr (ascii ''undefined'')
      | UriNotString \<Rightarrow> Inr (ascii ''undefined'')
      | UriString s \<Rightarrow>
          let str = c_string s
          in if \<not> alloc_ok m (length str + 1) then Inl Oom else Inr (unescape_loop str []))"

end
