(* ===== verification/Uri_Spec.thy ===== *)
theory Uri_Spec
  imports Uri_Codec
begin

unbundle bit_operations_syntax

text \<open>
  What the URI functions compute on text: the encoders escape exactly the characters outside
  their sets and refuse unpaired surrogates, the decoders undo them.
\<close>

section \<open>Characters and escapes\<close>

lemma uri_tables:
  "drop 128 uri_unreserved = replicate 128 0" "uri_unreserved ! 37 = 0" "uri_unreserved ! 0 = 0"
  "drop 128 uri_reserved = replicate 128 0" "uri_reserved ! 37 = 0" "uri_reserved ! 0 = 0"
  by (simp_all add: uri_unreserved_def uri_reserved_def numeral_eq_Suc)

lemma uri_table_ascii:
  assumes "drop 128 t = replicate 128 (0 :: nat)" and "t ! 37 = 0" and "t ! 0 = 0" and "t ! unat (c :: u8) \<noteq> 0"
  shows "c < 0x80 \<and> c \<noteq> 37 \<and> c \<noteq> 0"
proof -
  have "unat c < 128"
  proof (rule ccontr)
    assume "\<not> unat c < 128"
    moreover have "length t = 256" using arg_cong [OF assms(1), of length] by simp
    ultimately have "t ! unat c = drop 128 t ! (unat c - 128)" "unat c - 128 < 128"
      using unat_u8_bound [of c] by auto
    then show False using assms(1,4) by simp
  qed
  moreover have "unat c \<noteq> 37" "unat c \<noteq> 0" using assms(2-4) by metis+
  ultimately show ?thesis by (auto simp: word_less_nat_alt)
qed

lemma uri_kept_ascii:
  "is_uri_unreserved c \<Longrightarrow> c < 0x80 \<and> c \<noteq> 37 \<and> c \<noteq> 0" "is_uri_reserved c \<Longrightarrow> c < 0x80 \<and> c \<noteq> 37 \<and> c \<noteq> 0"
  using uri_table_ascii [OF uri_tables(1-3)] uri_table_ascii [OF uri_tables(4-6)]
  by (simp_all add: is_uri_unreserved_def is_uri_reserved_def)

lemma hex_digit_upper:
  "d < 16 \<Longrightarrow> hex_digit (ascii ''0123456789ABCDEF'' ! d) = int d"
  "d < 16 \<Longrightarrow> ascii ''0123456789ABCDEF'' ! d < 0x80 \<and> ascii ''0123456789ABCDEF'' ! d \<noteq> 0"
proof -
  have "list_all (\<lambda>d. hex_digit (ascii ''0123456789ABCDEF'' ! d) = int d \<and> ascii ''0123456789ABCDEF'' ! d < 0x80
      \<and> ascii ''0123456789ABCDEF'' ! d \<noteq> 0) [0..<16]"
    by code_simp
  then show "d < 16 \<Longrightarrow> hex_digit (ascii ''0123456789ABCDEF'' ! d) = int d"
    "d < 16 \<Longrightarrow> ascii ''0123456789ABCDEF'' ! d < 0x80 \<and> ascii ''0123456789ABCDEF'' ! d \<noteq> 0"
    by (simp_all only: list_all_iff set_upt atLeastLessThan_iff) simp_all
qed

lemma decode_percent: "decode_escape_sequence (percent b @ rest) = Some (b, rest)"
proof -
  have d: "unat b div 16 < 16" "unat b mod 16 < 16" using unat_u8_bound [of b] by simp_all
  have "int (unat b div 16) * 16 + int (unat b mod 16) = int (unat b)"
    by (simp add: of_nat_div of_nat_mod)
  then have "word_of_int (int (unat b div 16) * 16 + int (unat b mod 16)) = b" by simp
  then show ?thesis
    using hex_digit_upper(1) [OF d(1)] hex_digit_upper(1) [OF d(2)]
    by (simp add: decode_escape_sequence_def percent_def)
qed

lemma percent_ascii: "a \<in> set (percent b) \<Longrightarrow> a < 0x80 \<and> a \<noteq> 0"
proof -
  have d: "unat b div 16 < 16" "unat b mod 16 < 16" using unat_u8_bound [of b] by simp_all
  show "a \<in> set (percent b) \<Longrightarrow> a < 0x80 \<and> a \<noteq> 0"
    using hex_digit_upper(2) [OF d(1)] hex_digit_upper(2) [OF d(2)] by (auto simp: percent_def)
qed

lemma percent_simps [simp]: "percent b \<noteq> []" "hd (percent b) = 37" "length (percent b) = 3"
  by (simp_all add: percent_def)

text \<open>A zero byte only comes from the code point zero.\<close>

lemma wtf8_char_zero: "code_point c \<Longrightarrow> 0 \<in> set (wtf8_char c) \<longleftrightarrow> c = 0"
proof -
  assume c: "code_point c"
  obtain a x where ax: "wtf8_char c = a # x" by (cases "wtf8_char c") simp_all
  have "0 \<notin> set x" using wtf8_char_tail [of 0 c] ax by auto
  moreover have "a = 0 \<longleftrightarrow> c = 0"
    using c ax by (cases rule: code_point_cases) (auto simp: word_unat_eq_iff)
  ultimately show ?thesis using ax by simp
qed

lemma takeWhile_bytes: "\<forall>b \<in> set xs. b \<noteq> 0 \<Longrightarrow> takeWhile (\<lambda>b. b \<noteq> 0) (xs @ ys) = xs @ takeWhile (\<lambda>b. b \<noteq> 0) ys"
  by (induction xs) simp_all

lemma c_string_wtf8:
  "list_all code_point cs \<Longrightarrow> c_string (wtf8 cs) = wtf8 (takeWhile (\<lambda>c. c \<noteq> 0) cs)"
proof (induction cs)
  case (Cons c cs)
  show ?case
  proof (cases "c = 0")
    case True
    then show ?thesis by (simp add: c_string_def wtf8_char_def byte_def)
  next
    case False
    then have "\<forall>b \<in> set (wtf8_char c). b \<noteq> 0" using wtf8_char_zero [of c] Cons.prems by auto
    then show ?thesis using Cons False by (simp add: c_string_def takeWhile_bytes)
  qed
qed (simp add: c_string_def)

lemma c_string_id: "0 \<notin> set s \<Longrightarrow> c_string s = s"
  by (induction s) (simp_all add: c_string_def)

section \<open>Encoding a text\<close>

definition uri_char :: "(u8 \<Rightarrow> bool) \<Rightarrow> nat \<Rightarrow> bytes" where
  "uri_char keep c = (if c < 0x80 \<and> keep (byte c) then [byte c] else concat (map percent (wtf8_char c)))"

lemma uri_encode_char:
  assumes "code_point c" and "\<And>b. keep b \<Longrightarrow> b < 0x80"
  shows "uri_encode_loop keep (wtf8_char c @ rest) out =
    (if surrogate c then None else uri_encode_loop keep rest (out @ uri_char keep c))"
proof (cases "c < 0x80 \<and> keep (byte c)")
  case True
  then have "wtf8_char c = [byte c]" "\<not> surrogate c" by (simp_all add: wtf8_char_def surrogate_def)
  then show ?thesis using True by (subst uri_encode_loop.simps) (simp add: uri_char_def)
next
  case False
  obtain a x where ax: "wtf8_char c = a # x" by (cases "wtf8_char c") simp_all
  have "\<not> keep a"
  proof
    assume k: "keep a"
    then have "unat a < 0x80" using assms(2) by (simp add: byte_classes)
    with assms(1) ax have "c < 0x80 \<and> a = byte c" by (cases rule: code_point_cases) auto
    then show False using False k by simp
  qed
  moreover have "utf8_sequence_length a = int (length (wtf8_char c))"
    using utf8_sequence_length_char [OF assms(1)] ax by simp
  moreover have "list_all is_valid_continuation x"
    using wtf8_char_tail [of _ c] ax by (auto simp: list_all_iff is_valid_continuation_def byte_classes)
  moreover have "is_lone_surrogate (wtf8_char c @ rest) (int (length (wtf8_char c))) \<longleftrightarrow> surrogate c"
  proof
    assume l: "is_lone_surrogate (wtf8_char c @ rest) (int (length (wtf8_char c)))"
    then have "hd (wtf8_char c) = 0xED" using ax by (simp add: is_lone_surrogate_def)
    then have r: "0xD000 \<le> c" "c < 0xE000" using ed_char [OF assms(1)] by simp_all
    then have "0xA0 \<le> 0x80 + (c - 0xD000) div 64"
      using ed_bytes [OF r] l by (auto simp: is_lone_surrogate_def word_le_nat_alt)
    then have "32 \<le> (c - 0xD000) div 64" by simp
    then show "surrogate c"
      using r less_eq_div_iff_mult_less_eq [of 64 32 "c - 0xD000"] by (auto simp: surrogate_def)
  next
    assume "surrogate c"
    then obtain y z where "wtf8_char c = [0xED, y, z]" "0xA0 \<le> unat y" "unat y \<le> 0xBF"
      using surrogate_bytes by metis
    then show "is_lone_surrogate (wtf8_char c @ rest) (int (length (wtf8_char c)))"
      by (simp add: is_lone_surrogate_def word_le_nat_alt)
  qed
  moreover have "nat (1 + int (length x)) = Suc (length x)" by simp
  ultimately show ?thesis
    using False ax by (subst uri_encode_loop.simps) (auto simp: uri_char_def Let_def)
qed

lemma uri_encode_text:
  assumes "list_all code_point cs" and "\<And>b. keep b \<Longrightarrow> b < 0x80"
  shows "uri_encode_loop keep (wtf8 cs) out =
    (if list_ex surrogate cs then None else Some (out @ concat (map (uri_char keep) cs)))"
  using assms(1)
proof (induction cs arbitrary: out)
  case Nil
  show ?case by (subst uri_encode_loop.simps) simp
next
  case (Cons c cs)
  then show ?case using uri_encode_char [of c keep "wtf8 cs" out] assms(2) by simp
qed

lemma uri_char_length: "length (uri_char keep c) \<le> 12"
proof -
  have "length (concat (map percent bs)) = 3 * length bs" for bs by (induction bs) simp_all
  then show ?thesis by (simp add: uri_char_def wtf8_char_length)
qed

section \<open>Decoding what was encoded\<close>

lemma decode_continuations_percent:
  "list_all is_valid_continuation x \<Longrightarrow> decode_continuations (length x) (concat (map percent x) @ rest) = Some (x, rest)"
  by (induction x) (simp_all add: decode_percent)

lemma decode_escaped_percent:
  assumes "code_point c"
  shows "decode_escaped_char (concat (map percent (wtf8_char c)) @ rest) = Some (wtf8_char c, rest)"
proof -
  obtain a x where ax: "wtf8_char c = a # x" by (cases "wtf8_char c") simp_all
  have "utf8_sequence_length a = 1 + int (length x)" "nat (1 + int (length x)) - 1 = length x"
    using utf8_sequence_length_char [OF assms] ax by simp_all
  moreover have "list_all is_valid_continuation x"
    using wtf8_char_tail [of _ c] ax by (auto simp: list_all_iff is_valid_continuation_def byte_classes)
  ultimately show ?thesis
    by (simp add: ax decode_escaped_char_def decode_percent decode_continuations_percent)
qed

lemma wtf8_char_percent:
  obtains b rest where "concat (map percent (wtf8_char c)) = percent b @ rest" "hd (wtf8_char c) = b"
  by (cases "wtf8_char c") (auto intro: that)

lemma uri_decode_component_char:
  assumes "code_point c" and "\<And>b. keep b \<Longrightarrow> b < 0x80 \<and> b \<noteq> 37"
  shows "uri_decode_component_loop (uri_char keep c @ rest) out = uri_decode_component_loop rest (out @ wtf8_char c)"
proof (cases "c < 0x80 \<and> keep (byte c)")
  case True
  then show ?thesis
    using assms(2) by (subst uri_decode_component_loop.simps) (simp add: uri_char_def wtf8_char_def)
next
  case False
  obtain b r where b: "concat (map percent (wtf8_char c)) = percent b @ r" using wtf8_char_percent [of c] by metis
  then show ?thesis
    using False decode_escaped_percent [OF assms(1), of rest]
    by (subst uri_decode_component_loop.simps) (auto simp: uri_char_def)
qed

lemma uri_decode_char:
  assumes "code_point c" and "\<And>b. keep b \<Longrightarrow> b < 0x80 \<and> b \<noteq> 37" and "\<And>b. is_uri_reserved b \<Longrightarrow> keep b"
  shows "uri_decode_loop (uri_char keep c @ rest) out = uri_decode_loop rest (out @ wtf8_char c)"
proof (cases "c < 0x80 \<and> keep (byte c)")
  case True
  then show ?thesis
    using assms(2) by (subst uri_decode_loop.simps) (simp add: uri_char_def wtf8_char_def)
next
  case False
  obtain b r where b: "concat (map percent (wtf8_char c)) = percent b @ r" "hd (wtf8_char c) = b"
    using wtf8_char_percent [of c] by metis
  have "\<not> (b < 128 \<and> is_uri_reserved b)"
  proof
    assume r: "b < 128 \<and> is_uri_reserved b"
    then have "unat b < 0x80" by (simp add: byte_classes)
    with assms(1) b(2) have "c < 0x80 \<and> b = byte c" by (cases rule: code_point_cases) auto
    then show False using False r assms(3) by auto
  qed
  then show ?thesis
    using False b decode_escaped_percent [OF assms(1), of rest] decode_percent [of b "r @ rest"]
    by (subst uri_decode_loop.simps) (auto simp: uri_char_def)
qed

lemma uri_decode_component_text:
  "list_all code_point cs \<Longrightarrow> (\<And>b. keep b \<Longrightarrow> b < 0x80 \<and> b \<noteq> 37) \<Longrightarrow>
    uri_decode_component_loop (concat (map (uri_char keep) cs)) out = Some (out @ wtf8 cs)"
  by (induction cs arbitrary: out) (simp_all add: uri_decode_component_char, simp add: uri_decode_component_loop.simps)

lemma uri_decode_text:
  "list_all code_point cs \<Longrightarrow> (\<And>b. keep b \<Longrightarrow> b < 0x80 \<and> b \<noteq> 37) \<Longrightarrow> (\<And>b. is_uri_reserved b \<Longrightarrow> keep b) \<Longrightarrow>
    uri_decode_loop (concat (map (uri_char keep) cs)) out = Some (out @ wtf8 cs)"
  by (induction cs arbitrary: out) (simp_all add: uri_decode_char, simp add: uri_decode_loop.simps)

lemma uri_char_nonzero:
  assumes "code_point c" and "\<And>b. keep b \<Longrightarrow> b \<noteq> 0"
  shows "0 \<notin> set (uri_char keep c)"
  using percent_ascii assms(2) [of "byte c"] by (auto simp: uri_char_def)

section \<open>Legacy escapes\<close>

lemma unescape_percent: "unescape_loop (percent b @ rest) out = unescape_loop rest (out @ [b])"
  by (subst unescape_loop.simps) (simp add: decode_percent)

lemma unescape_escape:
  "unescape_loop (concat (map (\<lambda>c. if is_escape_unreserved c then [c] else percent c) s)) out = out @ s"
proof (induction s arbitrary: out)
  case Nil
  show ?case by (subst unescape_loop.simps) simp
next
  case (Cons c s)
  show ?case
  proof (cases "is_escape_unreserved c")
    case True
    then have "c \<noteq> 37" by (auto simp: is_escape_unreserved_def)
    then show ?thesis using True Cons by (simp, subst unescape_loop.simps) simp
  next
    case False
    then show ?thesis using Cons by (simp add: unescape_percent)
  qed
qed

section \<open>What the decoders accept\<close>

text \<open>
  Bytes in frames: each first byte announces the number of continuation bytes after it, and nothing
  else about the character is asked.
\<close>

definition tail_length :: "u8 \<Rightarrow> nat option" where
  "tail_length b =
     (if unat b < 0x80 then Some 0
      else if 0xC0 \<le> unat b \<and> unat b < 0xE0 then Some 1
      else if 0xE0 \<le> unat b \<and> unat b < 0xF0 then Some 2
      else if 0xF0 \<le> unat b \<and> unat b < 0xF8 then Some 3
      else None)"

function framed :: "bytes \<Rightarrow> bool" where
  "framed [] \<longleftrightarrow> True"
| "framed (b # bs) \<longleftrightarrow>
     (case tail_length b of
        None \<Rightarrow> False
      | Some k \<Rightarrow> k \<le> length bs \<and> (\<forall>c \<in> set (take k bs). 0x80 \<le> unat c \<and> unat c < 0xC0) \<and> framed (drop k bs))"
  by pat_completeness auto
termination
  by (relation "measure length") auto

declare framed.simps(2) [simp del]

lemma sequence_length_tail:
  "utf8_sequence_length b = (case tail_length b of None \<Rightarrow> - 1 | Some k \<Rightarrow> 1 + int k)"
  by (simp add: utf8_sequence_length_def tail_length_def byte_classes)

lemma decode_continuations_escaped:
  "decode_continuations n (concat (map percent bs)) =
    (if n \<le> length bs \<and> (\<forall>c \<in> set (take n bs). 0x80 \<le> unat c \<and> unat c < 0xC0)
     then Some (take n bs, concat (map percent (drop n bs))) else None)"
proof (induction n arbitrary: bs)
  case (Suc n)
  show ?case
  proof (cases bs)
    case Nil
    then show ?thesis by (simp add: decode_escape_sequence_def)
  next
    case (Cons b bs')
    then show ?thesis using Suc [of bs'] by (auto simp: decode_percent is_valid_continuation_def byte_classes)
  qed
qed simp

lemma decode_escaped_frame:
  "decode_escaped_char (concat (map percent (b # bs))) =
    (case tail_length b of
       None \<Rightarrow> None
     | Some k \<Rightarrow>
         if k \<le> length bs \<and> (\<forall>c \<in> set (take k bs). 0x80 \<le> unat c \<and> unat c < 0xC0)
         then Some (b # take k bs, concat (map percent (drop k bs))) else None)"
proof -
  have dec: "decode_escape_sequence (concat (map percent (b # bs))) = Some (b, concat (map percent bs))" by (simp add: decode_percent)
  have minus: "nat (1 + int k) - Suc 0 = k" for k by simp
  show ?thesis using dec
    by (cases "tail_length b") (simp_all add: decode_escaped_char_def sequence_length_tail decode_continuations_escaped Let_def minus)
qed

lemma percent_hd: "concat (map percent (b # bs)) \<noteq> []" "hd (concat (map percent (b # bs))) = 37"
  by simp_all

lemma decode_component_frames:
  "uri_decode_component_loop (concat (map percent bs)) out = (if framed bs then Some (out @ bs) else None)"
proof (induction bs arbitrary: out rule: framed.induct)
  case 1
  show ?case by (simp add: uri_decode_component_loop.simps)
next
  case (2 b bs)
  have "uri_decode_component_loop (concat (map percent (b # bs))) out =
      (case decode_escaped_char (concat (map percent (b # bs))) of
         None \<Rightarrow> None | Some (x, rest) \<Rightarrow> uri_decode_component_loop rest (out @ x))"
    by (subst uri_decode_component_loop.simps) (simp only: percent_hd if_False if_True not_True_eq_False refl)
  also have "\<dots> = (if framed (b # bs) then Some (out @ b # bs) else None)"
    unfolding decode_escaped_frame using 2 by (auto simp: framed.simps(2) split: option.splits)
  finally show ?case .
qed

lemma decode_uri_frames:
  "\<forall>b \<in> set bs. \<not> is_uri_reserved b \<Longrightarrow>
    uri_decode_loop (concat (map percent bs)) out = (if framed bs then Some (out @ bs) else None)"
proof (induction bs arbitrary: out rule: framed.induct)
  case 1
  show ?case by (simp add: uri_decode_loop.simps)
next
  case (2 b bs)
  have seq: "decode_escape_sequence (concat (map percent (b # bs))) = Some (b, concat (map percent bs))"
    by (simp add: decode_percent)
  have "uri_decode_loop (concat (map percent (b # bs))) out =
      (case decode_escaped_char (concat (map percent (b # bs))) of
         None \<Rightarrow> None | Some (x, rest) \<Rightarrow> uri_decode_loop rest (out @ x))"
    by (subst uri_decode_loop.simps)
      (use 2(2) in \<open>simp only: percent_hd seq option.case prod.case if_False if_True not_True_eq_False refl list.set insert_iff simp_thms\<close>)
  also have "\<dots> = (if framed (b # bs) then Some (out @ b # bs) else None)"
  proof (cases "tail_length b")
    case (Some k)
    have "\<forall>b \<in> set (drop k bs). \<not> is_uri_reserved b" using 2(2) by (auto dest: in_set_dropD)
    then show ?thesis unfolding decode_escaped_frame using 2(1) [OF Some] Some by (auto simp: framed.simps(2))
  qed (simp add: decode_escaped_frame [simplified] framed.simps(2))
  finally show ?case .
qed

lemma unescape_all: "unescape_loop (concat (map percent bs)) out = out @ bs"
  by (induction bs arbitrary: out) (simp_all add: unescape_percent unescape_loop.simps [of "[]"])

lemma percent_no_zero: "0 \<notin> set (concat (map percent bs))"
  using percent_ascii by auto

lemma framed_char:
  assumes "code_point c"
  shows "framed (wtf8_char c @ bs) = framed bs"
proof -
  obtain b x where bx: "wtf8_char c = b # x" by (cases "wtf8_char c") simp_all
  have "utf8_sequence_length b = 1 + int (length x)" using utf8_sequence_length_char [OF assms] bx by simp
  then have "tail_length b = Some (length x)" by (simp add: sequence_length_tail split: option.splits)
  moreover have "\<forall>y \<in> set x. 0x80 \<le> unat y \<and> unat y < 0xC0" using wtf8_char_tail [of _ c] bx by auto
  ultimately show ?thesis by (simp add: bx framed.simps(2))
qed

lemma framed_text: "list_all code_point cs \<Longrightarrow> framed (wtf8 cs)"
  by (induction cs) (simp_all add: framed_char)

lemma surrogate_not_valid: "surrogate c \<Longrightarrow> \<not> valid_utf8 (wtf8_char c)"
proof
  assume c: "surrogate c" and "valid_utf8 (wtf8_char c)"
  then obtain cs where cs: "\<forall>c \<in> set cs. scalar_value c" "wtf8 [c] = wtf8 cs" by (auto simp: valid_utf8_def)
  have "code_point c" using c by (simp add: surrogate_def code_point_def)
  then have "[c] = cs" using cs by (intro wtf8_inj) (auto simp: scalar_value_def)
  then show False using c cs(1) by (auto simp: scalar_value_def)
qed

text \<open>A character below 128 in two bytes.\<close>

definition overlong :: "nat \<Rightarrow> bytes" where
  "overlong c = [byte (0xC0 + c div 64), byte (0x80 + c mod 64)]"

lemma overlong_bytes: "c < 0x80 \<Longrightarrow> map unat (overlong c) = [0xC0 + c div 64, 0x80 + c mod 64]"
  by (simp add: overlong_def)

lemma overlong_framed: "c < 0x80 \<Longrightarrow> framed (overlong c)"
  using overlong_bytes [of c] by (auto simp: overlong_def framed.simps(2) tail_length_def)

lemma overlong_not_valid:
  assumes "c < 0x80"
  shows "\<not> valid_utf8 (overlong c)"
proof -
  have "list_all (\<lambda>c. \<not> utf8_validate_bytes (overlong c) 2) [0..<0x80]" by code_simp
  moreover have "c \<in> set [0..<0x80]" using assms by simp
  ultimately have "\<not> utf8_validate_bytes (overlong c) (length (overlong c))" 
    by (simp only: list_all_iff overlong_def list.size) (simp add: numeral_2_eq_2)
  then show ?thesis using utf8_validate_bytes_iff [of "overlong c"] by (auto simp: valid_utf8_def)
qed

section \<open>Results\<close>

lemma takeWhile_points: "list_all code_point cs \<Longrightarrow> list_all code_point (takeWhile P cs)"
  by (induction cs) simp_all

text \<open>
  C27: The URI encoders escape, character by character, every character outside their set of kept
  characters as the percent-encoded bytes of its UTF-8, inside the buffer of twelve bytes per byte
  plus one, and report a malformed URI exactly for a string with a surrogate. They see the
  string only up to its first zero character, and nothing of a value that is not a string.
\<close>

theorem uri_encoders:
  assumes "ample_memory m" and "list_all code_point cs" and "ds = takeWhile (\<lambda>c. c \<noteq> 0) cs"
  shows "js_encodeURIComponent m (UriString (wtf8 cs)) =
      (if list_ex surrogate ds then Inl UriMalformed else Inr (concat (map (uri_char is_uri_unreserved) ds))) \<and>
    js_encodeURI m (UriString (wtf8 cs)) =
      (if list_ex surrogate ds then Inl UriMalformed
       else Inr (concat (map (uri_char (\<lambda>c. is_uri_unreserved c \<or> is_uri_reserved c)) ds))) \<and>
    length (concat (map (uri_char keep) ds)) \<le> length (wtf8 ds) * 12 \<and>
    js_encodeURIComponent m UriNotString = Inr [] \<and> js_encodeURI m UriNotString = Inr []"
proof -
  have ds: "list_all code_point ds" using assms(2,3) by (simp add: takeWhile_points)
  have "length (concat (map (uri_char keep) xs)) \<le> length (wtf8 xs) * 12" for xs
  proof (induction xs)
    case (Cons x xs)
    have "12 \<le> length (wtf8_char x) * 12" using wtf8_char_nonempty [of x] by (cases "wtf8_char x") simp_all
    then show ?case using Cons uri_char_length [of keep x] by simp
  qed simp
  note fits = this
  let ?keep = "\<lambda>c. is_uri_unreserved c \<or> is_uri_reserved c"
  have keep: "b < 128" if "?keep b" for b using that uri_kept_ascii by blast
  have str: "c_string (wtf8 cs) = wtf8 ds" using c_string_wtf8 [OF assms(2)] assms(3) by argo
  have "js_encodeURIComponent m (UriString (wtf8 cs)) =
      (if list_ex surrogate ds then Inl UriMalformed else Inr (concat (map (uri_char is_uri_unreserved) ds)))"
    using uri_encode_text [OF ds, of is_uri_unreserved "[]"] uri_kept_ascii(1) assms(1)
    by (simp add: js_encodeURIComponent_def uri_result_def str)
  moreover have "js_encodeURI m (UriString (wtf8 cs)) =
      (if list_ex surrogate ds then Inl UriMalformed else Inr (concat (map (uri_char ?keep) ds)))"
    using uri_encode_text [OF ds keep, where out = "[]"] assms(1)
    by (simp add: js_encodeURI_def uri_result_def str)
  ultimately show ?thesis using fits assms(1)
    by (simp add: js_encodeURIComponent_def js_encodeURI_def uri_result_def c_string_def)
qed

theorem uri_encoders_witness:
  "js_encodeURIComponent full_mem (UriString (wtf8 [0x61, 0x26, 0xE9])) = Inr (ascii ''a%26%C3%A9'') \<and>
    js_encodeURI full_mem (UriString (wtf8 [0x61, 0xD800])) = Inl UriMalformed"
proof -
  let ?cs = "[0x61, 0x26, 0xE9] :: nat list" and ?ds = "[0x61, 0xD800] :: nat list"
  have cs: "list_all code_point ?cs" "?cs = takeWhile (\<lambda>c. c \<noteq> 0) ?cs"
    "list_all code_point ?ds" "?ds = takeWhile (\<lambda>c. c \<noteq> 0) ?ds"
    by (simp_all add: code_point_def)
  have "\<not> list_ex surrogate ?cs" "list_ex surrogate ?ds" by (simp_all add: surrogate_def)
  moreover have "concat (map (uri_char is_uri_unreserved) ?cs) = ascii ''a%26%C3%A9''"
    by code_simp
  ultimately show ?thesis
    using uri_encoders [OF ample_full_mem cs(1,2)] uri_encoders [OF ample_full_mem cs(3,4)] by simp
qed

text \<open>
  C28: Decoding undoes encoding: decodeURIComponent after encodeURIComponent, decodeURI after
  encodeURI, and unescape after escape give a text without zero characters back.
\<close>

theorem uri_roundtrip:
  assumes "ample_memory m" and "\<forall>c \<in> set cs. scalar_value c \<and> c \<noteq> 0"
  shows "(\<exists>u. js_encodeURIComponent m (UriString (wtf8 cs)) = Inr u \<and> js_decodeURIComponent m (UriString u) = Inr (wtf8 cs)) \<and>
    (\<exists>u. js_encodeURI m (UriString (wtf8 cs)) = Inr u \<and> js_decodeURI m (UriString u) = Inr (wtf8 cs)) \<and>
    (\<exists>u. js_escape m (UriString (wtf8 cs)) = Inr u \<and> js_unescape m (UriString u) = Inr (wtf8 cs))"
proof -
  have cs: "list_all code_point cs" "\<not> list_ex surrogate cs"
    using assms(2) by (auto simp: list_all_iff list_ex_iff scalar_value_def)
  have "takeWhile (\<lambda>c. c \<noteq> 0) cs = cs" using assms(2) by (simp add: takeWhile_eq_all_conv)
  then have str: "c_string (wtf8 cs) = wtf8 cs" using c_string_wtf8 [OF cs(1)] by argo
  have out: "c_string (concat (map (uri_char keep) cs)) = concat (map (uri_char keep) cs)"
    if "\<And>b. keep b \<Longrightarrow> b \<noteq> 0" for keep
    using uri_char_nonzero [of _ keep] that cs(1) by (intro c_string_id) (auto simp: list_all_iff)
  have esc: "0 \<notin> set (concat (map (\<lambda>c. if is_escape_unreserved c then [c] else percent c) (wtf8 cs)))"
    using percent_ascii by (auto simp: is_escape_unreserved_def split: if_splits)
  let ?keep = "\<lambda>c. is_uri_unreserved c \<or> is_uri_reserved c"
  have keep: "b < 128 \<and> b \<noteq> 37" and keep0: "b \<noteq> 0" if "?keep b" for b using that uri_kept_ascii by blast+
  have "js_decodeURIComponent m (UriString (concat (map (uri_char is_uri_unreserved) cs))) = Inr (wtf8 cs)"
    using uri_decode_component_text [OF cs(1), of is_uri_unreserved "[]"] uri_kept_ascii(1) out [of is_uri_unreserved] assms(1)
    by (simp add: js_decodeURIComponent_def uri_result_def)
  moreover have "js_decodeURI m (UriString (concat (map (uri_char ?keep) cs))) = Inr (wtf8 cs)"
    using uri_decode_text [OF cs(1) keep, where out = "[]"] out [OF keep0] assms(1)
    by (simp add: js_decodeURI_def uri_result_def)
  moreover have "js_unescape m (UriString (concat (map (\<lambda>c. if is_escape_unreserved c then [c] else percent c) (wtf8 cs)))) = Inr (wtf8 cs)"
    using unescape_escape [of "wtf8 cs" "[]"] c_string_id [OF esc] assms(1) by (simp add: js_unescape_def)
  moreover have "js_encodeURIComponent m (UriString (wtf8 cs)) = Inr (concat (map (uri_char is_uri_unreserved) cs))"
    using uri_encode_text [OF cs(1), of is_uri_unreserved "[]"] uri_kept_ascii(1) cs(2) assms(1)
    by (simp add: js_encodeURIComponent_def uri_result_def str)
  moreover have "js_encodeURI m (UriString (wtf8 cs)) = Inr (concat (map (uri_char ?keep) cs))"
    using uri_encode_text [OF cs(1) conjunct1 [OF keep], where out = "[]"] cs(2) assms(1)
    by (simp add: js_encodeURI_def uri_result_def str)
  moreover have "js_escape m (UriString (wtf8 cs)) = Inr (concat (map (\<lambda>c. if is_escape_unreserved c then [c] else percent c) (wtf8 cs)))"
    using assms(1) by (simp add: js_escape_def str)
  ultimately show ?thesis by blast
qed

theorem uri_roundtrip_witness:
  "\<exists>u. js_encodeURI full_mem (UriString (wtf8 [0x25, 0x23, 0x1F600])) = Inr u \<and>
    js_decodeURI full_mem (UriString u) = Inr (wtf8 [0x25, 0x23, 0x1F600])"
  using uri_roundtrip [OF ample_full_mem, of "[0x25, 0x23, 0x1F600]"]
  by (simp add: scalar_value_def code_point_def surrogate_def)

text \<open>
  C29: What the decoders do with any escaped bytes: decodeURIComponent accepts them exactly when each first byte is followed
  by the continuation bytes it announces, and so does decodeURI on bytes that are not reserved
  characters; unescape accepts all. Well-formed UTF-8 passes, but nothing else about the characters
  is checked, so both decoders also accept every escaped surrogate and every overlong form of a
  character below 128 and return bytes that are not UTF-8, where a malformed URI is due.
\<close>

theorem uri_decoders_accept_ill_formed:
  assumes "ample_memory m"
  shows "js_decodeURIComponent m (UriString (concat (map percent bs))) = (if framed bs then Inr bs else Inl UriMalformed) \<and>
    ((\<forall>b \<in> set bs. \<not> is_uri_reserved b) \<longrightarrow>
      js_decodeURI m (UriString (concat (map percent bs))) = (if framed bs then Inr bs else Inl UriMalformed)) \<and>
    js_unescape m (UriString (concat (map percent bs))) = Inr bs \<and>
    (valid_utf8 bs \<longrightarrow> framed bs) \<and>
    (surrogate c \<longrightarrow> framed (wtf8_char c) \<and> \<not> valid_utf8 (wtf8_char c)) \<and>
    (d < 0x80 \<longrightarrow> framed (overlong d) \<and> \<not> valid_utf8 (overlong d))"
proof -
  have str: "c_string (concat (map percent bs)) = concat (map percent bs)" by (rule c_string_id [OF percent_no_zero])
  have "framed bs" if "valid_utf8 bs"
    using that framed_text by (auto simp: valid_utf8_def list_all_iff scalar_value_def)
  moreover have "framed (wtf8_char c)" if "surrogate c"
    using framed_char [of c "[]"] that by (simp add: surrogate_def code_point_def)
  ultimately show ?thesis
    using assms str decode_component_frames [of bs "[]"] decode_uri_frames [of bs "[]"] unescape_all [of bs "[]"]
      surrogate_not_valid [of c] overlong_framed [of d] overlong_not_valid [of d]
    by (simp add: js_decodeURIComponent_def js_decodeURI_def js_unescape_def uri_result_def)
qed

theorem uri_decoders_accept_ill_formed_witness:
  "js_decodeURI full_mem (UriString (concat (map percent (wtf8_char 0xD800)))) = Inr (wtf8_char 0xD800) \<and>
   js_decodeURIComponent full_mem (UriString (concat (map percent (overlong 0x2F)))) = Inr (overlong 0x2F)"
proof -
  have "surrogate 0xD800" by (simp add: surrogate_def)
  moreover have "\<forall>b \<in> set (wtf8_char 0xD800). \<not> is_uri_reserved b"
    using uri_kept_ascii(2) [of 237] uri_kept_ascii(2) [of 160] uri_kept_ascii(2) [of 128] by (auto simp: wtf8_char_def byte_def)
  ultimately show ?thesis
    using uri_decoders_accept_ill_formed [OF ample_full_mem, of "wtf8_char 0xD800" "0xD800" "0x2F"]
      uri_decoders_accept_ill_formed [OF ample_full_mem, of "overlong 0x2F" "0xD800" "0x2F"] by simp
qed

end
