(* ===== verification/Spec2Isabelle.thy ===== *)
theory Spec2Isabelle
  imports Bigint_Spec Text_Spec Uri_Spec
begin

text \<open>
  Verification of parts of the Ant JavaScript runtime (\<^verbatim>\<open>src/\<close>, in C).

  \<^bold>\<open>The program.\<close> Ant is a JavaScript runtime: a value representation and object model
  (\<^verbatim>\<open>src/ant.c\<close>), the Silver front end and bytecode engine (\<^verbatim>\<open>src/silver\<close>), a garbage collector
  (\<^verbatim>\<open>src/gc\<close>), and some eighty builtin modules (\<^verbatim>\<open>src/modules\<close>, \<^verbatim>\<open>src/streams\<close>, \<^verbatim>\<open>src/http\<close>). The
  development models components whose meaning is in their own code and not in a library they
  wrap, each at the level of its C functions, and proves what a script or a caller relies on.

  \<^bold>\<open>Conventions.\<close> A C function is a HOL function with the same name. A struct is a record, an enum a
  datatype, a \<^verbatim>\<open>uint32_t\<close> a 32-bit word; sizes and indices are natural numbers where the code checks
  them against a length, and words where it relies on wrap-around. A loop is a recursive function
  with a termination proof, or a primitive recursion on the number of rounds. Errors are values
  (\<open>js_error\<close>, \<open>option\<close>, or a result datatype of the component). Every request to the allocator
  asks the environment \<open>mem_env\<close>, so that each out-of-memory path of the source is a branch of the
  model; \<open>ample_memory\<close> is the environment that refuses nothing. Undefined behaviour of C is an error value
  of its own (\<open>BufferOverrun\<close>, \<open>NotABigint\<close>, \<open>ConversionUndefined\<close>), so that a theorem about results
  also says that it does not happen. Library code that is not in the repository is a parameter:
  \<open>enc\<close> and \<open>iter\<close> for \<^verbatim>\<open>utf8proc_encode_char\<close> and \<^verbatim>\<open>utf8proc_iterate\<close>, with the documented behaviour as
  the hypotheses \<open>utf8proc_encodes\<close> and \<open>utf8proc_iterates\<close>, which the reference functions
  \<open>encode_char_ref\<close> and \<open>iterate_ref\<close> satisfy. The parts of \<^verbatim>\<open>js_to_number\<close> that run a script or parse a
  double are the parameter \<open>conv\<close>, of which nothing is assumed.

  \<^bold>\<open>Prelude.\<close> \<open>Ant_Prelude\<close> has the machine types, errors, the memory environment and lemmas on
  words; \<open>Text_Digits\<close> positional notation, \<^verbatim>\<open>hex_digit\<close> and \<^verbatim>\<open>hex_char\<close> (\<^verbatim>\<open>src/utils.c\<close>).

  \<^bold>\<open>BigInt\<close> (\<^verbatim>\<open>src/modules/bigint.c\<close>). \<open>Bigint_Limbs\<close>, \<open>Bigint_Shift\<close> and \<open>Bigint_Bits\<close> model the
  arithmetic on limb arrays, \<open>Bigint_Value\<close> the heap payload and its normal form, \<open>Bigint_Ops\<close> and
  \<open>Bigint_Bitops\<close> the operators, \<open>Bigint_Knuth\<close> and \<open>Bigint_Div\<close> the long division, \<open>Bigint_Text\<close> parsing
  and printing, \<open>Bigint_Literals\<close> the value of a numeral from tables of its own, which the scanner computes,
  and \<open>Bigint_Builtins\<close> exponentiation, \<^verbatim>\<open>BigInt(value)\<close>, \<^verbatim>\<open>asIntN\<close>, \<^verbatim>\<open>asUintN\<close>, 64-bit conversions and the
  console formatter. A double is a rational number, the negative zero or not finite. \<open>Bigint_Spec\<close> states the results over the integer a value denotes: operators
  compute the integer operation in normal form or report an error; the division is exact
  except where the correction step wraps, and a concrete pair of operands shows that it can; the
  loops end within stated bounds; text is read back. Exponentiation takes fuel, the number of
  bits of the exponent, which the theorem shows to be enough.

  \<^bold>\<open>Strings and code units\<close> (\<^verbatim>\<open>src/utf8.c\<close>, \<^verbatim>\<open>include/internal.h\<close>). A string is WTF-8 bytes with a
  metadata word. \<open>Utf8_Codec\<close> models decoding, validation, lengths and Latin-1; \<open>Flat_String\<close> the
  header with its cached answers; \<open>Utf16_Index\<close> the lookups by UTF-16 code unit with their two
  thread-local caches, the last position and the checkpoint tables. \<open>Utf16_Lookup\<close> proves the loops and the
  invariant \<open>text_inv\<close> of the caches, \<open>Utf16_Queries\<close> that every lookup satisfies the contract
  \<open>text_query\<close> (it keeps the invariant and gives the answer the text determines). \<open>Text_States\<close> models how strings
  are made (\<^verbatim>\<open>js_mkstr\<close> and the flattening of ropes and builders in \<^verbatim>\<open>src/ant.c\<close>, whose counters
  are assumed right when set) and proves that every state reached by lookups, exports, allocations and
  sweeps (\<open>text_step\<close>) has the invariant.

  \<^bold>\<open>Text codecs\<close> (\<^verbatim>\<open>src/utf8.c\<close>, \<^verbatim>\<open>src/modules/textcodec.c\<close>, \<^verbatim>\<open>src/streams/codec.c\<close>). \<open>Text_Decoder\<close> models
  \<^verbatim>\<open>TextDecoder\<close> with its label table and the UTF-8, UTF-16 and single-byte decoders, \<open>Text_Decoding\<close> proves
  what a run of each computes, \<open>Text_Streams\<close> that two calls give what one call on both inputs
  gives. \<open>Surrogate_Text\<close> defines the scalar values of a text with unpaired surrogates and classifies
  their bytes. \<open>Codec_Streams\<close> models the callbacks of \<^verbatim>\<open>TextEncoderStream\<close> and \<^verbatim>\<open>TextDecoderStream\<close>; both
  satisfy the contract \<open>chunked_codec\<close>, from which a session does not depend on its chunks. \<open>Utf8_Export\<close>
  models the export of strings and \<^verbatim>\<open>TextEncoder\<close>, \<open>Text_Labels\<close> compares the label tables with that of the
  Encoding Standard on every label, \<open>Json_Quote\<close> the string writer of \<^verbatim>\<open>JSON.stringify\<close>
  with a reference reader. \<open>Text_Spec\<close> states the results.

  \<^bold>\<open>URI functions\<close> (\<^verbatim>\<open>src/modules/uri.c\<close>). \<open>Uri_Codec\<close> models the six global functions with their
  character tables; \<open>Uri_Spec\<close> shows what the encoders write and refuse, that the decoders undo them, and
  which escaped bytes the decoders accept, some of them ill-formed.

  \<^bold>\<open>Not modelled.\<close> The interpreter, the compiler and the just-in-time compiler, whose state is the
  whole heap of script values; the collector beyond the sweep epoch and the answers of the
  allocator; conversions between BigInt and double; modules that wrap a library (regular expressions, TLS, compression,
  LMDB, cryptography) or the operating system (files, processes, sockets, timers). Script values reach the modelled
  functions as the bytes, numbers and flags the functions read from them; property getters and the
  registration of prototypes are left out.
\<close>

end
